(* ===== verification/Memory_Pool.thy ===== *)
theory Memory_Pool
  imports Prelude
begin

text \<open>
  The slab allocator of \<^verbatim>\<open>src/memorypool/memorypool.hpp\<close> (\<^verbatim>\<open>MemoryPool<T, BlockSize>\<close>) over an
  explicit store: pointers are addresses (0 is null), \<open>store a\<close> is the word at address \<open>a\<close>, i.e.
  the \<^verbatim>\<open>next\<close> member of the \<^verbatim>\<open>Slot_\<close> union there. The template parameters that fix the layout
  are the record \<open>pool_cfg\<close>; the address \<^verbatim>\<open>operator new\<close> returns is an argument of \<open>allocate\<close>.
  The theory ends with the interface \<open>allocator\<close>, which the LRU cache is verified against, and its
  interpretation on the pool.
\<close>

section \<open>State and operations\<close>

text \<open>\<^verbatim>\<open>BlockSize\<close>, \<^verbatim>\<open>sizeof(Slot_)\<close> and \<^verbatim>\<open>alignof(Slot_)\<close>; a pointer has 8 bytes.\<close>

record pool_cfg =
  block_size :: nat
  slot_size :: nat
  slot_align :: nat

record mem_pool =
  currentBlock :: nat
  currentSlot :: nat
  lastSlot :: nat
  freeSlots :: nat
  store :: "nat \<Rightarrow> nat"

definition pool_new :: "(nat \<Rightarrow> nat) \<Rightarrow> mem_pool" where
  "pool_new m = \<lparr>currentBlock = 0, currentSlot = 0, lastSlot = 0, freeSlots = 0, store = m\<rparr>"

definition first_slot :: "pool_cfg \<Rightarrow> nat \<Rightarrow> nat" where
  "first_slot c b =
     (let body = b + 8; bodyPadding = slot_align c - body mod slot_align c
      in body + bodyPadding)"

definition new_block :: "pool_cfg \<Rightarrow> nat \<Rightarrow> mem_pool \<Rightarrow> mem_pool" where
  "new_block c nb p = p\<lparr>
     store := (store p)(nb := currentBlock p),
     currentBlock := nb,
     currentSlot := first_slot c nb,
     lastSlot := nb + block_size c - slot_size c + 1\<rparr>"

definition allocate :: "pool_cfg \<Rightarrow> nat \<Rightarrow> mem_pool \<Rightarrow> nat \<times> mem_pool" where
  "allocate c nb p =
     (if freeSlots p \<noteq> 0
      then (freeSlots p, p\<lparr>freeSlots := store p (freeSlots p)\<rparr>)
      else
        let p' = (if lastSlot p \<le> currentSlot p then new_block c nb p else p)
        in (currentSlot p', p'\<lparr>currentSlot := currentSlot p' + slot_size c\<rparr>))"

definition deallocate :: "nat \<Rightarrow> mem_pool \<Rightarrow> mem_pool" where
  "deallocate q p =
     (if q \<noteq> 0 then p\<lparr>store := (store p)(q := freeSlots p), freeSlots := q\<rparr> else p)"

text \<open>Placement new writes the element over the slot, so over its \<^verbatim>\<open>next\<close> word as well.\<close>

definition construct :: "nat \<Rightarrow> nat \<Rightarrow> mem_pool \<Rightarrow> mem_pool" where
  "construct q w p = p\<lparr>store := (store p)(q := w)\<rparr>"

text \<open>
  The destructor walks the chain of blocks and gives each back to \<^verbatim>\<open>operator delete\<close>; the result is
  the list of blocks in the order they are deleted, \<open>None\<close> when the walk does not end.
\<close>

partial_function (option) delete_blocks :: "(nat \<Rightarrow> nat) \<Rightarrow> nat \<Rightarrow> nat list \<Rightarrow> nat list option" where
  "delete_blocks m q acc =
     (if q = 0 then Some acc else delete_blocks m (m q) (acc @ [q]))"

definition pool_destructor :: "mem_pool \<Rightarrow> nat list option" where
  "pool_destructor p = delete_blocks (store p) (currentBlock p) []"

section \<open>Chains in the store\<close>

primrec chain :: "(nat \<Rightarrow> nat) \<Rightarrow> nat \<Rightarrow> nat list \<Rightarrow> bool" where
  "chain m p [] \<longleftrightarrow> p = 0"
| "chain m p (a # as) \<longleftrightarrow> p = a \<and> a \<noteq> 0 \<and> chain m (m a) as"

lemma chain_null [simp]: "chain m 0 as \<longleftrightarrow> as = []"
  by (cases as) auto

lemma chain_Cons_ptr: "p \<noteq> 0 \<Longrightarrow> chain m p as \<longleftrightarrow> (\<exists>as'. as = p # as' \<and> chain m (m p) as')"
  by (cases as) auto

lemma chain_unique: "chain m p as \<Longrightarrow> chain m p bs \<Longrightarrow> as = bs"
proof (induction as arbitrary: p bs)
  case Nil
  then show ?case by simp
next
  case (Cons a as)
  then show ?case by (cases bs) auto
qed

lemma chain_nonzero: "chain m p as \<Longrightarrow> 0 \<notin> set as"
  by (induction as arbitrary: p) auto

lemma chain_upd [simp]: "a \<notin> set as \<Longrightarrow> chain (m(a := v)) p as = chain m p as"
  by (induction as arbitrary: p) auto

lemma delete_blocks_chain: "chain m p as \<Longrightarrow> delete_blocks m p acc = Some (acc @ as)"
proof (induction as arbitrary: p acc)
  case Nil
  then show ?case by (simp add: delete_blocks.simps)
next
  case (Cons a as)
  then have "delete_blocks m (m a) (acc @ [a]) = Some ((acc @ [a]) @ as)" by simp
  with Cons.prems show ?case by (simp add: delete_blocks.simps [of m a])
qed

section \<open>The layout invariant\<close>

definition cfg_ok :: "pool_cfg \<Rightarrow> bool" where
  "cfg_ok c \<longleftrightarrow> 0 < slot_align c \<and> slot_align c dvd slot_size c \<and> 8 \<le> slot_size c \<and>
     8 + slot_align c + slot_size c \<le> block_size c"

text \<open>What the source's \<^verbatim>\<open>static_assert\<close> checks.\<close>

definition static_assert_ok :: "pool_cfg \<Rightarrow> bool" where
  "static_assert_ok c \<longleftrightarrow> 2 * slot_size c \<le> block_size c"

definition apart :: "nat \<Rightarrow> nat \<Rightarrow> nat \<Rightarrow> bool" where
  "apart n a b \<longleftrightarrow> a + n \<le> b \<or> b + n \<le> a"

definition slot_at :: "pool_cfg \<Rightarrow> nat \<Rightarrow> nat \<Rightarrow> bool" where
  "slot_at c b s \<longleftrightarrow> (\<exists>k. s = first_slot c b + k * slot_size c) \<and> s + slot_size c \<le> b + block_size c"

text \<open>The bump pointer walks the slots of the newest block, and has passed every slot in use there.\<close>

definition bump_ok :: "pool_cfg \<Rightarrow> nat \<Rightarrow> nat \<Rightarrow> nat list \<Rightarrow> nat set \<Rightarrow> bool" where
  "bump_ok c cur lst bs S \<longleftrightarrow>
     (case bs of [] \<Rightarrow> cur = 0 \<and> lst = 0
      | b # _ \<Rightarrow>
          (\<exists>k. cur = first_slot c b + k * slot_size c) \<and>
          lst = b + block_size c - slot_size c + 1 \<and>
          (\<forall>s \<in> S. slot_at c b s \<longrightarrow> s < cur))"

definition pool_inv :: "pool_cfg \<Rightarrow> mem_pool \<Rightarrow> nat list \<Rightarrow> nat list \<Rightarrow> nat set \<Rightarrow> bool" where
  "pool_inv c p bs fs L \<longleftrightarrow>
     cfg_ok c \<and>
     chain (store p) (currentBlock p) bs \<and> distinct bs \<and>
     (\<forall>a \<in> set bs. \<forall>b \<in> set bs. a \<noteq> b \<longrightarrow> apart (block_size c) a b) \<and>
     chain (store p) (freeSlots p) fs \<and> distinct fs \<and> set fs \<inter> L = {} \<and>
     (\<forall>s \<in> set fs \<union> L. \<exists>b \<in> set bs. slot_at c b s) \<and>
     bump_ok c (currentSlot p) (lastSlot p) bs (set fs \<union> L)"

definition block_fresh :: "pool_cfg \<Rightarrow> nat \<Rightarrow> mem_pool \<Rightarrow> bool" where
  "block_fresh c nb p \<longleftrightarrow> nb \<noteq> 0 \<and>
     (\<forall>bs. chain (store p) (currentBlock p) bs \<longrightarrow> (\<forall>b \<in> set bs. apart (block_size c) b nb))"

definition pool_live :: "pool_cfg \<Rightarrow> mem_pool \<Rightarrow> nat set \<Rightarrow> bool" where
  "pool_live c p L \<longleftrightarrow> (\<exists>bs fs. pool_inv c p bs fs L)"

lemma first_slot_bounds:
  "0 < slot_align c \<Longrightarrow> b + 8 < first_slot c b \<and> first_slot c b \<le> b + 8 + slot_align c"
  using mod_less_divisor [of "slot_align c" "b + 8"]
  unfolding first_slot_def Let_def by linarith

lemma first_slot_aligned:
  assumes "0 < slot_align c"
  shows "slot_align c dvd first_slot c b"
proof -
  have le: "(b + 8) mod slot_align c \<le> slot_align c"
    using assms by (simp add: order_less_imp_le)
  have "b + 8 = slot_align c * ((b + 8) div slot_align c) + (b + 8) mod slot_align c"
    by simp
  then have "first_slot c b = slot_align c * ((b + 8) div slot_align c) + slot_align c"
    using le unfolding first_slot_def Let_def by linarith
  then show ?thesis by simp
qed

lemma slot_at_inside:
  "cfg_ok c \<Longrightarrow> slot_at c b s \<Longrightarrow> b + 8 < s \<and> s + slot_size c \<le> b + block_size c"
  using first_slot_bounds [of c b] by (auto simp: slot_at_def cfg_ok_def)

lemma slot_at_aligned: "cfg_ok c \<Longrightarrow> slot_at c b s \<Longrightarrow> slot_align c dvd s"
  using first_slot_aligned [of c b] by (auto simp: slot_at_def cfg_ok_def)

lemma slots_same_block_apart:
  assumes "slot_at c b s" "slot_at c b t" "s \<noteq> t"
  shows "apart (slot_size c) s t"
proof -
  from assms obtain j k where s: "s = first_slot c b + j * slot_size c"
    and t: "t = first_slot c b + k * slot_size c" by (auto simp: slot_at_def)
  with assms(3) consider "Suc j \<le> k" | "Suc k \<le> j" by (metis not_less_eq_eq nat_le_linear le_antisym)
  then show ?thesis
  proof cases
    case 1
    then have "Suc j * slot_size c \<le> k * slot_size c" by (rule mult_le_mono1)
    then show ?thesis by (simp add: apart_def s t)
  next
    case 2
    then have "Suc k * slot_size c \<le> j * slot_size c" by (rule mult_le_mono1)
    then show ?thesis by (simp add: apart_def s t)
  qed
qed

lemma slots_apart:
  assumes "cfg_ok c" "slot_at c a s" "slot_at c b t" "s \<noteq> t"
    and "a \<noteq> b \<Longrightarrow> apart (block_size c) a b"
  shows "apart (slot_size c) s t"
proof (cases "a = b")
  case True
  with assms slots_same_block_apart show ?thesis by blast
next
  case False
  with assms slot_at_inside [OF assms(1,2)] slot_at_inside [OF assms(1,3)]
  show ?thesis by (auto simp: apart_def)
qed

lemma slot_not_header:
  assumes "cfg_ok c" "slot_at c a s" "a \<noteq> b \<Longrightarrow> apart (block_size c) a b"
  shows "s \<noteq> b"
  using assms slot_at_inside [OF assms(1,2)] by (cases "a = b") (auto simp: apart_def cfg_ok_def)

section \<open>The operations keep the layout\<close>

lemma pool_inv_new: "cfg_ok c \<Longrightarrow> pool_inv c (pool_new m) [] [] {}"
  by (simp add: pool_inv_def pool_new_def bump_ok_def)

lemma pool_inv_cfg: "pool_inv c p bs fs L \<Longrightarrow> cfg_ok c"
  by (simp add: pool_inv_def)

lemma pool_inv_slot:
  assumes "pool_inv c p bs fs L" "s \<in> set fs \<union> L"
  obtains b where "b \<in> set bs" "slot_at c b s"
  using assms unfolding pool_inv_def by blast

lemma pool_inv_slots_apart:
  assumes inv: "pool_inv c p bs fs L" and "s \<in> set fs \<union> L" "t \<in> set fs \<union> L" "s \<noteq> t"
  shows "apart (slot_size c) s t"
proof -
  from assms obtain a b where "a \<in> set bs" "slot_at c a s" "b \<in> set bs" "slot_at c b t"
    by (metis pool_inv_slot)
  with assms show ?thesis by (intro slots_apart [of c a s b t]) (auto simp: pool_inv_def)
qed

lemma pool_inv_slot_not_header:
  assumes inv: "pool_inv c p bs fs L" and "s \<in> set fs \<union> L" "b \<in> set bs"
  shows "s \<noteq> b"
proof -
  from assms obtain a where "a \<in> set bs" "slot_at c a s" by (metis pool_inv_slot)
  with assms show ?thesis by (intro slot_not_header [of c a s b]) (auto simp: pool_inv_def)
qed

lemma pool_inv_write_live:
  assumes "pool_inv c p bs fs L" "q \<in> L"
  shows "pool_inv c (construct q w p) bs fs L"
proof -
  have "q \<notin> set bs" using pool_inv_slot_not_header [OF assms(1), of q q] assms(2) by auto
  moreover have "q \<notin> set fs" using assms by (auto simp: pool_inv_def)
  ultimately show ?thesis using assms(1) by (simp add: pool_inv_def construct_def)
qed

lemma pool_inv_deallocate:
  assumes inv: "pool_inv c p bs fs L" and q: "q \<in> L"
  shows "pool_inv c (deallocate q p) bs (q # fs) (L - {q})"
proof -
  from inv q obtain b where "slot_at c b q" by (metis UnCI pool_inv_slot)
  then have q0: "q \<noteq> 0" using slot_at_inside [OF pool_inv_cfg [OF inv]] by fastforce
  have "q \<notin> set bs" using pool_inv_slot_not_header [OF inv, of q q] q by auto
  moreover have "q \<notin> set fs" using inv q by (auto simp: pool_inv_def)
  moreover have "set (q # fs) \<union> (L - {q}) = set fs \<union> L" using q by auto
  moreover have "\<forall>s \<in> set (q # fs) \<union> (L - {q}). \<exists>b \<in> set bs. slot_at c b s"
    using inv q by (auto simp: pool_inv_def)
  ultimately show ?thesis using inv q0
    by (auto simp: pool_inv_def deallocate_def)
qed

lemma block_fresh_deallocate:
  assumes inv: "pool_inv c p bs fs L" and q: "q \<in> L" and fr: "block_fresh c nb p"
  shows "block_fresh c nb (deallocate q p)"
proof -
  have ch: "chain (store p) (currentBlock p) bs" using inv by (simp add: pool_inv_def)
  have ch': "chain (store (deallocate q p)) (currentBlock (deallocate q p)) bs"
    using pool_inv_deallocate [OF inv q] by (simp add: pool_inv_def)
  show ?thesis
    using fr ch chain_unique [OF ch'] by (auto simp: block_fresh_def)
qed

lemma pool_inv_reuse:
  assumes inv: "pool_inv c p bs fs L" and "freeSlots p \<noteq> 0"
  shows "\<exists>fs'. fs = freeSlots p # fs' \<and>
    pool_inv c (p\<lparr>freeSlots := store p (freeSlots p)\<rparr>) bs fs' (insert (freeSlots p) L)"
proof -
  from inv assms(2) obtain fs' where fs: "fs = freeSlots p # fs'"
    by (auto simp: pool_inv_def chain_Cons_ptr)
  then have "set fs' \<union> insert (freeSlots p) L = set fs \<union> L" by auto
  with inv fs show ?thesis by (auto simp: pool_inv_def)
qed

lemma pool_inv_bump:
  assumes inv: "pool_inv c p bs fs L" and lt: "currentSlot p < lastSlot p"
  shows "pool_inv c (p\<lparr>currentSlot := currentSlot p + slot_size c\<rparr>) bs fs (insert (currentSlot p) L)
    \<and> currentSlot p \<notin> set fs \<union> L"
proof -
  let ?q = "currentSlot p"
  from inv lt obtain b bs' where bs: "bs = b # bs'"
    by (cases bs) (auto simp: pool_inv_def bump_ok_def)
  from inv bs have "bump_ok c ?q (lastSlot p) (b # bs') (set fs \<union> L)"
    by (simp add: pool_inv_def)
  then obtain k where k: "?q = first_slot c b + k * slot_size c"
    and last: "lastSlot p = b + block_size c - slot_size c + 1"
    and below: "\<forall>s \<in> set fs \<union> L. slot_at c b s \<longrightarrow> s < ?q"
    unfolding bump_ok_def list.case by blast
  have cfg: "slot_size c \<le> block_size c" "0 < slot_size c"
    using pool_inv_cfg [OF inv] by (auto simp: cfg_ok_def)
  with lt last have "?q + slot_size c \<le> b + block_size c" by linarith
  with k have at: "slot_at c b ?q" by (auto simp: slot_at_def)
  with below have fresh: "?q \<notin> set fs \<union> L" by blast
  have succ: "\<exists>k'. ?q + slot_size c = first_slot c b + k' * slot_size c"
    by (rule exI [of _ "Suc k"]) (simp add: k)
  have "\<forall>s \<in> set fs \<union> insert ?q L. slot_at c b s \<longrightarrow> s < ?q + slot_size c"
    using below cfg(2) by auto
  with inv at fresh succ show ?thesis by (simp add: pool_inv_def bump_ok_def bs)
qed

lemma pool_inv_new_block:
  assumes inv: "pool_inv c p bs fs L" and fresh: "block_fresh c nb p"
  shows "pool_inv c (new_block c nb p) (nb # bs) fs L \<and>
    currentSlot (new_block c nb p) < lastSlot (new_block c nb p)"
proof -
  from inv fresh have ap: "\<forall>b \<in> set bs. apart (block_size c) b nb" and nb: "nb \<noteq> 0"
    by (auto simp: pool_inv_def block_fresh_def)
  have cfg: "cfg_ok c" using inv by (rule pool_inv_cfg)
  then have nbs: "nb \<notin> set bs" using ap by (fastforce simp: apart_def cfg_ok_def)
  have nfs: "s \<noteq> nb" "\<not> slot_at c nb s" if "s \<in> set fs \<union> L" for s
  proof -
    from inv that obtain b where b: "b \<in> set bs" "slot_at c b s" by (rule pool_inv_slot)
    with ap cfg show "s \<noteq> nb" by (intro slot_not_header [of c b s nb]) auto
    from b ap cfg show "\<not> slot_at c nb s"
      using slot_at_inside [OF cfg b(2)] slot_at_inside [OF cfg, of nb s]
      by (fastforce simp: apart_def cfg_ok_def)
  qed
  have "first_slot c nb < nb + block_size c - slot_size c + 1"
    using first_slot_bounds [of c nb] cfg unfolding cfg_ok_def by linarith
  moreover have "\<exists>k. first_slot c nb = first_slot c nb + k * slot_size c"
    by (rule exI [of _ 0]) simp
  moreover have "nb \<notin> set fs" using nfs(1) by blast
  moreover have "\<forall>a \<in> set (nb # bs). \<forall>b \<in> set (nb # bs). a \<noteq> b \<longrightarrow> apart (block_size c) a b"
    using inv ap by (auto simp: pool_inv_def apart_def)
  moreover have "\<forall>s \<in> set fs \<union> L. \<exists>b \<in> set (nb # bs). slot_at c b s"
    using inv by (auto simp: pool_inv_def)
  moreover have "\<forall>s \<in> set fs \<union> L. slot_at c nb s \<longrightarrow> s < first_slot c nb"
    using nfs(2) by blast
  ultimately show ?thesis using inv nbs nb
    by (simp add: pool_inv_def bump_ok_def new_block_def)
qed

lemma pool_inv_allocate:
  assumes inv: "pool_inv c p bs fs L" and fresh: "block_fresh c nb p"
    and al: "allocate c nb p = (q, p')"
  shows "q \<notin> L \<and> (\<exists>bs' fs'. pool_inv c p' bs' fs' (insert q L))"
proof (cases "freeSlots p \<noteq> 0")
  case True
  from pool_inv_reuse [OF inv this] obtain fs' where "fs = freeSlots p # fs'"
    and "pool_inv c (p\<lparr>freeSlots := store p (freeSlots p)\<rparr>) bs fs' (insert (freeSlots p) L)"
    by blast
  moreover have "freeSlots p \<notin> L" using inv calculation(1) by (auto simp: pool_inv_def)
  ultimately show ?thesis using al True by (auto simp: allocate_def)
next
  case False
  show ?thesis
  proof (cases "lastSlot p \<le> currentSlot p")
    case True
    from pool_inv_new_block [OF inv fresh]
    have inv': "pool_inv c (new_block c nb p) (nb # bs) fs L"
      and lt: "currentSlot (new_block c nb p) < lastSlot (new_block c nb p)" by auto
    from pool_inv_bump [OF inv' lt] al False True show ?thesis
      by (auto simp: allocate_def Let_def)
  next
    case False
    then have "currentSlot p < lastSlot p" by simp
    from pool_inv_bump [OF inv this] al \<open>\<not> freeSlots p \<noteq> 0\<close> False show ?thesis
      by (auto simp: allocate_def Let_def)
  qed
qed

lemma pool_live_slot_facts:
  assumes "pool_live c p L" "q \<in> L"
  shows "q \<noteq> 0 \<and> slot_align c dvd q"
proof -
  from assms(1) obtain bs fs where inv: "pool_inv c p bs fs L" by (auto simp: pool_live_def)
  with assms(2) obtain b where "slot_at c b q" by (metis UnCI pool_inv_slot)
  with slot_at_inside [OF pool_inv_cfg [OF inv]] slot_at_aligned [OF pool_inv_cfg [OF inv]]
  show ?thesis by fastforce
qed

section \<open>The allocator interface\<close>

text \<open>
  What a container relies on: \<open>live a L\<close> says that exactly the slots \<open>L\<close> are handed out,
  \<open>fresh nb a\<close> that the memory the system would provide at \<open>nb\<close> is new. The slots handed out are
  distinct, non-null and do not overlap, whatever the client writes into them.
\<close>

locale allocator =
  fixes alloc :: "nat \<Rightarrow> 'a \<Rightarrow> nat \<times> 'a"
    and dealloc :: "nat \<Rightarrow> 'a \<Rightarrow> 'a"
    and constr :: "nat \<Rightarrow> nat \<Rightarrow> 'a \<Rightarrow> 'a"
    and live :: "'a \<Rightarrow> nat set \<Rightarrow> bool"
    and fresh :: "nat \<Rightarrow> 'a \<Rightarrow> bool"
    and width :: nat
  assumes alloc_live: "live a L \<Longrightarrow> fresh nb a \<Longrightarrow> alloc nb a = (q, a') \<Longrightarrow> live a' (insert q L)"
    and alloc_new: "live a L \<Longrightarrow> fresh nb a \<Longrightarrow> alloc nb a = (q, a') \<Longrightarrow> q \<notin> L"
    and live_nonnull: "live a L \<Longrightarrow> q \<in> L \<Longrightarrow> q \<noteq> 0"
    and live_apart: "live a L \<Longrightarrow> q \<in> L \<Longrightarrow> r \<in> L \<Longrightarrow> q \<noteq> r \<Longrightarrow> apart width q r"
    and dealloc_live: "live a L \<Longrightarrow> q \<in> L \<Longrightarrow> live (dealloc q a) (L - {q})"
    and dealloc_fresh: "live a L \<Longrightarrow> q \<in> L \<Longrightarrow> fresh nb a \<Longrightarrow> fresh nb (dealloc q a)"
    and constr_live: "live a L \<Longrightarrow> q \<in> L \<Longrightarrow> live (constr q w a) L"
begin

lemma alloc_constr:
  assumes "live a L" "fresh nb a" "alloc nb a = (q, a')"
  shows "live (constr q w a') (insert q L)" "q \<notin> L" "q \<noteq> 0"
  using assms alloc_live [OF assms] constr_live [of a' "insert q L" q w]
    alloc_new [OF assms] live_nonnull [of a' "insert q L" q] by auto

end

interpretation mpool: allocator "allocate c" deallocate construct "pool_live c" "block_fresh c" "slot_size c"
  for c
proof unfold_locales
  show "pool_live c a' (insert q L)" "q \<notin> L"
    if "pool_live c a L" "block_fresh c nb a" "allocate c nb a = (q, a')" for a L nb q a'
    using that pool_inv_allocate by (fastforce simp: pool_live_def)+
  show "q \<noteq> 0" if "pool_live c a L" "q \<in> L" for a L q
    using that pool_live_slot_facts by blast
  show "apart (slot_size c) q r" if "pool_live c a L" "q \<in> L" "r \<in> L" "q \<noteq> r" for a L q r
    using that pool_inv_slots_apart by (fastforce simp: pool_live_def)
  show "pool_live c (deallocate q a) (L - {q})" if "pool_live c a L" "q \<in> L" for a L q
    using that pool_inv_deallocate by (fastforce simp: pool_live_def)
  show "block_fresh c nb (deallocate q a)" if "pool_live c a L" "q \<in> L" "block_fresh c nb a" for a L q nb
    using that block_fresh_deallocate by (auto simp: pool_live_def)
  show "pool_live c (construct q w a) L" if "pool_live c a L" "q \<in> L" for a L q w
    using that pool_inv_write_live by (fastforce simp: pool_live_def)
qed

section \<open>Every run of a client\<close>

text \<open>
  A client that frees only slots it holds and writes only into them; \<open>pool_reach c p L\<close> is the
  state after some such run with the slots \<open>L\<close> in its hands.
\<close>

inductive pool_reach :: "pool_cfg \<Rightarrow> mem_pool \<Rightarrow> nat set \<Rightarrow> bool" for c where
  reach_new: "pool_reach c (pool_new m) {}"
| reach_alloc: "pool_reach c p L \<Longrightarrow> block_fresh c nb p \<Longrightarrow> allocate c nb p = (q, p') \<Longrightarrow>
    pool_reach c p' (insert q L)"
| reach_dealloc: "pool_reach c p L \<Longrightarrow> q \<in> L \<Longrightarrow> pool_reach c (deallocate q p) (L - {q})"
| reach_write: "pool_reach c p L \<Longrightarrow> q \<in> L \<Longrightarrow> pool_reach c (construct q w p) L"

lemma pool_reach_live: "pool_reach c p L \<Longrightarrow> cfg_ok c \<Longrightarrow> pool_live c p L"
proof (induction rule: pool_reach.induct)
  case (reach_new m)
  then show ?case using pool_inv_new by (auto simp: pool_live_def)
qed (auto intro: mpool.alloc_live mpool.dealloc_live mpool.constr_live)

lemma pool_inv_destructor:
  "pool_inv c p bs fs L \<Longrightarrow> pool_destructor p = Some bs"
  using delete_blocks_chain [of "store p" "currentBlock p" bs "[]"]
  by (simp add: pool_inv_def pool_destructor_def)

definition demo_cfg :: pool_cfg where
  "demo_cfg = \<lparr>block_size = 4096, slot_size = 72, slot_align = 8\<rparr>"

lemma demo_cfg_ok: "cfg_ok demo_cfg"
  by (simp add: cfg_ok_def demo_cfg_def)

lemma demo_run:
  "\<exists>p. pool_reach demo_cfg p {4112, 4184}"
proof -
  let ?m = "\<lambda>_. 0"
  let ?p = "pool_new ?m"
  have "block_fresh demo_cfg 4096 ?p" by (simp add: block_fresh_def pool_new_def)
  moreover obtain p1 where p1: "allocate demo_cfg 4096 ?p = (4112, p1)"
    and c1: "currentSlot p1 = 4184" "lastSlot p1 = 8121" "freeSlots p1 = 0"
      "currentBlock p1 = 4096" "store p1 4096 = 0"
    by (simp add: allocate_def pool_new_def new_block_def first_slot_def demo_cfg_def Let_def)
  ultimately have r1: "pool_reach demo_cfg p1 {4112}"
    using reach_alloc [OF reach_new] by simp
  have "block_fresh demo_cfg 12288 p1"
    by (auto simp: block_fresh_def c1 chain_Cons_ptr apart_def demo_cfg_def)
  moreover have "\<exists>p2. allocate demo_cfg 12288 p1 = (4184, p2)"
    by (simp add: allocate_def c1 Let_def)
  ultimately show ?thesis
    using reach_alloc [OF r1] by (metis insert_commute)
qed

text \<open>
  C7. Slot safety of the allocator. In every state a well-behaved client can reach, the slots it
  holds are non-null, aligned and pairwise disjoint (\<open>apart\<close>), each lies inside a block the pool
  owns, and the next allocation returns a slot it does not hold, whichever of the three ways
  (free list, current block, new block) serves it.
\<close>

theorem mempool_slots_safe:
  assumes "cfg_ok c" "pool_reach c p L"
  shows "(\<forall>q \<in> L. q \<noteq> 0 \<and> slot_align c dvd q \<and>
            (\<forall>r \<in> L. q \<noteq> r \<longrightarrow> apart (slot_size c) q r) \<and>
            (\<exists>bs. pool_destructor p = Some bs \<and>
               (\<exists>b \<in> set bs. b + 8 \<le> q \<and> q + slot_size c \<le> b + block_size c))) \<and>
         (\<forall>nb q p'. block_fresh c nb p \<longrightarrow> allocate c nb p = (q, p') \<longrightarrow> q \<notin> L)"
proof -
  have live: "pool_live c p L" using assms by (intro pool_reach_live)
  then obtain bs fs where inv: "pool_inv c p bs fs L" by (auto simp: pool_live_def)
  have "\<exists>b \<in> set bs. b + 8 \<le> q \<and> q + slot_size c \<le> b + block_size c" if "q \<in> L" for q
    using pool_inv_slot [OF inv, of q] slot_at_inside [OF assms(1)] that by (metis UnCI less_imp_le)
  then show ?thesis
    using live pool_inv_destructor [OF inv] pool_live_slot_facts [OF live]
      mpool.live_apart [OF live] mpool.alloc_new [OF live] by auto
qed

theorem mempool_slots_safe_witness:
  "cfg_ok demo_cfg \<and> (\<exists>p. pool_reach demo_cfg p {4112, 4184} \<and>
     apart (slot_size demo_cfg) 4112 4184)"
proof -
  obtain p where p: "pool_reach demo_cfg p {4112, 4184}" using demo_run by blast
  have "apart (slot_size demo_cfg) 4112 4184"
    using mempool_slots_safe [OF demo_cfg_ok p] by simp
  with p demo_cfg_ok show ?thesis by blast
qed

text \<open>
  C40. The destructor terminates and returns every block exactly once, in every reachable state:
  no block leaks and none is deleted twice.
\<close>

theorem mempool_destructor_total:
  assumes "cfg_ok c" "pool_reach c p L"
  shows "\<exists>bs. pool_destructor p = Some bs \<and> distinct bs \<and> chain (store p) (currentBlock p) bs"
proof -
  obtain bs fs where inv: "pool_inv c p bs fs L"
    using pool_reach_live [OF assms(2,1)] unfolding pool_live_def by blast
  then show ?thesis using pool_inv_destructor by (auto simp: pool_inv_def)
qed

theorem mempool_destructor_total_witness:
  "cfg_ok demo_cfg \<and> (\<exists>p bs. pool_reach demo_cfg p {4112, 4184} \<and> pool_destructor p = Some bs)"
proof -
  obtain p where p: "pool_reach demo_cfg p {4112, 4184}" using demo_run by blast
  with mempool_destructor_total [OF demo_cfg_ok p] demo_cfg_ok show ?thesis by blast
qed

text \<open>
  The \<^verbatim>\<open>static_assert\<close> of the source is too weak: a block of two 8-byte slots passes it, and the
  first slot the pool hands out from a fresh block then ends beyond the block.
\<close>

theorem mempool_static_assert_insufficient:
  "\<exists>c nb. static_assert_ok c \<and> slot_align c dvd slot_size c \<and>
     block_fresh c nb (pool_new (\<lambda>_. 0)) \<and>
     nb + block_size c < fst (allocate c nb (pool_new (\<lambda>_. 0))) + slot_size c"
  by (rule exI [of _ "\<lparr>block_size = 16, slot_size = 8, slot_align = 8\<rparr>"], rule exI [of _ 8])
    (simp add: static_assert_ok_def block_fresh_def pool_new_def allocate_def new_block_def
      first_slot_def Let_def)

end
