(* ===== verification/LRU_Cache.thy ===== *)
theory LRU_Cache
  imports Memory_Pool
begin

text \<open>
  The credential cache of the server, \<^verbatim>\<open>LRUCache<T, U, Alloc>\<close> of \<^verbatim>\<open>src/my_stl/my_stl.hpp\<close>: a
  doubly linked \<^verbatim>\<open>std::list\<close> of node pointers in order of use and an \<^verbatim>\<open>unordered_map\<close> from keys to
  list iterators. An iterator is the identity of a list cell, which \<^verbatim>\<open>splice\<close> keeps, so a list is a
  sequence of pairs (cell, node pointer). Nodes live in memory handed out by the allocator, whose
  operations are parameters; the lemmas hold for every allocator that satisfies the interface of
  \<open>Memory_Pool\<close>, and are used with the memory pool itself.
\<close>

section \<open>State and operations\<close>

record ('k, 'v) lru_node =
  node_key :: 'k
  node_value :: 'v

record ('k, 'v, 'a) lru_cache =
  lru_capacity :: int
  lru_map :: "'k \<rightharpoonup> nat"
  my_list :: "(nat \<times> nat) list"
  node_at :: "nat \<rightharpoonup> ('k, 'v) lru_node"
  next_cell :: nat
  alloc_state :: 'a

definition lru_new :: "int \<Rightarrow> 'a \<Rightarrow> ('k, 'v, 'a) lru_cache" where
  "lru_new cap a = \<lparr>lru_capacity = cap, lru_map = Map.empty, my_list = [], node_at = Map.empty,
     next_cell = 0, alloc_state = a\<rparr>"

text \<open>\<^verbatim>\<open>my_list.splice(my_list.begin(), my_list, it)\<close>: an iterator of another list is undefined.\<close>

definition splice_front :: "nat \<Rightarrow> (nat \<times> nat) list \<Rightarrow> (nat \<times> nat) list result" where
  "splice_front it xs =
     (case map_of xs it of None \<Rightarrow> Inl Undefined_Behaviour
      | Some p \<Rightarrow> Inr ((it, p) # filter (\<lambda>c. fst c \<noteq> it) xs))"

text \<open>
  \<^verbatim>\<open>my_list.size() >= capacity\<close> compares a \<^verbatim>\<open>size_t\<close> with an \<^verbatim>\<open>int\<close>: the capacity is converted to
  64-bit unsigned, so a negative one is never reached.
\<close>

definition lru_full :: "('k, 'v, 'a) lru_cache \<Rightarrow> bool" where
  "lru_full s \<longleftrightarrow> lru_capacity s \<noteq> -1 \<and> nat (lru_capacity s mod 2 ^ 64) \<le> length (my_list s)"

definition lru_evict :: "(nat \<Rightarrow> 'a \<Rightarrow> 'a) \<Rightarrow> ('k, 'v, 'a) lru_cache \<Rightarrow> ('k, 'v, 'a) lru_cache result" where
  "lru_evict de s =
     (if my_list s = [] then Inl Undefined_Behaviour
      else let temp = snd (last (my_list s)) in
        case node_at s temp of None \<Rightarrow> Inl Undefined_Behaviour
        | Some n \<Rightarrow> Inr (s\<lparr>
            lru_map := (lru_map s)(node_key n := None),
            node_at := (node_at s)(temp := None),
            alloc_state := de temp (alloc_state s),
            my_list := butlast (my_list s)\<rparr>))"

definition lru_insert ::
  "(nat \<Rightarrow> 'a \<Rightarrow> nat \<times> 'a) \<Rightarrow> (nat \<Rightarrow> nat \<Rightarrow> 'a \<Rightarrow> 'a) \<Rightarrow> nat \<Rightarrow> nat \<Rightarrow> 'k \<Rightarrow> 'v \<Rightarrow>
   ('k, 'v, 'a) lru_cache \<Rightarrow> ('k, 'v, 'a) lru_cache" where
  "lru_insert al co nb w key val s =
     (let (newnode, a) = al nb (alloc_state s) in
      s\<lparr>alloc_state := co newnode w a,
        node_at := (node_at s)(newnode \<mapsto> \<lparr>node_key = key, node_value = val\<rparr>),
        my_list := (next_cell s, newnode) # my_list s,
        lru_map := (lru_map s)(key \<mapsto> next_cell s),
        next_cell := Suc (next_cell s)\<rparr>)"

definition lru_touch :: "nat \<Rightarrow> ('k, 'v, 'a) lru_cache \<Rightarrow> (nat \<times> ('k, 'v) lru_node \<times> ('k, 'v, 'a) lru_cache) result" where
  "lru_touch it s =
     result_bind (splice_front it (my_list s)) (\<lambda>xs.
       let p = snd (hd xs) in
       case node_at s p of None \<Rightarrow> Inl Undefined_Behaviour
       | Some n \<Rightarrow> Inr (p, n, s\<lparr>my_list := xs\<rparr>))"

definition lru_push ::
  "(nat \<Rightarrow> 'a \<Rightarrow> nat \<times> 'a) \<Rightarrow> (nat \<Rightarrow> 'a \<Rightarrow> 'a) \<Rightarrow> (nat \<Rightarrow> nat \<Rightarrow> 'a \<Rightarrow> 'a) \<Rightarrow> nat \<Rightarrow> nat \<Rightarrow>
   'k \<Rightarrow> 'v \<Rightarrow> ('k, 'v, 'a) lru_cache \<Rightarrow> ('k, 'v, 'a) lru_cache result" where
  "lru_push al de co nb w key val s =
     (case lru_map s key of
        Some it \<Rightarrow> result_bind (lru_touch it s) (\<lambda>(p, n, s').
          Inr (s'\<lparr>node_at := (node_at s')(p \<mapsto> n\<lparr>node_value := val\<rparr>)\<rparr>))
      | None \<Rightarrow> result_bind (if lru_full s then lru_evict de s else Inr s) (\<lambda>s'.
          Inr (lru_insert al co nb w key val s')))"

text \<open>\<open>dflt\<close> is the value-initialised \<^verbatim>\<open>U{}\<close> of the miss.\<close>

definition lru_get :: "'v \<Rightarrow> 'k \<Rightarrow> ('k, 'v, 'a) lru_cache \<Rightarrow> ((bool \<times> 'v) \<times> ('k, 'v, 'a) lru_cache) result" where
  "lru_get dflt key s =
     (case lru_map s key of
        None \<Rightarrow> Inr ((False, dflt), s)
      | Some it \<Rightarrow> result_bind (lru_touch it s) (\<lambda>(p, n, s'). Inr ((True, node_value n), s')))"

text \<open>\<^verbatim>\<open>clear\<close> prints each entry before it frees it; the printed entries are the extra result.\<close>

fun lru_clear_loop ::
  "(nat \<Rightarrow> 'a \<Rightarrow> 'a) \<Rightarrow> (nat \<times> nat) list \<Rightarrow> (nat \<rightharpoonup> ('k, 'v) lru_node) \<Rightarrow> 'a \<Rightarrow> ('k \<times> 'v) list \<Rightarrow>
   (('k \<times> 'v) list \<times> 'a) result" where
  "lru_clear_loop de [] ns a out = Inr (out, a)"
| "lru_clear_loop de ((i, temp) # xs) ns a out =
     (case ns temp of None \<Rightarrow> Inl Undefined_Behaviour
      | Some n \<Rightarrow> lru_clear_loop de xs (ns(temp := None)) (de temp a)
          (out @ [(node_key n, node_value n)]))"

definition lru_clear :: "(nat \<Rightarrow> 'a \<Rightarrow> 'a) \<Rightarrow> ('k, 'v, 'a) lru_cache \<Rightarrow> (('k \<times> 'v) list \<times> ('k, 'v, 'a) lru_cache) result" where
  "lru_clear de s =
     result_bind (lru_clear_loop de (my_list s) (node_at s) (alloc_state s) []) (\<lambda>(out, a).
       Inr (out, s\<lparr>lru_map := Map.empty, my_list := [], node_at := Map.empty, alloc_state := a\<rparr>))"

lemmas lru_op_defs = lru_push_def lru_get_def lru_touch_def lru_insert_def lru_evict_def splice_front_def

section \<open>The abstract cache: an association list, most recently used first\<close>

definition spec_push :: "int \<Rightarrow> 'k \<Rightarrow> 'v \<Rightarrow> ('k \<times> 'v) list \<Rightarrow> ('k \<times> 'v) list" where
  "spec_push cap k v xs =
     (if k \<in> fst ` set xs then (k, v) # filter (\<lambda>e. fst e \<noteq> k) xs
      else (k, v) # (if 0 \<le> cap \<and> nat cap \<le> length xs then butlast xs else xs))"

definition spec_get :: "'v \<Rightarrow> 'k \<Rightarrow> ('k \<times> 'v) list \<Rightarrow> (bool \<times> 'v) \<times> ('k \<times> 'v) list" where
  "spec_get dflt k xs =
     (case map_of xs k of None \<Rightarrow> ((False, dflt), xs)
      | Some v \<Rightarrow> ((True, v), (k, v) # filter (\<lambda>e. fst e \<noteq> k) xs))"

definition cell_entry :: "(nat \<rightharpoonup> ('k, 'v) lru_node) \<Rightarrow> nat \<times> nat \<Rightarrow> 'k \<times> 'v" where
  "cell_entry ns c = (node_key (the (ns (snd c))), node_value (the (ns (snd c))))"

definition lru_abs :: "('k, 'v, 'a) lru_cache \<Rightarrow> ('k \<times> 'v) list" where
  "lru_abs s = map (cell_entry (node_at s)) (my_list s)"

definition lru_inv :: "('a \<Rightarrow> nat set \<Rightarrow> bool) \<Rightarrow> ('k, 'v, 'a) lru_cache \<Rightarrow> bool" where
  "lru_inv live s \<longleftrightarrow>
     distinct (map fst (my_list s)) \<and> distinct (map snd (my_list s)) \<and>
     (\<forall>c \<in> set (my_list s). fst c < next_cell s) \<and>
     dom (node_at s) = snd ` set (my_list s) \<and>
     (\<forall>k it. lru_map s k = Some it \<longleftrightarrow>
        (\<exists>c \<in> set (my_list s). fst c = it \<and> fst (cell_entry (node_at s) c) = k)) \<and>
     live (alloc_state s) (snd ` set (my_list s)) \<and>
     - (2 ^ 31) \<le> lru_capacity s \<and> lru_capacity s < 2 ^ 31"

section \<open>Refinement of the abstract cache\<close>

lemma lru_full_iff:
  assumes "- (2 ^ 31) \<le> lru_capacity s" "lru_capacity s < 2 ^ 31" "length (my_list s) < 2 ^ 63"
  shows "lru_full s \<longleftrightarrow> 0 \<le> lru_capacity s \<and> nat (lru_capacity s) \<le> length (my_list s)"
proof (cases "0 \<le> lru_capacity s")
  case True
  with assms have "lru_capacity s mod 2 ^ 64 = lru_capacity s" by (intro mod_pos_pos_trivial) auto
  with True show ?thesis by (auto simp: lru_full_def)
next
  case False
  with assms have "(lru_capacity s + 2 ^ 64) mod 2 ^ 64 = lru_capacity s + 2 ^ 64"
    by (intro mod_pos_pos_trivial) auto
  then have "lru_capacity s mod 2 ^ 64 = lru_capacity s + 2 ^ 64" by simp
  with False assms show ?thesis by (simp add: lru_full_def nat_le_iff)
qed

lemma lru_abs_length [simp]: "length (lru_abs s) = length (my_list s)"
  by (simp add: lru_abs_def)

lemma cell_entry_other:
  "snd c \<noteq> p \<Longrightarrow> cell_entry (ns(p := x)) c = cell_entry ns c"
  by (simp add: cell_entry_def)

lemma lru_inv_map_iff:
  "lru_inv live s \<Longrightarrow> lru_map s k = Some it \<longleftrightarrow>
     (\<exists>c \<in> set (my_list s). fst c = it \<and> fst (cell_entry (node_at s) c) = k)"
  by (simp add: lru_inv_def)

lemma lru_inv_key_in_map:
  "lru_inv live s \<Longrightarrow> lru_map s k \<noteq> None \<longleftrightarrow> k \<in> fst ` set (lru_abs s)"
  by (force simp: lru_inv_map_iff lru_abs_def image_iff)

lemma lru_inv_cell_key:
  assumes inv: "lru_inv live s" and it: "lru_map s k = Some it" and c: "c \<in> set (my_list s)"
  shows "fst c = it \<longleftrightarrow> fst (cell_entry (node_at s) c) = k"
proof
  assume "fst c = it"
  from inv it obtain d where d: "d \<in> set (my_list s)" "fst d = it"
    "fst (cell_entry (node_at s) d) = k" by (auto simp: lru_inv_map_iff)
  have "c = d"
    using inv c d \<open>fst c = it\<close> by (intro inj_onD [of fst "set (my_list s)"])
      (auto simp: lru_inv_def distinct_map)
  with d show "fst (cell_entry (node_at s) c) = k" by simp
next
  assume "fst (cell_entry (node_at s) c) = k"
  with inv c have "lru_map s k = Some (fst c)" by (auto simp: lru_inv_map_iff)
  with it show "fst c = it" by simp
qed

lemma lru_inv_abs_distinct:
  assumes "lru_inv live s"
  shows "distinct (map fst (lru_abs s))"
proof -
  have "inj_on (\<lambda>c. fst (cell_entry (node_at s) c)) (set (my_list s))"
  proof (rule inj_onI)
    fix c d assume cd: "c \<in> set (my_list s)" "d \<in> set (my_list s)"
      "fst (cell_entry (node_at s) c) = fst (cell_entry (node_at s) d)"
    then have "lru_map s (fst (cell_entry (node_at s) d)) = Some (fst c)"
      using assms by (auto simp: lru_inv_map_iff)
    from lru_inv_cell_key [OF assms this cd(2)] have "fst c = fst d" by simp
    with cd assms show "c = d"
      by (intro inj_onD [of fst "set (my_list s)"]) (auto simp: lru_inv_def distinct_map)
  qed
  then show ?thesis
    using assms by (auto simp: lru_abs_def comp_def lru_inv_def distinct_map)
qed

text \<open>Splicing a cached key's cell to the front: the state it leaves and its abstraction.\<close>

lemma lru_touch_step:
  assumes inv: "lru_inv live s" and it: "lru_map s k = Some it"
  obtains p n xs where
    "lru_touch it s = Inr (p, n, s\<lparr>my_list := (it, p) # xs\<rparr>)"
    "xs = filter (\<lambda>c. fst c \<noteq> it) (my_list s)"
    "node_at s p = Some n" "node_key n = k" "(it, p) \<in> set (my_list s)" "p \<notin> snd ` set xs"
    "map (cell_entry (node_at s)) xs = filter (\<lambda>e. fst e \<noteq> k) (lru_abs s)"
    "map_of (lru_abs s) k = Some (node_value n)"
proof -
  from inv it obtain p where mem: "(it, p) \<in> set (my_list s)"
    and key: "fst (cell_entry (node_at s) (it, p)) = k"
    by (force simp: lru_inv_map_iff)
  from inv mem obtain n where n: "node_at s p = Some n"
    by (metis (no_types, lifting) domD image_eqI lru_inv_def snd_conv)
  with key have nk: "node_key n = k" by (simp add: cell_entry_def)
  let ?xs = "filter (\<lambda>c. fst c \<noteq> it) (my_list s)"
  have "map_of (my_list s) it = Some p"
    using inv mem by (simp add: lru_inv_def)
  then have touch: "lru_touch it s = Inr (p, n, s\<lparr>my_list := (it, p) # ?xs\<rparr>)"
    by (simp add: lru_touch_def splice_front_def n Let_def)
  have out: "p \<notin> snd ` set ?xs"
  proof
    assume "p \<in> snd ` set ?xs"
    then obtain j where j: "(j, p) \<in> set (my_list s)" "j \<noteq> it" by auto
    have "(j, p) = (it, p)"
      using inv mem j(1) by (intro inj_onD [of snd "set (my_list s)"])
        (auto simp: lru_inv_def distinct_map)
    with j(2) show False by simp
  qed
  have ab: "map (cell_entry (node_at s)) ?xs = filter (\<lambda>e. fst e \<noteq> k) (lru_abs s)"
    unfolding lru_abs_def filter_map comp_def
    by (rule arg_cong [where f = "map (cell_entry (node_at s))"], rule filter_cong [OF refl])
      (simp only: lru_inv_cell_key [OF inv it])
  have "(k, node_value n) \<in> set (lru_abs s)"
    using mem n nk by (force simp: lru_abs_def cell_entry_def)
  then have "map_of (lru_abs s) k = Some (node_value n)"
    using lru_inv_abs_distinct [OF inv] by simp
  with touch n nk mem out ab show ?thesis using that by blast
qed

lemma lru_inv_reorder:
  assumes inv: "lru_inv live s" and mem: "(it, p) \<in> set (my_list s)"
    and xs: "xs = filter (\<lambda>c. fst c \<noteq> it) (my_list s)"
  shows "lru_inv live (s\<lparr>my_list := (it, p) # xs\<rparr>)"
proof -
  have other: "c = (it, p)" if "c \<in> set (my_list s)" "fst c = it" for c
    using inv mem that by (intro inj_onD [of fst "set (my_list s)"])
      (auto simp: lru_inv_def distinct_map)
  have set_eq: "set ((it, p) # xs) = set (my_list s)"
  proof (intro equalityI subsetI)
    fix c assume "c \<in> set (my_list s)"
    then show "c \<in> set ((it, p) # xs)" using other [of c] by (cases "fst c = it") (simp_all add: xs)
  qed (use mem xs in auto)
  have "distinct (map fst ((it, p) # xs))"
    using inv by (auto simp: xs lru_inv_def distinct_map_filter)
  moreover have "inj_on snd (set ((it, p) # xs))"
    unfolding set_eq using inv by (simp add: lru_inv_def distinct_map)
  moreover have "distinct ((it, p) # xs)"
    using inv by (auto simp: xs lru_inv_def distinct_map)
  ultimately show ?thesis
    using inv set_eq unfolding lru_inv_def distinct_map [of snd] by simp
qed

lemma lru_inv_set_value:
  assumes inv: "lru_inv live s" and n: "node_at s p = Some n"
  shows "lru_inv live (s\<lparr>node_at := (node_at s)(p \<mapsto> n\<lparr>node_value := v\<rparr>)\<rparr>)"
proof -
  have "fst (cell_entry ((node_at s)(p \<mapsto> n\<lparr>node_value := v\<rparr>)) c) = fst (cell_entry (node_at s) c)" for c
    by (simp add: cell_entry_def n)
  moreover have "dom ((node_at s)(p \<mapsto> n\<lparr>node_value := v\<rparr>)) = dom (node_at s)"
    using n by auto
  ultimately show ?thesis using inv by (simp add: lru_inv_def)
qed

lemma lru_get_refines:
  assumes inv: "lru_inv live s"
  obtains r s' where "lru_get dflt k s = Inr (r, s')" "lru_inv live s'"
    "(r, lru_abs s') = spec_get dflt k (lru_abs s)" "lru_capacity s' = lru_capacity s"
proof (cases "lru_map s k")
  case None
  then have "k \<notin> fst ` set (lru_abs s)" using lru_inv_key_in_map [OF inv, of k] by simp
  then have "map_of (lru_abs s) k = None" by (simp add: map_of_eq_None_iff)
  with None inv that show ?thesis by (simp add: lru_get_def spec_get_def)
next
  case (Some it)
  from lru_touch_step [OF inv this] obtain p n xs where step:
    "lru_touch it s = Inr (p, n, s\<lparr>my_list := (it, p) # xs\<rparr>)"
    "xs = filter (\<lambda>c. fst c \<noteq> it) (my_list s)"
    "node_at s p = Some n" "node_key n = k" "(it, p) \<in> set (my_list s)" "p \<notin> snd ` set xs"
    "map (cell_entry (node_at s)) xs = filter (\<lambda>e. fst e \<noteq> k) (lru_abs s)"
    "map_of (lru_abs s) k = Some (node_value n)" .
  let ?s' = "s\<lparr>my_list := (it, p) # xs\<rparr>"
  have "lru_abs ?s' = (k, node_value n) # filter (\<lambda>e. fst e \<noteq> k) (lru_abs s)"
    using step by (simp add: lru_abs_def cell_entry_def)
  moreover have "lru_inv live ?s'" using lru_inv_reorder [OF inv] step by blast
  ultimately show ?thesis using that step Some by (simp add: lru_get_def spec_get_def)
qed

lemma lru_push_hit:
  assumes inv: "lru_inv live s" and it: "lru_map s k = Some it"
  obtains s' where "lru_push al de co nb w k v s = Inr s'" "lru_inv live s'"
    "lru_abs s' = (k, v) # filter (\<lambda>e. fst e \<noteq> k) (lru_abs s)"
    "lru_capacity s' = lru_capacity s"
proof -
  from lru_touch_step [OF inv it] obtain p n xs where step:
    "lru_touch it s = Inr (p, n, s\<lparr>my_list := (it, p) # xs\<rparr>)"
    "xs = filter (\<lambda>c. fst c \<noteq> it) (my_list s)"
    "node_at s p = Some n" "node_key n = k" "(it, p) \<in> set (my_list s)" "p \<notin> snd ` set xs"
    "map (cell_entry (node_at s)) xs = filter (\<lambda>e. fst e \<noteq> k) (lru_abs s)"
    "map_of (lru_abs s) k = Some (node_value n)" .
  let ?s1 = "s\<lparr>my_list := (it, p) # xs\<rparr>"
  let ?s' = "?s1\<lparr>node_at := (node_at ?s1)(p \<mapsto> n\<lparr>node_value := v\<rparr>)\<rparr>"
  have "lru_inv live ?s1" using lru_inv_reorder [OF inv] step by blast
  then have "lru_inv live ?s'" by (rule lru_inv_set_value) (simp add: step(3))
  moreover have "map (cell_entry (node_at ?s')) xs = filter (\<lambda>e. fst e \<noteq> k) (lru_abs s)"
    unfolding step(7) [symmetric] using step(6)
    by (intro map_cong refl) (auto simp: cell_entry_def)
  then have "lru_abs ?s' = (k, v) # filter (\<lambda>e. fst e \<noteq> k) (lru_abs s)"
    unfolding lru_abs_def [of ?s'] using step(4) by (simp add: cell_entry_def)
  ultimately show ?thesis using that step(1) it by (simp add: lru_push_def)
qed

section \<open>Evicting and inserting, over any allocator\<close>

context allocator
begin

lemma lru_evict_step:
  assumes inv: "lru_inv live s" and ne: "my_list s \<noteq> []"
  obtains s' where "lru_evict dealloc s = Inr s'" "lru_inv live s'"
    "lru_abs s' = butlast (lru_abs s)" "lru_capacity s' = lru_capacity s"
    "lru_map s' = (lru_map s)(fst (last (lru_abs s)) := None)"
    "length (my_list s') < length (my_list s)"
proof -
  obtain ys i p where ml: "my_list s = ys @ [(i, p)]"
    using ne by (metis append_butlast_last_id surj_pair)
  with inv obtain n where n: "node_at s p = Some n"
    by (auto simp: lru_inv_def) (metis domD insertI1)
  let ?s' = "s\<lparr>lru_map := (lru_map s)(node_key n := None), node_at := (node_at s)(p := None),
    alloc_state := dealloc p (alloc_state s), my_list := ys\<rparr>"
  have ev: "lru_evict dealloc s = Inr ?s'" by (simp add: lru_evict_def ml n Let_def)
  from inv ml have p: "p \<notin> snd ` set ys" and i: "i \<notin> fst ` set ys" by (auto simp: lru_inv_def)
  then have cells: "cell_entry ((node_at s)(p := None)) c = cell_entry (node_at s) c" if "c \<in> set ys" for c
    using that by (intro cell_entry_other) auto
  then have abs': "lru_abs ?s' = butlast (lru_abs s)"
    by (simp add: lru_abs_def ml cong: map_cong)
  have key: "node_key n = fst (last (lru_abs s))"
    by (simp add: lru_abs_def ml cell_entry_def n)
  have mapi: "lru_map s (node_key n) = Some i"
    using lru_inv_map_iff [OF inv] ml n by (auto simp: cell_entry_def)
  have "(lru_map ?s' k = Some it) = (\<exists>c \<in> set ys. fst c = it \<and> fst (cell_entry (node_at ?s') c) = k)"
    for k it
  proof (cases "k = node_key n")
    case True
    have "fst (cell_entry (node_at s) c) \<noteq> k" if "c \<in> set ys" for c
      using lru_inv_cell_key [OF inv mapi, of c] that i ml True by force
    with True cells show ?thesis by auto
  next
    case False
    then show ?thesis using lru_inv_map_iff [OF inv, of k it] cells
      by (auto simp: ml cell_entry_def n)
  qed
  moreover have "live (dealloc p (alloc_state s)) (snd ` set ys)"
  proof -
    have "live (alloc_state s) (insert p (snd ` set ys))" using inv by (simp add: lru_inv_def ml)
    then have "live (dealloc p (alloc_state s)) (insert p (snd ` set ys) - {p})"
      by (rule dealloc_live) simp
    with p show ?thesis by simp
  qed
  moreover have "dom ((node_at s)(p := None)) = snd ` set ys"
    using inv p by (auto simp: lru_inv_def ml)
  ultimately have "lru_inv live ?s'" using inv by (simp add: lru_inv_def ml)
  with ev abs' key that ml show ?thesis by simp
qed

lemma lru_insert_step:
  assumes inv: "lru_inv live s" and new: "lru_map s k = None" and fr: "fresh nb (alloc_state s)"
  shows "lru_inv live (lru_insert alloc constr nb w k v s)"
    and "lru_abs (lru_insert alloc constr nb w k v s) = (k, v) # lru_abs s"
    and "lru_capacity (lru_insert alloc constr nb w k v s) = lru_capacity s"
proof -
  obtain q a where al: "alloc nb (alloc_state s) = (q, a)" by fastforce
  have live: "live (alloc_state s) (snd ` set (my_list s))" using inv by (simp add: lru_inv_def)
  note a = alloc_constr(1) [OF live fr al, of w] alloc_constr(2,3) [OF live fr al]
  let ?s' = "lru_insert alloc constr nb w k v s"
  have s': "?s' = s\<lparr>alloc_state := constr q w a,
        node_at := (node_at s)(q \<mapsto> \<lparr>node_key = k, node_value = v\<rparr>),
        my_list := (next_cell s, q) # my_list s,
        lru_map := (lru_map s)(k \<mapsto> next_cell s),
        next_cell := Suc (next_cell s)\<rparr>" by (simp add: lru_insert_def al)
  have cells: "cell_entry (node_at ?s') c = cell_entry (node_at s) c" if "c \<in> set (my_list s)" for c
    using that a(2) by (auto simp: s' cell_entry_def)
  then have ml: "map (cell_entry (node_at ?s')) (my_list s) = lru_abs s"
    by (simp add: lru_abs_def)
  have newkey: "fst (cell_entry (node_at s) c) \<noteq> k" if "c \<in> set (my_list s)" for c
    using lru_inv_map_iff [OF inv, of k] new that by auto
  have nx: "fst c \<noteq> next_cell s" if "c \<in> set (my_list s)" for c
    using inv that by (auto simp: lru_inv_def)
  show "lru_abs ?s' = (k, v) # lru_abs s"
    using ml by (simp add: lru_abs_def s') (simp add: cell_entry_def)
  show "lru_capacity ?s' = lru_capacity s" by (simp add: s')
  have "(lru_map ?s' j = Some it) =
      (\<exists>c \<in> set (my_list ?s'). fst c = it \<and> fst (cell_entry (node_at ?s') c) = j)" for j it
  proof -
    have "(\<exists>c \<in> set (my_list ?s'). fst c = it \<and> fst (cell_entry (node_at ?s') c) = j)
      \<longleftrightarrow> (next_cell s = it \<and> k = j) \<or> (\<exists>c \<in> set (my_list s). fst c = it \<and> fst (cell_entry (node_at s) c) = j)"
      using cells by (auto simp: s') (auto simp: cell_entry_def)
    then show ?thesis using lru_inv_map_iff [OF inv, of j it] newkey
      by (auto simp: s')
  qed
  moreover have "snd ` set (my_list ?s') = insert q (snd ` set (my_list s))" by (simp add: s')
  ultimately show "lru_inv live ?s'"
    using inv a nx by (auto simp: lru_inv_def s' less_Suc_eq)
qed

lemma lru_evict_live_fresh:
  assumes inv: "lru_inv live s" and ev: "lru_evict dealloc s = Inr s'" and fr: "fresh nb (alloc_state s)"
  shows "fresh nb (alloc_state s')"
proof -
  let ?p = "snd (last (my_list s))"
  have ne: "my_list s \<noteq> []" and a': "alloc_state s' = dealloc ?p (alloc_state s)"
    using ev by (auto simp: lru_evict_def Let_def split: if_splits option.splits)
  then have "?p \<in> snd ` set (my_list s)" by simp
  with inv fr show ?thesis unfolding a'
    by (intro dealloc_fresh [of _ "snd ` set (my_list s)"]) (auto simp: lru_inv_def)
qed

lemma lru_push_miss:
  assumes inv: "lru_inv live s" and fr: "fresh nb (alloc_state s)" and new: "lru_map s k = None"
    and len: "length (my_list s) < 2 ^ 63" and cap: "lru_capacity s \<noteq> 0 \<or> my_list s \<noteq> []"
  obtains s' where "lru_push alloc dealloc constr nb w k v s = Inr s'" "lru_inv live s'"
    "lru_abs s' = (k, v) # (if 0 \<le> lru_capacity s \<and> nat (lru_capacity s) \<le> length (my_list s)
                            then butlast (lru_abs s) else lru_abs s)"
    "lru_capacity s' = lru_capacity s"
proof (cases "lru_full s")
  case True
  with inv len have full: "0 \<le> lru_capacity s \<and> nat (lru_capacity s) \<le> length (my_list s)"
    by (simp add: lru_full_iff lru_inv_def)
  with cap have "my_list s \<noteq> []" by auto
  from lru_evict_step [OF inv this] obtain t where t: "lru_evict dealloc s = Inr t"
    "lru_inv live t" "lru_abs t = butlast (lru_abs s)" "lru_capacity t = lru_capacity s"
    "lru_map t = (lru_map s)(fst (last (lru_abs s)) := None)" by metis
  have "lru_map t k = None" using t(5) new by simp
  from lru_insert_step [OF t(2) this lru_evict_live_fresh [OF inv t(1) fr], of w v] t full True new that
  show ?thesis by (simp add: lru_push_def)
next
  case False
  with inv len have "\<not> (0 \<le> lru_capacity s \<and> nat (lru_capacity s) \<le> length (my_list s))"
    by (simp add: lru_full_iff lru_inv_def)
  with lru_insert_step [OF inv new fr, of w v] False new that show ?thesis
    by (simp add: lru_push_def)
qed

lemma lru_push_refines:
  assumes inv: "lru_inv live s" and fr: "fresh nb (alloc_state s)"
    and len: "length (my_list s) < 2 ^ 63" and cap: "lru_capacity s \<noteq> 0 \<or> my_list s \<noteq> []"
  obtains s' where "lru_push alloc dealloc constr nb w k v s = Inr s'" "lru_inv live s'"
    "lru_abs s' = spec_push (lru_capacity s) k v (lru_abs s)" "lru_capacity s' = lru_capacity s"
proof (cases "lru_map s k")
  case None
  then have "k \<notin> fst ` set (lru_abs s)" using lru_inv_key_in_map [OF inv, of k] by simp
  then show ?thesis
    using lru_push_miss [OF inv fr None len cap, of w v] that by (auto simp: spec_push_def)
next
  case (Some it)
  then have "k \<in> fst ` set (lru_abs s)" using lru_inv_key_in_map [OF inv, of k] by simp
  then show ?thesis
    using lru_push_hit [OF inv Some, of alloc dealloc constr nb w v] that by (auto simp: spec_push_def)
qed

lemma lru_clear_loop_step:
  assumes "distinct (map snd xs)" "snd ` set xs \<subseteq> dom ns" "live a (snd ` set xs)"
  shows "\<exists>a'. lru_clear_loop dealloc xs ns a out = Inr (out @ map (cell_entry ns) xs, a') \<and> live a' {}"
  using assms
proof (induction xs arbitrary: ns a out)
  case Nil
  then show ?case by simp
next
  case (Cons c xs)
  obtain i p where c: "c = (i, p)" by fastforce
  from Cons.prems obtain n where n: "ns p = Some n" by (auto simp: c)
  have p: "p \<notin> snd ` set xs" using Cons.prems by (simp add: c)
  have "live (dealloc p a) (insert p (snd ` set xs) - {p})"
    using Cons.prems by (intro dealloc_live) (auto simp: c)
  with p have live': "live (dealloc p a) (snd ` set xs)" by simp
  have sub: "snd ` set xs \<subseteq> dom (ns(p := None))" using Cons.prems p by auto
  have "distinct (map snd xs)" using Cons.prems by simp
  from Cons.IH [OF this sub live', of "out @ [(node_key n, node_value n)]"]
  obtain a' where "lru_clear_loop dealloc xs (ns(p := None)) (dealloc p a) (out @ [(node_key n, node_value n)]) =
       Inr ((out @ [(node_key n, node_value n)]) @ map (cell_entry (ns(p := None))) xs, a')" "live a' {}"
    by blast
  moreover have "map (cell_entry (ns(p := None))) xs = map (cell_entry ns) xs"
    using p by (intro map_cong refl) (auto simp: cell_entry_def)
  ultimately show ?case by (simp add: c n cell_entry_def)
qed

lemma lru_clear_frees:
  assumes "lru_inv live s"
  shows "\<exists>s'. lru_clear dealloc s = Inr (lru_abs s, s') \<and> live (alloc_state s') {} \<and> my_list s' = []"
proof -
  have "\<exists>a'. lru_clear_loop dealloc (my_list s) (node_at s) (alloc_state s) [] =
      Inr ([] @ map (cell_entry (node_at s)) (my_list s), a') \<and> live a' {}"
    using assms by (intro lru_clear_loop_step) (auto simp: lru_inv_def)
  then show ?thesis by (auto simp: lru_clear_def lru_abs_def)
qed

end

section \<open>The abstract cache behaves as a bounded LRU map\<close>

lemma spec_push_get: "fst (spec_get d k (spec_push cap k v xs)) = (True, v)"
  by (simp add: spec_get_def spec_push_def)

lemma spec_push_bounded:
  assumes "distinct (map fst xs)" "length xs \<le> nat cap" "0 < cap"
  shows "length (spec_push cap k v xs) \<le> nat cap"
proof (cases "k \<in> fst ` set xs")
  case True
  with assms length_filter_neq_distinct [of xs k] show ?thesis by (simp add: spec_push_def)
next
  case False
  with assms show ?thesis by (auto simp: spec_push_def)
qed

lemma map_of_butlast:
  assumes "distinct (map fst xs)" "xs \<noteq> []" "j \<noteq> fst (last xs)"
  shows "map_of (butlast xs) j = map_of xs j"
proof -
  obtain ys y where "xs = ys @ [y]" using assms(2) by (metis append_butlast_last_id)
  with assms show ?thesis by (cases y) (auto simp: map_add_def split: option.splits)
qed

lemma spec_push_other:
  assumes "distinct (map fst xs)" "j \<noteq> k"
    and "k \<in> fst ` set xs \<or> \<not> (0 \<le> cap \<and> nat cap \<le> length xs) \<or> xs = [] \<or> j \<noteq> fst (last xs)"
  shows "map_of (spec_push cap k v xs) j = map_of xs j"
proof (cases "k \<in> fst ` set xs \<or> \<not> (0 \<le> cap \<and> nat cap \<le> length xs)")
  case True
  with assms(2) show ?thesis by (auto simp: spec_push_def map_of_filter_other)
next
  case False
  with assms have "map_of (butlast xs) j = map_of xs j"
    by (cases "xs = []") (auto intro: map_of_butlast)
  with False assms(2) show ?thesis by (simp add: spec_push_def)
qed

lemma spec_get_length:
  assumes "distinct (map fst xs)"
  shows "length (snd (spec_get d k xs)) = length xs"
proof (cases "map_of xs k")
  case None
  then show ?thesis by (simp add: spec_get_def)
next
  case (Some v)
  then have "k \<in> fst ` set xs" by (force dest: map_of_SomeD)
  with Some length_filter_neq_distinct [OF assms] show ?thesis by (simp add: spec_get_def)
qed

section \<open>The server's cache: LRU over the memory pool\<close>

text \<open>
  \<^verbatim>\<open>LRUCache<std::string, std::string, MemoryPool<std::string>> users\<close>: \<open>users_push\<close> and
  \<open>users_get\<close> are the two calls the HTTP layer makes, at the layout \<open>c\<close> of the node type.
\<close>

definition users_push :: "pool_cfg \<Rightarrow> nat \<Rightarrow> nat \<Rightarrow> string \<Rightarrow> string \<Rightarrow>
    (string, string, mem_pool) lru_cache \<Rightarrow> (string, string, mem_pool) lru_cache result" where
  "users_push c = lru_push (allocate c) deallocate construct"

definition users_get :: "string \<Rightarrow> (string, string, mem_pool) lru_cache \<Rightarrow>
    ((bool \<times> string) \<times> (string, string, mem_pool) lru_cache) result" where
  "users_get = lru_get []"

definition users_inv :: "pool_cfg \<Rightarrow> (string, string, mem_pool) lru_cache \<Rightarrow> bool" where
  "users_inv c s \<longleftrightarrow> lru_inv (pool_live c) s \<and> length (my_list s) < 2 ^ 63"

lemma users_inv_new:
  assumes "cfg_ok c" "- (2 ^ 31) \<le> cap" "cap < 2 ^ 31"
  shows "users_inv c (lru_new cap (pool_new m))"
proof -
  have "pool_live c (pool_new m) {}" using pool_inv_new [OF assms(1)] by (auto simp: pool_live_def)
  with assms show ?thesis by (simp add: users_inv_def lru_inv_def lru_new_def)
qed

lemma users_fresh_new: "nb \<noteq> 0 \<Longrightarrow> block_fresh c nb (alloc_state (lru_new cap (pool_new m)))"
  by (simp add: block_fresh_def lru_new_def pool_new_def)

lemma users_pushE:
  assumes "users_inv c s" "block_fresh c nb (alloc_state s)" "lru_capacity s \<noteq> 0 \<or> my_list s \<noteq> []"
  obtains s' where "users_push c nb w k v s = Inr s'" "lru_inv (pool_live c) s'"
    "lru_abs s' = spec_push (lru_capacity s) k v (lru_abs s)" "lru_capacity s' = lru_capacity s"
  using mpool.lru_push_refines [of c s nb w k v] assms unfolding users_push_def users_inv_def by blast

lemma users_getE:
  assumes "lru_inv (pool_live c) s"
  obtains r s' where "users_get k s = Inr (r, s')" "lru_inv (pool_live c) s'"
    "(r, lru_abs s') = spec_get [] k (lru_abs s)" "lru_capacity s' = lru_capacity s"
  using lru_get_refines [OF assms, of "[]" k] unfolding users_get_def by blast

definition demo_cache :: "(string, string, mem_pool) lru_cache" where
  "demo_cache = lru_new 1 (pool_new (\<lambda>_. 0))"

lemma demo_cache_ok:
  "users_inv demo_cfg demo_cache" "block_fresh demo_cfg 4096 (alloc_state demo_cache)"
  "lru_capacity demo_cache = 1" "lru_abs demo_cache = []" "my_list demo_cache = []"
  unfolding demo_cache_def
  by (rule users_inv_new [OF demo_cfg_ok] users_fresh_new | simp add: lru_new_def lru_abs_def)+

text \<open>
  C8. \<^verbatim>\<open>push\<close> refines the abstract cache: on every state of the cache over the memory pool, and for
  every block the system may hand the pool, it succeeds, keeps the representation invariant
  (iterators, cells, nodes and pool slots agree) and acts on the list of entries as \<open>spec_push\<close>:
  move to the front and overwrite, or evict the last entry when full and prepend.
\<close>

theorem users_push_refines:
  assumes "users_inv c s" "block_fresh c nb (alloc_state s)"
    and "lru_capacity s \<noteq> 0 \<or> my_list s \<noteq> []"
  shows "\<exists>s'. users_push c nb w k v s = Inr s' \<and> lru_inv (pool_live c) s' \<and>
     lru_abs s' = spec_push (lru_capacity s) k v (lru_abs s) \<and> lru_capacity s' = lru_capacity s"
  using users_pushE [OF assms] by metis

theorem users_push_refines_witness:
  "\<exists>s'. users_push demo_cfg 4096 7 ''ann'' ''pw'' demo_cache = Inr s' \<and> lru_abs s' = [(''ann'', ''pw'')]"
proof -
  have "lru_capacity demo_cache \<noteq> 0 \<or> my_list demo_cache \<noteq> []" by (simp add: demo_cache_ok)
  from users_push_refines [OF demo_cache_ok(1,2) this, of 7 "''ann''" "''pw''"]
  show ?thesis by (auto simp: demo_cache_ok spec_push_def)
qed

text \<open>
  A \<^verbatim>\<open>push\<close> that returns is seen by the next \<^verbatim>\<open>get\<close>: the key is found with the pushed
  value, and every other key that was cached keeps its value unless the cache was full and it was
  the least recently used one.
\<close>

theorem users_push_then_get:
  assumes "users_inv c s" "block_fresh c nb (alloc_state s)"
    and "lru_capacity s \<noteq> 0 \<or> my_list s \<noteq> []"
    and "users_push c nb w k v s = Inr s'"
  shows "(\<exists>s''. users_get k s' = Inr ((True, v), s'')) \<and>
     (\<forall>j. j \<noteq> k \<longrightarrow>
        lru_map s k \<noteq> None \<or> \<not> lru_full s \<or> lru_abs s = [] \<or> j \<noteq> fst (last (lru_abs s)) \<longrightarrow>
        (\<exists>s''. users_get j s' = Inr (fst (spec_get [] j (lru_abs s)), s'')))"
proof -
  have inv': "lru_inv (pool_live c) s'" and ab: "lru_abs s' = spec_push (lru_capacity s) k v (lru_abs s)"
    by (rule users_pushE [OF assms(1-3), of w k v]; use assms(4) in simp)+
  have get: "\<exists>s''. users_get j s' = Inr (fst (spec_get [] j (lru_abs s')), s'')" for j
    by (rule users_getE [OF inv', of j]) (metis fst_conv)
  have "\<exists>s''. users_get j s' = Inr (fst (spec_get [] j (lru_abs s)), s'')"
    if "j \<noteq> k" "lru_map s k \<noteq> None \<or> \<not> lru_full s \<or> lru_abs s = [] \<or> j \<noteq> fst (last (lru_abs s))" for j
  proof -
    have full: "lru_full s \<longleftrightarrow> 0 \<le> lru_capacity s \<and> nat (lru_capacity s) \<le> length (lru_abs s)"
      using assms(1) by (simp add: users_inv_def lru_inv_def lru_full_iff)
    have inv: "lru_inv (pool_live c) s" using assms(1) by (simp add: users_inv_def)
    have hit: "lru_map s k \<noteq> None \<longleftrightarrow> k \<in> fst ` set (lru_abs s)"
      by (rule lru_inv_key_in_map [OF inv])
    have dist: "distinct (map fst (lru_abs s))" by (rule lru_inv_abs_distinct [OF inv])
    have "map_of (lru_abs s') j = map_of (lru_abs s) j"
      unfolding ab using that unfolding full hit by (intro spec_push_other [OF dist]) blast+
    then have "fst (spec_get [] j (lru_abs s')) = fst (spec_get [] j (lru_abs s))"
      by (simp add: spec_get_def split: option.splits)
    with get [of j] show ?thesis by simp
  qed
  with get [of k] show ?thesis by (simp add: ab spec_push_get)
qed

theorem users_push_then_get_witness:
  "\<exists>s' s''. users_push demo_cfg 4096 7 ''ann'' ''pw'' demo_cache = Inr s' \<and>
     users_get ''ann'' s' = Inr ((True, ''pw''), s'')"
proof -
  have cap: "lru_capacity demo_cache \<noteq> 0 \<or> my_list demo_cache \<noteq> []" by (simp add: demo_cache_ok)
  obtain s' where s': "users_push demo_cfg 4096 7 ''ann'' ''pw'' demo_cache = Inr s'"
    by (rule users_pushE [OF demo_cache_ok(1,2) cap])
  from users_push_then_get [OF demo_cache_ok(1,2) cap this] s' show ?thesis by blast
qed

text \<open>
  The bound of the cache: with a positive capacity, a cache within it is within it after every
  \<^verbatim>\<open>push\<close> and every \<^verbatim>\<open>get\<close>.
\<close>

theorem users_cache_bounded:
  assumes "users_inv c s" "block_fresh c nb (alloc_state s)"
    and "0 < lru_capacity s" "length (my_list s) \<le> nat (lru_capacity s)"
  shows "(\<forall>s'. users_push c nb w k v s = Inr s' \<longrightarrow> length (my_list s') \<le> nat (lru_capacity s')) \<and>
     (\<forall>r s'. users_get k s = Inr (r, s') \<longrightarrow> length (my_list s') \<le> nat (lru_capacity s'))"
proof -
  have inv: "lru_inv (pool_live c) s" and len: "length (my_list s) < 2 ^ 63"
    using assms(1) by (auto simp: users_inv_def)
  have dist: "distinct (map fst (lru_abs s))" by (rule lru_inv_abs_distinct [OF inv])
  obtain s1 where s1: "users_push c nb w k v s = Inr s1" "lru_capacity s1 = lru_capacity s"
    "lru_abs s1 = spec_push (lru_capacity s) k v (lru_abs s)"
    by (rule users_pushE [OF assms(1,2), of w k v]) (use assms(3) in auto)
  have "length (spec_push (lru_capacity s) k v (lru_abs s)) \<le> nat (lru_capacity s)"
    using assms(3,4) by (intro spec_push_bounded [OF dist]) auto
  then have "length (my_list s1) \<le> nat (lru_capacity s1)"
    unfolding s1(3) [symmetric] s1(2) by simp
  moreover obtain r s2 where s2: "users_get k s = Inr (r, s2)" "lru_capacity s2 = lru_capacity s"
    "(r, lru_abs s2) = spec_get [] k (lru_abs s)"
    by (rule users_getE [OF inv, of k])
  have "length (lru_abs s2) = length (lru_abs s)"
    using spec_get_length [OF dist, of "[]" k] by (simp add: s2(3) [symmetric])
  ultimately show ?thesis using s1 s2 assms(4) by simp
qed

theorem users_cache_bounded_witness:
  "\<exists>s'. users_push demo_cfg 4096 7 ''ann'' ''pw'' demo_cache = Inr s' \<and>
     length (my_list s') \<le> nat (lru_capacity s')"
proof -
  have cap: "lru_capacity demo_cache \<noteq> 0 \<or> my_list demo_cache \<noteq> []" by (simp add: demo_cache_ok)
  obtain s' where "users_push demo_cfg 4096 7 ''ann'' ''pw'' demo_cache = Inr s'"
    by (rule users_pushE [OF demo_cache_ok(1,2) cap])
  with users_cache_bounded [OF demo_cache_ok(1,2), of 7 "''ann''" "''pw''"]
  show ?thesis by (auto simp: demo_cache_ok)
qed

text \<open>
  A capacity of 0 is not a cache: the first \<^verbatim>\<open>push\<close> calls \<^verbatim>\<open>back()\<close> on the empty list, which is
  undefined behaviour, whatever the allocator does.
\<close>

theorem lru_push_capacity_zero_faults:
  "lru_push al de co nb w k v (lru_new 0 a) = Inl Undefined_Behaviour"
  by (simp add: lru_push_def lru_new_def lru_full_def lru_evict_def)

text \<open>
  \<^verbatim>\<open>clear\<close>, the destructor's body, returns: it prints every entry once, most recently used first,
  and gives every node back, so that the pool has no slot in use.
\<close>

theorem users_clear_frees_all:
  assumes "users_inv c s"
  shows "\<exists>s'. lru_clear deallocate s = Inr (lru_abs s, s') \<and> pool_live c (alloc_state s') {} \<and> my_list s' = []"
  using assms mpool.lru_clear_frees unfolding users_inv_def by blast

theorem users_clear_frees_all_witness:
  "\<exists>s'. lru_clear deallocate (lru_new 3 (pool_new (\<lambda>_. 0)) :: (string, string, mem_pool) lru_cache) =
     Inr ([], s')"
  using users_clear_frees_all [OF users_inv_new [OF demo_cfg_ok, of 3 "\<lambda>_. 0"]]
  by (auto simp: lru_new_def lru_abs_def)

end
