(* ===== verification/Timer_Manager.thy ===== *)
theory Timer_Manager
  imports Prelude
begin

text \<open>
  The timers of \<^verbatim>\<open>src/CoroutineLibrary/timer.h\<close> and \<^verbatim>\<open>timer.cpp\<close>. Timer objects live in a store
  (\<open>timer_obj\<close>, indexed by identity, as several \<^verbatim>\<open>shared_ptr\<close> may refer to one); the manager's
  \<^verbatim>\<open>std::set<shared_ptr<Timer>, Comparator>\<close> is the list of the identities in its order. The
  comparator looks at \<^verbatim>\<open>m_next\<close> only, so \<^verbatim>\<open>find\<close> and \<^verbatim>\<open>insert\<close> identify timers of equal deadline.
  Time points are integers in nanoseconds since the epoch (the resolution of \<^verbatim>\<open>system_clock\<close>);
  every reading of the clock is an argument. A \<^verbatim>\<open>std::function\<close> is an option, \<open>None\<close> when empty.
\<close>

section \<open>Timers, callbacks, the ordered set\<close>

text \<open>A callback is a plain one or \<^verbatim>\<open>std::bind(&OnTimer, weak_cond, cb)\<close>.\<close>

datatype 'c callback = Call 'c | On_Timer nat "'c callback"

text \<open>\<open>alive w\<close> says that the \<^verbatim>\<open>weak_ptr\<close> \<open>w\<close> can still be locked; the result is what is run.\<close>

fun run_callback :: "(nat \<Rightarrow> bool) \<Rightarrow> 'c callback \<Rightarrow> 'c list" where
  "run_callback alive (Call c) = [c]"
| "run_callback alive (On_Timer w cb) = (if alive w then run_callback alive cb else [])"

record 'c timer =
  m_recurring :: bool
  m_ms :: u64
  m_next :: int
  m_cb :: "'c callback option"

record 'c timer_manager =
  m_timers :: "nat list"
  timer_obj :: "nat \<Rightarrow> 'c timer"
  m_tickled :: bool
  m_previouseTime :: int
  next_timer :: nat

text \<open>\<^verbatim>\<open>std::chrono::milliseconds(m_ms)\<close> converts the count to a signed 64-bit one; in nanoseconds.\<close>

definition ms_span :: "u64 \<Rightarrow> int" where
  "ms_span ms = sint ms * 1000000"

definition timer_ctor :: "int \<Rightarrow> u64 \<Rightarrow> 'c callback option \<Rightarrow> bool \<Rightarrow> 'c timer" where
  "timer_ctor now ms cb recurring =
     \<lparr>m_recurring = recurring, m_ms = ms, m_next = now + ms_span ms, m_cb = cb\<rparr>"

definition manager_ctor :: "int \<Rightarrow> 'c timer_manager" where
  "manager_ctor now = \<lparr>m_timers = [], timer_obj = (\<lambda>_. timer_ctor 0 0 None False), m_tickled = False,
     m_previouseTime = now, next_timer = 0\<rparr>"

definition comparator :: "'c timer \<Rightarrow> 'c timer \<Rightarrow> bool" where
  "comparator lhs rhs \<longleftrightarrow> m_next lhs < m_next rhs"

abbreviation deadline :: "'c timer_manager \<Rightarrow> nat \<Rightarrow> int" where
  "deadline s t \<equiv> m_next (timer_obj s t)"

text \<open>
  \<^verbatim>\<open>std::set::find\<close> and \<^verbatim>\<open>insert\<close> under the comparator: an element is the one looked for when
  neither is less than the other; \<open>insert\<close> leaves the set alone when there is such an element.
\<close>

fun set_find :: "(nat \<Rightarrow> 'c timer) \<Rightarrow> nat \<Rightarrow> nat list \<Rightarrow> nat option" where
  "set_find obj t [] = None"
| "set_find obj t (x # xs) =
     (if \<not> comparator (obj x) (obj t) \<and> \<not> comparator (obj t) (obj x) then Some x else set_find obj t xs)"

fun set_insert :: "(nat \<Rightarrow> 'c timer) \<Rightarrow> nat \<Rightarrow> nat list \<Rightarrow> nat list" where
  "set_insert obj t [] = [t]"
| "set_insert obj t (x # xs) =
     (if comparator (obj t) (obj x) then t # x # xs
      else if comparator (obj x) (obj t) then x # set_insert obj t xs
      else x # xs)"

definition set_erase :: "nat \<Rightarrow> nat list \<Rightarrow> nat list" where
  "set_erase x xs = filter (\<lambda>y. y \<noteq> x) xs"

section \<open>The operations\<close>

text \<open>
  \<^verbatim>\<open>TimerManager::addTimer(shared_ptr)\<close>. The extra result is whether \<^verbatim>\<open>onTimerInsertedAtFront\<close> is
  called: the iterator \<^verbatim>\<open>insert\<close> returns (to the timer, or to the one of equal deadline that kept it
  out) is \<^verbatim>\<open>begin()\<close> and nobody was woken since the last \<^verbatim>\<open>getNextTimer\<close>.
\<close>

definition addTimer_obj :: "nat \<Rightarrow> 'c timer_manager \<Rightarrow> bool \<times> 'c timer_manager" where
  "addTimer_obj t s =
     (let xs = set_insert (timer_obj s) t (m_timers s);
          at_front = (set_find (timer_obj s) t xs = Some (hd xs) \<and> \<not> m_tickled s)
      in (at_front, s\<lparr>m_timers := xs, m_tickled := (if at_front then True else m_tickled s)\<rparr>))"

definition addTimer :: "int \<Rightarrow> u64 \<Rightarrow> 'c callback option \<Rightarrow> bool \<Rightarrow> 'c timer_manager \<Rightarrow>
    nat \<times> bool \<times> 'c timer_manager" where
  "addTimer now ms cb recurring s =
     (let t = next_timer s;
          s' = s\<lparr>timer_obj := (timer_obj s)(t := timer_ctor now ms cb recurring), next_timer := Suc t\<rparr>
      in (t, addTimer_obj t s'))"

definition addConditionTimer :: "int \<Rightarrow> u64 \<Rightarrow> 'c callback \<Rightarrow> nat \<Rightarrow> bool \<Rightarrow> 'c timer_manager \<Rightarrow>
    nat \<times> bool \<times> 'c timer_manager" where
  "addConditionTimer now ms cb weak_cond recurring s =
     addTimer now ms (Some (On_Timer weak_cond cb)) recurring s"

definition set_cb :: "nat \<Rightarrow> 'c callback option \<Rightarrow> 'c timer_manager \<Rightarrow> 'c timer_manager" where
  "set_cb t cb s = s\<lparr>timer_obj := (timer_obj s)(t := (timer_obj s t)\<lparr>m_cb := cb\<rparr>)\<rparr>"

definition set_next :: "nat \<Rightarrow> int \<Rightarrow> 'c timer_manager \<Rightarrow> 'c timer_manager" where
  "set_next t d s = s\<lparr>timer_obj := (timer_obj s)(t := (timer_obj s t)\<lparr>m_next := d\<rparr>)\<rparr>"

definition set_ms :: "nat \<Rightarrow> u64 \<Rightarrow> 'c timer_manager \<Rightarrow> 'c timer_manager" where
  "set_ms t ms s = s\<lparr>timer_obj := (timer_obj s)(t := (timer_obj s t)\<lparr>m_ms := ms\<rparr>)\<rparr>"

definition timer_cancel :: "nat \<Rightarrow> 'c timer_manager \<Rightarrow> bool \<times> 'c timer_manager" where
  "timer_cancel t s =
     (if m_cb (timer_obj s t) = None then (False, s)
      else let s' = set_cb t None s in
        case set_find (timer_obj s') t (m_timers s') of
          None \<Rightarrow> (True, s')
        | Some x \<Rightarrow> (True, s'\<lparr>m_timers := set_erase x (m_timers s')\<rparr>))"

definition timer_refresh :: "int \<Rightarrow> nat \<Rightarrow> 'c timer_manager \<Rightarrow> bool \<times> 'c timer_manager" where
  "timer_refresh now t s =
     (if m_cb (timer_obj s t) = None then (False, s)
      else case set_find (timer_obj s) t (m_timers s) of
          None \<Rightarrow> (False, s)
        | Some x \<Rightarrow>
            let s1 = s\<lparr>m_timers := set_erase x (m_timers s)\<rparr>;
                s2 = set_next t (now + ms_span (m_ms (timer_obj s t))) s1
            in (True, s2\<lparr>m_timers := set_insert (timer_obj s2) t (m_timers s2)\<rparr>))"

text \<open>
  \<^verbatim>\<open>reset\<close> has two critical sections: the erase, and \<^verbatim>\<open>addTimer\<close>'s own. The first result is the
  return value, the second whether \<^verbatim>\<open>onTimerInsertedAtFront\<close> is called.
\<close>

definition timer_reset :: "int \<Rightarrow> u64 \<Rightarrow> bool \<Rightarrow> nat \<Rightarrow> 'c timer_manager \<Rightarrow>
    bool \<times> bool \<times> 'c timer_manager" where
  "timer_reset now ms from_now t s =
     (let tm = timer_obj s t in
      if ms = m_ms tm \<and> \<not> from_now then (True, False, s)
      else if m_cb tm = None then (False, False, s)
      else case set_find (timer_obj s) t (m_timers s) of
          None \<Rightarrow> (False, False, s)
        | Some x \<Rightarrow>
            let s1 = s\<lparr>m_timers := set_erase x (m_timers s)\<rparr>;
                start = (if from_now then now else m_next tm - ms_span (m_ms tm));
                s2 = set_next t (start + ms_span ms) (set_ms t ms s1)
            in (True, addTimer_obj t s2))"

definition getNextTimer :: "int \<Rightarrow> 'c timer_manager \<Rightarrow> u64 \<times> 'c timer_manager" where
  "getNextTimer now s =
     (let s' = s\<lparr>m_tickled := False\<rparr> in
      case m_timers s of
        [] \<Rightarrow> (- 1, s')
      | t # _ \<Rightarrow>
          let time = deadline s t in
          if time \<le> now then (0, s') else (of_int ((time - now) div 1000000), s'))"

definition hasTimer :: "'c timer_manager \<Rightarrow> bool" where
  "hasTimer s \<longleftrightarrow> m_timers s \<noteq> []"

definition detectClockRollover :: "int \<Rightarrow> 'c timer_manager \<Rightarrow> bool \<times> 'c timer_manager" where
  "detectClockRollover now s =
     (let rollover = now < m_previouseTime s - 60 * 60 * 1000 * 1000000
      in (rollover, s\<lparr>m_previouseTime := now\<rparr>))"

text \<open>One round of the loop of \<^verbatim>\<open>listExpiredCb\<close>: the first timer is taken out and, if it recurs, put back.\<close>

definition expire_one :: "int \<Rightarrow> nat \<Rightarrow> nat list \<Rightarrow> 'c timer_manager \<Rightarrow> 'c timer_manager" where
  "expire_one now t rest s =
     (let tm = timer_obj s t; s1 = s\<lparr>m_timers := rest\<rparr> in
      if m_recurring tm
      then let s2 = set_next t (now + ms_span (m_ms tm)) s1
           in s2\<lparr>m_timers := set_insert (timer_obj s2) t (m_timers s2)\<rparr>
      else set_cb t None s1)"

text \<open>The loop may run for ever, so it is a partial function: \<open>None\<close> is "does not return".\<close>

partial_function (option) expire_loop ::
  "bool \<Rightarrow> int \<Rightarrow> 'c timer_manager \<Rightarrow> 'c callback option list \<Rightarrow>
   ('c callback option list \<times> 'c timer_manager) option" where
  "expire_loop rollover now s cbs =
     (case m_timers s of
        [] \<Rightarrow> Some (cbs, s)
      | t # rest \<Rightarrow>
          if rollover \<or> deadline s t \<le> now
          then expire_loop rollover now (expire_one now t rest s) (cbs @ [m_cb (timer_obj s t)])
          else Some (cbs, s))"

text \<open>\<open>now\<close> is read before the lock, \<open>now'\<close> in \<^verbatim>\<open>detectClockRollover\<close>.\<close>

definition listExpiredCb :: "int \<Rightarrow> int \<Rightarrow> 'c timer_manager \<Rightarrow>
    ('c callback option list \<times> 'c timer_manager) option" where
  "listExpiredCb now now' s =
     (let (rollover, s') = detectClockRollover now' s in expire_loop rollover now s' [])"

lemmas timer_op_defs =
  addTimer_def addConditionTimer_def addTimer_obj_def timer_cancel_def timer_refresh_def
  timer_reset_def getNextTimer_def detectClockRollover_def timer_ctor_def
  set_cb_def set_next_def set_ms_def expire_one_def

section \<open>The ordered set\<close>

definition sorted_deadlines :: "(nat \<Rightarrow> 'c timer) \<Rightarrow> nat list \<Rightarrow> bool" where
  "sorted_deadlines obj xs \<longleftrightarrow> sorted_wrt (\<lambda>a b. m_next (obj a) < m_next (obj b)) xs"

lemma sorted_deadlines_simps [simp]:
  "sorted_deadlines obj []"
  "sorted_deadlines obj (x # xs) \<longleftrightarrow>
     (\<forall>y \<in> set xs. m_next (obj x) < m_next (obj y)) \<and> sorted_deadlines obj xs"
  by (simp_all add: sorted_deadlines_def)

lemma sorted_deadlines_distinct: "sorted_deadlines obj xs \<Longrightarrow> distinct xs"
  by (induction xs) auto

lemma sorted_deadlines_inj:
  "sorted_deadlines obj xs \<Longrightarrow> x \<in> set xs \<Longrightarrow> y \<in> set xs \<Longrightarrow>
   m_next (obj x) = m_next (obj y) \<Longrightarrow> x = y"
  by (induction xs) force+

lemma sorted_deadlines_cong:
  "(\<And>x. x \<in> set xs \<Longrightarrow> m_next (obj' x) = m_next (obj x)) \<Longrightarrow>
   sorted_deadlines obj' xs = sorted_deadlines obj xs"
  by (induction xs) auto

lemma sorted_deadlines_filter: "sorted_deadlines obj xs \<Longrightarrow> sorted_deadlines obj (filter P xs)"
  by (induction xs) auto

lemma set_find_iff:
  "sorted_deadlines obj xs \<Longrightarrow>
   set_find obj t xs = Some x \<longleftrightarrow> x \<in> set xs \<and> m_next (obj x) = m_next (obj t)"
  by (induction xs) (force simp: comparator_def)+

lemma set_find_None_iff:
  "set_find obj t xs = None \<longleftrightarrow> (\<forall>x \<in> set xs. m_next (obj x) \<noteq> m_next (obj t))"
  by (induction xs) (auto simp: comparator_def)

lemma set_find_self:
  "sorted_deadlines obj xs \<Longrightarrow> t \<in> set xs \<Longrightarrow> set_find obj t xs = Some t"
  by (simp add: set_find_iff)

lemma set_set_insert:
  "sorted_deadlines obj xs \<Longrightarrow> set (set_insert obj t xs) =
     (if \<exists>x \<in> set xs. m_next (obj x) = m_next (obj t) then set xs else insert t (set xs))"
  by (induction xs) (auto simp: comparator_def)

lemma set_insert_dup:
  "sorted_deadlines obj xs \<Longrightarrow> x \<in> set xs \<Longrightarrow> m_next (obj x) = m_next (obj t) \<Longrightarrow>
   set_insert obj t xs = xs"
  by (induction xs) (auto simp: comparator_def)

lemma set_insert_sorted: "sorted_deadlines obj xs \<Longrightarrow> sorted_deadlines obj (set_insert obj t xs)"
proof (induction xs)
  case (Cons x xs)
  have IH: "sorted_deadlines obj (set_insert obj t xs)" using Cons by simp
  show ?case
  proof (cases "comparator (obj x) (obj t)")
    case True
    then have "\<forall>y \<in> set (set_insert obj t xs). m_next (obj x) < m_next (obj y)"
      using Cons.prems by (auto simp: set_set_insert comparator_def split: if_splits)
    with IH True show ?thesis by (auto simp: comparator_def)
  qed (use Cons.prems in \<open>auto simp: comparator_def\<close>)
qed simp

lemma set_insert_not_Nil [simp]: "set_insert obj t xs \<noteq> []"
  by (cases xs) auto

lemma set_set_erase [simp]: "set (set_erase x xs) = set xs - {x}"
  by (auto simp: set_erase_def)

section \<open>The invariant of the manager\<close>

text \<open>
  The set is strictly ordered by deadline, and every timer in it was made by the manager and still
  has its callback.
\<close>

definition tm_inv :: "'c timer_manager \<Rightarrow> bool" where
  "tm_inv s \<longleftrightarrow> sorted_deadlines (timer_obj s) (m_timers s) \<and>
     (\<forall>t \<in> set (m_timers s). t < next_timer s \<and> m_cb (timer_obj s t) \<noteq> None)"

lemma tm_invD:
  assumes "tm_inv s"
  shows "sorted_deadlines (timer_obj s) (m_timers s)" "distinct (m_timers s)"
    and "\<And>t. t \<in> set (m_timers s) \<Longrightarrow> t < next_timer s"
    and "\<And>t. t \<in> set (m_timers s) \<Longrightarrow> m_cb (timer_obj s t) \<noteq> None"
  using assms sorted_deadlines_distinct by (auto simp: tm_inv_def)

lemma tm_inv_manager_ctor: "tm_inv (manager_ctor now)"
  by (simp add: tm_inv_def manager_ctor_def)

lemma tm_inv_addTimer_obj:
  assumes "tm_inv s" "t < next_timer s" "m_cb (timer_obj s t) \<noteq> None"
  shows "tm_inv (snd (addTimer_obj t s))"
  using assms set_insert_sorted set_set_insert [OF tm_invD(1) [OF assms(1)], of t]
  by (auto simp: tm_inv_def addTimer_obj_def Let_def split: if_splits)

lemma tm_inv_update_outside:
  assumes "tm_inv s" "t \<notin> set (m_timers s)"
  shows "tm_inv (s\<lparr>timer_obj := (timer_obj s)(t := tm)\<rparr>)"
proof -
  have "sorted_deadlines ((timer_obj s)(t := tm)) (m_timers s)"
    by (subst sorted_deadlines_cong [of _ _ "timer_obj s"])
      (use assms in \<open>auto simp: tm_inv_def\<close>)
  with assms show ?thesis by (auto simp: tm_inv_def)
qed

lemma tm_inv_addTimer:
  assumes inv: "tm_inv s"
  shows "tm_inv (snd (snd (addTimer now ms (Some cb) recurring s)))"
proof -
  let ?t = "next_timer s"
  let ?s = "s\<lparr>timer_obj := (timer_obj s)(?t := timer_ctor now ms (Some cb) recurring), next_timer := Suc ?t\<rparr>"
  have "tm_inv ?s"
    using tm_inv_update_outside [OF inv, of ?t "timer_ctor now ms (Some cb) recurring"] tm_invD(3) [OF inv]
    by (force simp: tm_inv_def)
  then have "tm_inv (snd (addTimer_obj ?t ?s))"
    by (rule tm_inv_addTimer_obj) (simp_all add: timer_ctor_def)
  then show ?thesis by (simp add: addTimer_def Let_def)
qed

lemma tm_inv_erase: "tm_inv s \<Longrightarrow> tm_inv (s\<lparr>m_timers := set_erase x (m_timers s)\<rparr>)"
  using sorted_deadlines_filter by (auto simp: tm_inv_def) (simp add: set_erase_def)

lemma set_cb_deadline [simp]: "deadline (set_cb t cb s) u = deadline s u"
  by (simp add: set_cb_def)

lemma set_cb_timers [simp]: "m_timers (set_cb t cb s) = m_timers s"
  by (simp add: set_cb_def)

lemma tm_inv_cancel:
  assumes inv: "tm_inv s"
  shows "tm_inv (snd (timer_cancel t s))"
proof (cases "m_cb (timer_obj s t) = None")
  case False
  let ?s = "set_cb t None s"
  have sorted: "sorted_deadlines (timer_obj ?s) (m_timers ?s)"
    using tm_invD(1) [OF inv] sorted_deadlines_cong [of "m_timers s" "timer_obj ?s" "timer_obj s"] by simp
  have other: "m_cb (timer_obj ?s u) \<noteq> None" if "u \<in> set (m_timers s)" "u \<noteq> t" for u
    using tm_invD(4) [OF inv that(1)] that(2) by (simp add: set_cb_def)
  show ?thesis
  proof (cases "set_find (timer_obj ?s) t (m_timers ?s)")
    case None
    then have "t \<notin> set (m_timers s)" by (auto simp: set_find_None_iff)
    with None False sorted other tm_invD(3) [OF inv] show ?thesis
      by (auto simp: timer_cancel_def tm_inv_def) (auto simp: set_cb_def)
  next
    case (Some x)
    have "x = t" if "t \<in> set (m_timers s)"
      using Some set_find_self [OF sorted] that by simp
    then have "u \<noteq> t" if "u \<in> set (m_timers s) - {x}" for u using that by auto
    with Some False sorted other tm_invD(3) [OF inv] sorted_deadlines_filter show ?thesis
      by (auto simp: timer_cancel_def tm_inv_def Let_def) (auto simp: set_cb_def set_erase_def)
  qed
qed (use inv in \<open>simp add: timer_cancel_def\<close>)

lemma tm_inv_insert:
  assumes "tm_inv s" "t < next_timer s" "m_cb (timer_obj s t) \<noteq> None"
  shows "tm_inv (s\<lparr>m_timers := set_insert (timer_obj s) t (m_timers s)\<rparr>)"
  using assms set_insert_sorted set_set_insert [OF tm_invD(1) [OF assms(1)], of t]
  by (auto simp: tm_inv_def split: if_splits)

text \<open>A timer that was looked up and erased is out of the set, so its deadline may change.\<close>

lemma tm_inv_erase_found:
  assumes inv: "tm_inv s" and found: "set_find (timer_obj s) t (m_timers s) = Some x"
  shows "tm_inv (s\<lparr>m_timers := set_erase x (m_timers s), timer_obj := (timer_obj s)(t := tm)\<rparr>)"
proof -
  have "t \<notin> set (set_erase x (m_timers s))"
    using set_find_self [OF tm_invD(1) [OF inv], of t] found by auto
  from tm_inv_update_outside [OF tm_inv_erase [OF inv, of x], of t tm] this
  show ?thesis by simp
qed

lemma tm_inv_refresh:
  assumes inv: "tm_inv s" and t: "t < next_timer s"
  shows "tm_inv (snd (timer_refresh now t s))"
proof (cases "m_cb (timer_obj s t) = None \<or> set_find (timer_obj s) t (m_timers s) = None")
  case True
  with inv show ?thesis by (auto simp: timer_refresh_def)
next
  case False
  then obtain x c where x: "set_find (timer_obj s) t (m_timers s) = Some x"
    and cb: "m_cb (timer_obj s t) = Some c" by auto
  let ?tm = "(timer_obj s t)\<lparr>m_next := now + ms_span (m_ms (timer_obj s t))\<rparr>"
  let ?s = "s\<lparr>m_timers := set_erase x (m_timers s), timer_obj := (timer_obj s)(t := ?tm)\<rparr>"
  have "tm_inv (?s\<lparr>m_timers := set_insert (timer_obj ?s) t (m_timers ?s)\<rparr>)"
    by (rule tm_inv_insert [OF tm_inv_erase_found [OF inv x]]) (use t cb in simp_all)
  with x cb show ?thesis by (simp add: timer_refresh_def set_next_def Let_def)
qed

lemma tm_inv_reset:
  assumes inv: "tm_inv s" and t: "t < next_timer s"
  shows "tm_inv (snd (snd (timer_reset now ms from_now t s)))"
proof (cases "(ms = m_ms (timer_obj s t) \<and> \<not> from_now) \<or> m_cb (timer_obj s t) = None \<or>
    set_find (timer_obj s) t (m_timers s) = None")
  case True
  with inv show ?thesis by (auto simp: timer_reset_def Let_def)
next
  case False
  then obtain x c where x: "set_find (timer_obj s) t (m_timers s) = Some x"
    and cb: "m_cb (timer_obj s t) = Some c" by auto
  let ?d = "(if from_now then now else deadline s t - ms_span (m_ms (timer_obj s t))) + ms_span ms"
  let ?tm = "(timer_obj s t)\<lparr>m_ms := ms, m_next := ?d\<rparr>"
  let ?s = "s\<lparr>m_timers := set_erase x (m_timers s), timer_obj := (timer_obj s)(t := ?tm)\<rparr>"
  have "tm_inv (snd (addTimer_obj t ?s))"
    by (rule tm_inv_addTimer_obj [OF tm_inv_erase_found [OF inv x]]) (use t cb in simp_all)
  moreover have "snd (snd (timer_reset now ms from_now t s)) = snd (addTimer_obj t ?s)"
    using False x cb by (auto simp: timer_reset_def set_next_def set_ms_def Let_def)
  ultimately show ?thesis by simp
qed

lemma tm_inv_tail:
  assumes "tm_inv s" "m_timers s = t # rest"
  shows "tm_inv (s\<lparr>m_timers := rest\<rparr>)" "t \<notin> set rest"
  using assms by (auto simp: tm_inv_def)

lemma tm_inv_expire_one:
  assumes inv: "tm_inv s" and ts: "m_timers s = t # rest"
  shows "tm_inv (expire_one now t rest s)"
proof -
  let ?tm = "(timer_obj s t)\<lparr>m_next := now + ms_span (m_ms (timer_obj s t))\<rparr>"
  let ?s = "s\<lparr>m_timers := rest, timer_obj := (timer_obj s)(t := ?tm)\<rparr>"
  have t: "t < next_timer s" "m_cb (timer_obj s t) \<noteq> None" using tm_invD(3,4) [OF inv] ts by auto
  have out: "tm_inv (s\<lparr>m_timers := rest, timer_obj := (timer_obj s)(t := tm)\<rparr>)" for tm
    using tm_inv_update_outside [OF tm_inv_tail(1) [OF inv ts], of t tm] tm_inv_tail(2) [OF inv ts]
    by simp
  have "tm_inv (?s\<lparr>m_timers := set_insert (timer_obj ?s) t (m_timers ?s)\<rparr>)"
    by (rule tm_inv_insert [OF out]) (use t in simp_all)
  moreover have "tm_inv (s\<lparr>m_timers := rest, timer_obj := (timer_obj s)(t := (timer_obj s t)\<lparr>m_cb := None\<rparr>)\<rparr>)"
    by (rule out)
  ultimately show ?thesis by (simp add: expire_one_def set_next_def set_cb_def Let_def)
qed

lemma tm_inv_expire_loop:
  assumes "expire_loop rollover now s cbs = Some r" "tm_inv s"
  shows "tm_inv (snd r)"
proof -
  have "tm_inv s \<longrightarrow> tm_inv (snd r)"
  proof (rule expire_loop.raw_induct [where P = "\<lambda>_ _ s _ r. tm_inv s \<longrightarrow> tm_inv (snd r)", OF _ assms(1)])
    fix f :: "bool \<Rightarrow> int \<Rightarrow> 'a timer_manager \<Rightarrow> 'a callback option list \<Rightarrow> _"
    fix rollover now s cbs r
    assume IH: "\<And>rollover now s cbs r. f rollover now s cbs = Some r \<Longrightarrow> tm_inv s \<longrightarrow> tm_inv (snd r)"
      and eq: "(case m_timers s of [] \<Rightarrow> Some (cbs, s)
        | t # rest \<Rightarrow> if rollover \<or> deadline s t \<le> now
            then f rollover now (expire_one now t rest s) (cbs @ [m_cb (timer_obj s t)])
            else Some (cbs, s)) = Some r"
    show "tm_inv s \<longrightarrow> tm_inv (snd r)"
      using eq tm_inv_expire_one [of s] IH by (auto split: list.splits if_splits)
  qed
  with assms(2) show ?thesis by blast
qed

lemma tm_inv_listExpiredCb:
  assumes "tm_inv s" "listExpiredCb now now' s = Some (cbs, s')"
  shows "tm_inv s'"
proof -
  have "tm_inv (snd (detectClockRollover now' s))"
    using assms(1) by (simp add: detectClockRollover_def tm_inv_def)
  with assms(2) tm_inv_expire_loop show ?thesis
    by (fastforce simp: listExpiredCb_def Let_def split: prod.splits)
qed

lemma tm_inv_getNextTimer: "tm_inv s \<Longrightarrow> tm_inv (snd (getNextTimer now s))"
  by (auto simp: getNextTimer_def tm_inv_def Let_def split: list.splits)

lemmas tm_inv_preserved = tm_inv_addTimer tm_inv_cancel tm_inv_refresh tm_inv_reset
  tm_inv_getNextTimer tm_inv_listExpiredCb

section \<open>One pass of expiry\<close>



lemma expire_one_frame:
  assumes "u \<noteq> t"
  shows "timer_obj (expire_one now t rest s) u = timer_obj s u"
  using assms by (simp add: expire_one_def set_next_def set_cb_def Let_def)

lemma expire_one_timers:
  assumes inv: "tm_inv s" and ts: "m_timers s = t # rest"
  shows "set (m_timers (expire_one now t rest s)) \<subseteq> insert t (set rest)"
    and "set rest \<subseteq> set (m_timers (expire_one now t rest s))"
    and "t \<in> set (m_timers (expire_one now t rest s)) \<Longrightarrow> m_recurring (timer_obj s t) \<and>
           deadline (expire_one now t rest s) t = now + ms_span (m_ms (timer_obj s t))"
    and "m_recurring (timer_obj (expire_one now t rest s) t) = m_recurring (timer_obj s t)"
    and "m_ms (timer_obj (expire_one now t rest s) t) = m_ms (timer_obj s t)"
proof -
  let ?tm = "(timer_obj s t)\<lparr>m_next := now + ms_span (m_ms (timer_obj s t))\<rparr>"
  have t: "t \<notin> set rest" and sorted: "sorted_deadlines (timer_obj s) rest"
    using inv ts by (auto simp: tm_inv_def)
  then have "sorted_deadlines ((timer_obj s)(t := ?tm)) rest"
    by (subst sorted_deadlines_cong [of _ _ "timer_obj s"]) auto
  note ins = set_set_insert [OF this, of t]
  show "set (m_timers (expire_one now t rest s)) \<subseteq> insert t (set rest)"
    "set rest \<subseteq> set (m_timers (expire_one now t rest s))"
    "m_recurring (timer_obj (expire_one now t rest s) t) = m_recurring (timer_obj s t)"
    "m_ms (timer_obj (expire_one now t rest s) t) = m_ms (timer_obj s t)"
    using ins by (auto simp: expire_one_def set_next_def set_cb_def Let_def split: if_splits)
  show "m_recurring (timer_obj s t) \<and>
      deadline (expire_one now t rest s) t = now + ms_span (m_ms (timer_obj s t))"
    if "t \<in> set (m_timers (expire_one now t rest s))"
    using that t by (auto simp: expire_one_def set_next_def set_cb_def Let_def split: if_splits)
qed






text \<open>Timers that every round puts back where it takes them from keep the loop going for ever.\<close>

definition expire_stuck :: "bool \<Rightarrow> int \<Rightarrow> 'c timer_manager \<Rightarrow> bool" where
  "expire_stuck rollover now s \<longleftrightarrow> m_timers s \<noteq> [] \<and>
     (\<forall>t \<in> set (m_timers s). m_recurring (timer_obj s t) \<and>
        (rollover \<or> (deadline s t \<le> now \<and> ms_span (m_ms (timer_obj s t)) \<le> 0)))"

lemma expire_stuck_step:
  assumes inv: "tm_inv s" and ts: "m_timers s = t # rest" and st: "expire_stuck rollover now s"
  shows "expire_stuck rollover now (expire_one now t rest s)"
proof -
  have rec: "m_recurring (timer_obj s t)" using st ts by (simp add: expire_stuck_def)
  have "m_timers (expire_one now t rest s) \<noteq> []"
    using rec by (simp add: expire_one_def set_next_def Let_def)
  moreover have "m_recurring (timer_obj (expire_one now t rest s) u) \<and>
      (rollover \<or> (deadline (expire_one now t rest s) u \<le> now \<and>
         ms_span (m_ms (timer_obj (expire_one now t rest s) u)) \<le> 0))"
    if u: "u \<in> set (m_timers (expire_one now t rest s))" for u
  proof (cases "u = t")
    case True
    with u expire_one_timers(3,4,5) [OF inv ts, of now] st ts show ?thesis
      by (auto simp: expire_stuck_def)
  next
    case False
    then have "u \<in> set rest" using u expire_one_timers(1) [OF inv ts, of now] by auto
    with False st ts show ?thesis by (simp add: expire_one_frame expire_stuck_def)
  qed
  ultimately show ?thesis by (simp add: expire_stuck_def)
qed

lemma expire_loop_diverges:
  assumes "tm_inv s" "expire_stuck rollover now s"
  shows "expire_loop rollover now s cbs = None"
proof (rule ccontr)
  assume "expire_loop rollover now s cbs \<noteq> None"
  then obtain r where r: "expire_loop rollover now s cbs = Some r" by blast
  have "\<not> (tm_inv s \<and> expire_stuck rollover now s)"
  proof (rule expire_loop.raw_induct
      [where P = "\<lambda>rollover now s cbs r. \<not> (tm_inv s \<and> expire_stuck rollover now s)", OF _ r])
    fix f :: "bool \<Rightarrow> int \<Rightarrow> 'a timer_manager \<Rightarrow> 'a callback option list \<Rightarrow> _"
    fix rollover now s cbs r
    assume IH: "\<And>rollover now s cbs r. f rollover now s cbs = Some r \<Longrightarrow>
        \<not> (tm_inv s \<and> expire_stuck rollover now s)"
      and eq: "(case m_timers s of [] \<Rightarrow> Some (cbs, s)
        | t # rest \<Rightarrow> if rollover \<or> deadline s t \<le> now
            then f rollover now (expire_one now t rest s) (cbs @ [m_cb (timer_obj s t)])
            else Some (cbs, s)) = Some r"
    show "\<not> (tm_inv s \<and> expire_stuck rollover now s)"
    proof
      assume st: "tm_inv s \<and> expire_stuck rollover now s"
      then obtain t rest where ts: "m_timers s = t # rest"
        by (cases "m_timers s") (auto simp: expire_stuck_def)
      with st have "rollover \<or> deadline s t \<le> now" by (auto simp: expire_stuck_def)
      with eq ts have "f rollover now (expire_one now t rest s) (cbs @ [m_cb (timer_obj s t)]) = Some r"
        by simp
      from IH [OF this] expire_stuck_step [OF _ ts] tm_inv_expire_one [OF _ ts] st
      show False by blast
    qed
  qed
  with assms show False by blast
qed

text \<open>After a rollover every timer is taken; when none recurs the set ends up empty.\<close>

lemma expire_loop_rollover:
  assumes "distinct (m_timers s)" "\<forall>t \<in> set (m_timers s). \<not> m_recurring (timer_obj s t)"
  shows "\<exists>s'. expire_loop True now s cbs =
      Some (cbs @ map (\<lambda>t. m_cb (timer_obj s t)) (m_timers s), s') \<and> m_timers s' = []"
  using assms
proof (induction "m_timers s" arbitrary: s cbs)
  case Nil
  then show ?case by (simp add: expire_loop.simps)
next
  case (Cons t rest)
  let ?s1 = "set_cb t None (s\<lparr>m_timers := rest\<rparr>)"
  have one: "expire_one now t rest s = ?s1"
    using Cons.prems Cons.hyps(2) [symmetric] by (simp add: expire_one_def Let_def)
  have t: "t \<notin> set rest" using Cons.prems(1) Cons.hyps(2) [symmetric] by simp
  then have same: "map (\<lambda>u. m_cb (timer_obj ?s1 u)) rest = map (\<lambda>u. m_cb (timer_obj s u)) rest"
    by (intro map_cong refl) (auto simp: set_cb_def)
  have "\<exists>s'. expire_loop True now ?s1 (cbs @ [m_cb (timer_obj s t)]) =
      Some ((cbs @ [m_cb (timer_obj s t)]) @ map (\<lambda>u. m_cb (timer_obj ?s1 u)) (m_timers ?s1), s') \<and>
      m_timers s' = []"
    by (rule Cons.hyps(1)) (use Cons.prems Cons.hyps(2) [symmetric] t in \<open>auto simp: set_cb_def\<close>)
  with one Cons.hyps(2) [symmetric] show ?case
    by (simp add: expire_loop.simps [of True now s] same del: map_eq_conv)
qed

section \<open>Every history of the manager\<close>

text \<open>
  The states some sequence of calls reaches, each at any clock reading; a handle is a timer the
  manager made. Callbacks that are added are not empty.
\<close>

inductive tm_reach :: "'c timer_manager \<Rightarrow> bool" where
  tm_ctor: "tm_reach (manager_ctor now)"
| tm_add: "tm_reach s \<Longrightarrow> tm_reach (snd (snd (addTimer now ms (Some cb) recurring s)))"
| tm_add_condition: "tm_reach s \<Longrightarrow> tm_reach (snd (snd (addConditionTimer now ms cb w recurring s)))"
| tm_cancel: "tm_reach s \<Longrightarrow> tm_reach (snd (timer_cancel t s))"
| tm_refresh: "tm_reach s \<Longrightarrow> t < next_timer s \<Longrightarrow> tm_reach (snd (timer_refresh now t s))"
| tm_reset: "tm_reach s \<Longrightarrow> t < next_timer s \<Longrightarrow> tm_reach (snd (snd (timer_reset now ms from_now t s)))"
| tm_next: "tm_reach s \<Longrightarrow> tm_reach (snd (getNextTimer now s))"
| tm_expire: "tm_reach s \<Longrightarrow> listExpiredCb now now' s = Some (cbs, s') \<Longrightarrow> tm_reach s'"

lemma tm_reach_inv: "tm_reach s \<Longrightarrow> tm_inv s"
  by (induction rule: tm_reach.induct)
    (auto intro: tm_inv_preserved simp: tm_inv_manager_ctor addConditionTimer_def)

text \<open>A concrete history for the witnesses: one timer of 5 ms and a recurring one of 7 ms, at time 0.\<close>

definition demo_timers :: "nat timer_manager" where
  "demo_timers = snd (snd (addTimer 0 7 (Some (Call 2)) True
     (snd (snd (addTimer 0 5 (Some (Call 1)) False (manager_ctor 0))))))"

definition demo_oneshot :: "nat timer_manager" where
  "demo_oneshot = snd (snd (addTimer 0 5 (Some (Call 2)) False (manager_ctor 0)))"

definition demo_recurring :: "nat timer_manager" where
  "demo_recurring = snd (snd (addTimer 0 7 (Some (Call 2)) True (manager_ctor 0)))"

lemma demo_single_reach: "tm_reach demo_oneshot" "tm_reach demo_recurring"
  unfolding demo_oneshot_def demo_recurring_def by (intro tm_reach.intros)+

lemma demo_single_state:
  "m_timers demo_oneshot = [0]" "\<not> m_recurring (timer_obj demo_oneshot 0)"
  "m_cb (timer_obj demo_oneshot 0) = Some (Call 2)" "m_previouseTime demo_oneshot = 0"
  "deadline demo_oneshot 0 = 5000000" "m_timers demo_recurring = [0]"
  "m_recurring (timer_obj demo_recurring 0)" "m_previouseTime demo_recurring = 0"
  by (simp_all add: demo_oneshot_def demo_recurring_def addTimer_def addTimer_obj_def
      manager_ctor_def timer_ctor_def comparator_def ms_span_def Let_def)

lemma demo_timers_reach: "tm_reach demo_timers"
  unfolding demo_timers_def by (intro tm_reach.intros)

lemma demo_timers_state:
  "m_timers demo_timers = [0, Suc 0]" "deadline demo_timers 0 = 5000000" "deadline demo_timers (Suc 0) = 7000000"
  "m_recurring (timer_obj demo_timers 0) = False" "m_recurring (timer_obj demo_timers (Suc 0)) = True"
  "m_ms (timer_obj demo_timers (Suc 0)) = 7" "m_cb (timer_obj demo_timers 0) = Some (Call 1)"
  "m_cb (timer_obj demo_timers (Suc 0)) = Some (Call 2)" "next_timer demo_timers = 2"
  "m_previouseTime demo_timers = 0"
  by (simp_all add: demo_timers_def addTimer_def addTimer_obj_def manager_ctor_def timer_ctor_def
      comparator_def ms_span_def Let_def)



text \<open>The timeout against the deadlines.\<close>

lemma getNextTimer_facts:
  assumes "tm_inv s" "\<forall>t \<in> set (m_timers s). deadline s t - now < 2 ^ 63"
    and "getNextTimer now s = (r, s')"
  shows "(r = - 1 \<longleftrightarrow> m_timers s = []) \<and> \<not> m_tickled s' \<and>
    (\<forall>t \<in> set (m_timers s). now + uint r * 1000000 \<le> max now (deadline s t)) \<and>
    (m_timers s \<noteq> [] \<longrightarrow> max now (deadline s (hd (m_timers s))) < now + (uint r + 1) * 1000000)"
proof (cases "m_timers s")
  case Nil
  with assms(3) show ?thesis by (auto simp: getNextTimer_def Let_def)
next
  case (Cons t rest)
  note inv = assms(1)
  let ?q = "(deadline s t - now) div 1000000"
  have later: "deadline s t \<le> deadline s u" if "u \<in> set (m_timers s)" for u
    using tm_invD(1) [OF inv] that by (auto simp: Cons)
  show ?thesis
  proof (cases "deadline s t \<le> now")
    case True
    with assms(3) have "r = 0" "\<not> m_tickled s'" by (auto simp: getNextTimer_def Cons Let_def)
    with True show ?thesis by (auto simp: Cons)
  next
    case False
    have q: "0 \<le> ?q" "?q < 2 ^ 63"
      using False assms(2) by (auto simp: Cons intro: le_less_trans [OF _ assms(2) [rule_format, of t]])
    have r: "r = of_int ?q" "\<not> m_tickled s'"
      using assms(3) False by (auto simp: getNextTimer_def Cons Let_def)
    have u: "uint r = ?q"
      unfolding r(1) uint_word_of_int using q by (intro mod_pos_pos_trivial) simp_all
    have "r \<noteq> - 1"
    proof
      assume "r = - 1"
      then have "uint r = 2 ^ 64 - 1" by (simp add: unsigned_minus_1_eq_mask mask_eq_exp_minus_1)
      with u q show False by simp
    qed
    moreover have "deadline s t - now = ?q * 1000000 + (deadline s t - now) mod 1000000"
      "0 \<le> (deadline s t - now) mod 1000000" "(deadline s t - now) mod 1000000 < 1000000" by simp_all
    then have "?q * 1000000 \<le> deadline s t - now" "deadline s t - now < (?q + 1) * 1000000"
      unfolding distrib_right by linarith+
    ultimately show ?thesis using u r(2) later False by (fastforce simp: Cons)
  qed
qed

text \<open>
  \<^verbatim>\<open>getNextTimer\<close>, the timeout of \<^verbatim>\<open>epoll_wait\<close>: \<^verbatim>\<open>~0ull\<close> exactly when no timer is queued, and
  otherwise the time to the earliest deadline rounded down to milliseconds (0 when it has passed),
  so that no queued timer is slept over. The difference of two time points is assumed to fit the
  clock's 64-bit count of nanoseconds.
\<close>

theorem getNextTimer_bounds:
  assumes "tm_reach s" "\<forall>t \<in> set (m_timers s). deadline s t - now < 2 ^ 63"
    and "getNextTimer now s = (r, s')"
  shows "(r = - 1 \<longleftrightarrow> m_timers s = []) \<and> \<not> m_tickled s' \<and>
    (\<forall>t \<in> set (m_timers s). now + uint r * 1000000 \<le> max now (deadline s t)) \<and>
    (m_timers s \<noteq> [] \<longrightarrow> max now (deadline s (hd (m_timers s))) < now + (uint r + 1) * 1000000)"
  by (rule getNextTimer_facts [OF tm_reach_inv [OF assms(1)] assms(2,3)])

theorem getNextTimer_bounds_witness:
  "getNextTimer 1500000 demo_timers = (3, demo_timers\<lparr>m_tickled := False\<rparr>) \<and> uint (3 :: u64) * 1000000 \<le> 3500000"
proof -
  have r: "getNextTimer 1500000 demo_timers = (3, demo_timers\<lparr>m_tickled := False\<rparr>)"
    by (simp add: getNextTimer_def demo_timers_state Let_def)
  have "\<forall>t \<in> set (m_timers demo_timers). deadline demo_timers t - 1500000 < 2 ^ 63"
    by (simp add: demo_timers_state)
  from getNextTimer_bounds [OF demo_timers_reach this r] r show ?thesis
    by (simp add: demo_timers_state)
qed



text \<open>
  After the clock went back by more than an hour, every queued timer is treated as expired:
  when none of them recurs, the pass returns all callbacks in deadline order and empties the set.
\<close>

theorem listExpiredCb_rollover:
  assumes "tm_reach s" "\<forall>t \<in> set (m_timers s). \<not> m_recurring (timer_obj s t)"
    and "now' < m_previouseTime s - 60 * 60 * 1000 * 1000000"
  shows "\<exists>s'. listExpiredCb now now' s = Some (map (\<lambda>t. m_cb (timer_obj s t)) (m_timers s), s') \<and>
    m_timers s' = []"
proof -
  let ?s = "s\<lparr>m_previouseTime := now'\<rparr>"
  have "distinct (m_timers ?s)" using tm_invD(2) [OF tm_reach_inv [OF assms(1)]] by simp
  moreover have "\<forall>t \<in> set (m_timers ?s). \<not> m_recurring (timer_obj ?s t)" using assms(2) by simp
  ultimately have "\<exists>s'. expire_loop True now ?s [] =
      Some ([] @ map (\<lambda>t. m_cb (timer_obj ?s t)) (m_timers ?s), s') \<and> m_timers s' = []"
    by (rule expire_loop_rollover)
  with assms(3) show ?thesis by (simp add: listExpiredCb_def detectClockRollover_def Let_def)
qed

theorem listExpiredCb_rollover_witness:
  "\<exists>s'. listExpiredCb (- 3600000000001) (- 3600000000001) demo_oneshot = Some ([Some (Call 2)], s')"
  using listExpiredCb_rollover [OF demo_single_reach(1), of "- 3600000000001" "- 3600000000001"]
  by (auto simp: demo_single_state)

text \<open>
  The loop of \<^verbatim>\<open>listExpiredCb\<close> can run for ever: when the queued timers all recur, it does so
  after a clock rollover, and without one when they are due with a period of 0. Each round puts the
  timer it took back in front of the loop's condition.
\<close>

theorem listExpiredCb_never_returns:
  assumes "tm_reach s" "m_timers s \<noteq> []" "\<forall>t \<in> set (m_timers s). m_recurring (timer_obj s t)"
    and "now' < m_previouseTime s - 60 * 60 * 1000 * 1000000 \<or>
      (\<forall>t \<in> set (m_timers s). deadline s t \<le> now \<and> ms_span (m_ms (timer_obj s t)) \<le> 0)"
  shows "listExpiredCb now now' s = None"
proof -
  let ?s = "s\<lparr>m_previouseTime := now'\<rparr>"
  have "tm_inv ?s" using tm_reach_inv [OF assms(1)] by (simp add: tm_inv_def)
  moreover have "expire_stuck (now' < m_previouseTime s - 60 * 60 * 1000 * 1000000) now ?s"
    using assms(2-4) by (auto simp: expire_stuck_def)
  ultimately show ?thesis
    using expire_loop_diverges [of ?s "now' < m_previouseTime s - 60 * 60 * 1000 * 1000000" now "[]"]
    by (simp add: listExpiredCb_def detectClockRollover_def Let_def)
qed

theorem listExpiredCb_never_returns_witness:
  "listExpiredCb (- 3600000000001) (- 3600000000001) demo_recurring = None"
  by (rule listExpiredCb_never_returns [OF demo_single_reach(2)]) (simp_all add: demo_single_state)

text \<open>What \<^verbatim>\<open>addTimer\<close> leaves behind.\<close>

lemma addTimer_result:
  assumes inv: "tm_inv s" and add: "addTimer now ms (Some cb) recurring s = (t, front, s')"
  shows "t = next_timer s" "t \<notin> set (m_timers s)"
    "timer_obj s' = (timer_obj s)(t := timer_ctor now ms (Some cb) recurring)"
    "sorted_deadlines (timer_obj s') (m_timers s)"
    "m_timers s' = set_insert (timer_obj s') t (m_timers s)"
    "set (m_timers s') = (if \<exists>x \<in> set (m_timers s). deadline s x = now + ms_span ms
       then set (m_timers s) else insert t (set (m_timers s)))"
proof -
  show t: "t = next_timer s" using add by (auto simp: addTimer_def Let_def)
  show tn: "t \<notin> set (m_timers s)" using tm_invD(3) [OF inv] t by fastforce
  show obj: "timer_obj s' = (timer_obj s)(t := timer_ctor now ms (Some cb) recurring)"
    and ml: "m_timers s' = set_insert (timer_obj s') t (m_timers s)"
    using add by (auto simp: addTimer_def addTimer_obj_def Let_def)
  have same: "deadline s' x = deadline s x" if "x \<in> set (m_timers s)" for x using that tn obj by auto
  show sorted: "sorted_deadlines (timer_obj s') (m_timers s)"
    using tm_invD(1) [OF inv] same by (subst sorted_deadlines_cong [of _ _ "timer_obj s"]) auto
  have "deadline s' t = now + ms_span ms" by (simp add: obj timer_ctor_def)
  then show "set (m_timers s') = (if \<exists>x \<in> set (m_timers s). deadline s x = now + ms_span ms
       then set (m_timers s) else insert t (set (m_timers s)))"
    unfolding ml set_set_insert [OF sorted] using same by simp
qed

text \<open>
  What \<^verbatim>\<open>addTimer\<close> queues: the new timer joins the set exactly when no queued timer has the
  same deadline to the nanosecond; otherwise the set is left as it was, the caller still gets the
  timer, its callback never runs, and cancelling it takes the other timer out of the set.
\<close>

theorem addTimer_same_deadline_lost:
  assumes "tm_reach s" "addTimer now ms (Some cb) recurring s = (t, front, s')"
  shows "set (m_timers s') = (if \<exists>x \<in> set (m_timers s). deadline s x = now + ms_span ms
           then set (m_timers s) else insert t (set (m_timers s))) \<and> t \<notin> set (m_timers s) \<and>
    (\<forall>x \<in> set (m_timers s). deadline s x = now + ms_span ms \<longrightarrow>
       fst (timer_cancel t s') \<and> set (m_timers (snd (timer_cancel t s'))) = set (m_timers s) - {x})"
proof -
  note inv = tm_reach_inv [OF assms(1)]
  note add = addTimer_result [OF inv assms(2)]
  have dt: "deadline s' t = now + ms_span ms" by (simp add: add(3) timer_ctor_def)
  have same: "deadline s' x = deadline s x" if "x \<in> set (m_timers s)" for x using that add(2,3) by auto
  have "fst (timer_cancel t s') \<and> set (m_timers (snd (timer_cancel t s'))) = set (m_timers s) - {x}"
    if x: "x \<in> set (m_timers s)" "deadline s x = now + ms_span ms" for x
  proof -
    have eq: "deadline s' x = deadline s' t" using dt same [OF x(1)] x(2) by simp
    have ml: "m_timers s' = m_timers s" using set_insert_dup [OF add(4) x(1) eq] add(5) by simp
    have sorted': "sorted_deadlines (timer_obj (set_cb t None s')) (m_timers s)"
      using add(4) by (subst sorted_deadlines_cong [of _ _ "timer_obj s'"]) auto
    have "deadline (set_cb t None s') x = deadline (set_cb t None s') t"
      unfolding set_cb_deadline by (rule eq)
    with set_find_iff [OF sorted'] x(1)
    have "set_find (timer_obj (set_cb t None s')) t (m_timers s) = Some x" by blast
    moreover have "m_cb (timer_obj s' t) \<noteq> None" by (simp add: add(3) timer_ctor_def)
    ultimately show ?thesis by (simp add: timer_cancel_def Let_def ml)
  qed
  with add(2,6) show ?thesis by blast
qed

theorem addTimer_same_deadline_lost_witness:
  "\<exists>t front s'. addTimer 2000000 3 (Some (Call 4)) False demo_oneshot = (t, front, s') \<and>
     set (m_timers s') = {0} \<and> t \<noteq> 0 \<and> m_timers (snd (timer_cancel t s')) = []"
proof -
  obtain t front s' where ad: "addTimer 2000000 3 (Some (Call 4)) False demo_oneshot = (t, front, s')"
    by (metis prod_cases3)
  from addTimer_same_deadline_lost [OF demo_single_reach(1) ad] ad show ?thesis
    by (auto simp: demo_single_state ms_span_def)
qed

text \<open>
  \<^verbatim>\<open>cancel\<close> of a queued timer: it returns true once, the timer loses its callback and leaves
  the set, no other timer is touched, and cancelling it again returns false.
\<close>

theorem timer_cancel_queued:
  assumes "tm_reach s" "t \<in> set (m_timers s)" "timer_cancel t s = (r, s')"
  shows "r \<and> m_timers s' = filter (\<lambda>u. u \<noteq> t) (m_timers s) \<and> m_cb (timer_obj s' t) = None \<and>
    (\<forall>u. u \<noteq> t \<longrightarrow> timer_obj s' u = timer_obj s u) \<and> timer_cancel t s' = (False, s')"
proof -
  note inv = tm_reach_inv [OF assms(1)]
  let ?s = "set_cb t None s"
  have "sorted_deadlines (timer_obj ?s) (m_timers s)"
    using tm_invD(1) [OF inv] by (subst sorted_deadlines_cong [of _ _ "timer_obj s"]) auto
  from set_find_self [OF this assms(2)] tm_invD(4) [OF inv assms(2)] assms(3)
  have s': "r" "s' = ?s\<lparr>m_timers := set_erase t (m_timers s)\<rparr>"
    by (auto simp: timer_cancel_def Let_def)
  then show ?thesis by (simp add: set_erase_def timer_cancel_def) (simp add: set_cb_def)
qed

theorem timer_cancel_queued_witness:
  "\<exists>s'. timer_cancel 0 demo_timers = (True, s') \<and> m_timers s' = [Suc 0]"
proof -
  obtain r s' where c: "timer_cancel 0 demo_timers = (r, s')" by fastforce
  have "0 \<in> set (m_timers demo_timers)" by (simp add: demo_timers_state)
  from timer_cancel_queued [OF demo_timers_reach this c] c show ?thesis by (auto simp: demo_timers_state)
qed

text \<open>
  The wake-up is asked for once per wait: between two calls of \<^verbatim>\<open>getNextTimer\<close> at most one
  call of \<^verbatim>\<open>addTimer\<close> reports a timer inserted at the front, and the report is made only for a timer
  whose deadline is the earliest of the set.
\<close>

theorem addTimer_tickles_once:
  assumes "tm_reach s" "addTimer now ms (Some cb) recurring s = (t, front, s')"
  shows "(front \<longrightarrow> \<not> m_tickled s \<and> m_tickled s' \<and>
            (\<forall>u \<in> set (m_timers s'). deadline s' t \<le> deadline s' u)) \<and>
    (m_tickled s \<longrightarrow> \<not> front \<and> m_tickled s') \<and>
    (\<not> m_tickled s \<and> (\<forall>u \<in> set (m_timers s'). deadline s' t \<le> deadline s' u) \<longrightarrow> front)"
proof -
  have inv': "tm_inv s'"
    using tm_inv_addTimer [OF tm_reach_inv [OF assms(1)], of now ms cb recurring] assms(2) by simp
  define obj where "obj = (timer_obj s)(next_timer s := timer_ctor now ms (Some cb) recurring)"
  from assms(2) have t: "t = next_timer s" and xs: "m_timers s' = set_insert obj t (m_timers s)"
    and o': "timer_obj s' = obj" and fr: "front \<longleftrightarrow> set_find obj t (m_timers s') = Some (hd (m_timers s')) \<and> \<not> m_tickled s"
    and tk: "m_tickled s' \<longleftrightarrow> front \<or> m_tickled s"
    by (auto simp: addTimer_def addTimer_obj_def Let_def obj_def)
  have sorted: "sorted_deadlines obj (m_timers s')" using tm_invD(1) [OF inv'] o' by simp
  have "m_timers s' \<noteq> []" unfolding xs by (rule set_insert_not_Nil)
  then obtain y ys where yy: "m_timers s' = y # ys" by (metis list.exhaust)
  have least: "m_next (obj y) \<le> m_next (obj u)" if "u \<in> set (m_timers s')" for u
    using sorted that yy by auto
  have ex: "\<exists>x \<in> set (m_timers s'). m_next (obj x) = m_next (obj t)"
  proof -
    have tn: "t \<notin> set (m_timers s)" using tm_invD(3) [OF tm_reach_inv [OF assms(1)]] t by fastforce
    have "sorted_deadlines obj (m_timers s)"
      using tm_invD(1) [OF tm_reach_inv [OF assms(1)]] tn t
      by (subst sorted_deadlines_cong [of _ _ "timer_obj s"]) (auto simp: obj_def)
    from set_set_insert [OF this, of t] show ?thesis unfolding xs by (auto split: if_splits)
  qed
  have "front \<longleftrightarrow> m_next (obj y) = m_next (obj t) \<and> \<not> m_tickled s"
    unfolding fr set_find_iff [OF sorted] by (simp add: yy)
  moreover have "m_next (obj y) = m_next (obj t) \<longleftrightarrow> (\<forall>u \<in> set (m_timers s'). m_next (obj t) \<le> m_next (obj u))"
    using least ex yy by (metis list.set_intros(1) order_antisym)
  ultimately show ?thesis using tk unfolding o' by auto
qed

theorem addTimer_tickles_once_witness:
  "\<exists>t s'. addTimer 0 5 (Some (Call (2::nat))) False (manager_ctor 0) = (t, True, s') \<and> m_tickled s'"
proof -
  obtain t front s' where ad: "addTimer 0 5 (Some (Call (2::nat))) False (manager_ctor 0) = (t, front, s')"
    by (metis prod_cases3)
  have "m_timers s' = [t]" using ad
    by (auto simp: addTimer_def addTimer_obj_def manager_ctor_def Let_def)
  with addTimer_tickles_once [OF tm_ctor ad] ad show ?thesis by (auto simp: manager_ctor_def)
qed

end

