(* ===== verification/Fiber.thy ===== *)
theory Fiber
  imports Prelude
begin

text \<open>
  The coroutines of \<^verbatim>\<open>src/CoroutineLibrary/fiber.h\<close> and \<^verbatim>\<open>fiber.cpp\<close>. The state holds every fiber
  object (by identity), the two atomic counters and, per thread, the \<^verbatim>\<open>thread_local\<close> pointers.
  What \<^verbatim>\<open>swapcontext\<close> does is explicit: a saved context is the place an execution goes on at, and
  \<open>exec\<close> is the stack the thread really runs on, which the pointers of the program are meant to
  agree with. The answers of \<^verbatim>\<open>getcontext\<close>, \<^verbatim>\<open>swapcontext\<close> and \<^verbatim>\<open>malloc\<close> are arguments.
\<close>

section \<open>State\<close>

datatype fiber_state = READY | RUNNING | TERMINATED

text \<open>The stack the kernel gave the thread, or the one a fiber allocated.\<close>

datatype stack_id = Native nat | Stack nat

text \<open>
  The contents of a \<^verbatim>\<open>ucontext_t\<close>: never filled, captured by \<^verbatim>\<open>getcontext\<close> in a constructor that
  has returned, made by \<^verbatim>\<open>makecontext\<close> to enter \<^verbatim>\<open>MainFunc\<close>, or saved by a \<^verbatim>\<open>swapcontext\<close> that
  ran on the given stack.
\<close>

datatype ucontext = Ctx_None | Ctx_Ctor | Ctx_Entry | Ctx_At stack_id

record 'c fiber =
  m_id :: u64
  m_stacksize :: u32
  m_state :: fiber_state
  m_ctx :: ucontext
  m_stack :: nat
  f_cb :: "'c option"
  m_runInScheduler :: bool

record tls =
  t_fiber :: "nat option"
  t_thread_fiber :: "nat option"
  t_scheduler_fiber :: "nat option"
  exec :: stack_id

record 'c fiber_sys =
  fibers :: "nat \<Rightarrow> 'c fiber"
  next_fiber :: nat
  s_fiber_id :: u64
  s_fiber_count :: u64
  tls :: "nat \<Rightarrow> tls"

definition no_fiber :: "'c fiber" where
  "no_fiber = \<lparr>m_id = 0, m_stacksize = 0, m_state = READY, m_ctx = Ctx_None, m_stack = 0,
     f_cb = None, m_runInScheduler = False\<rparr>"

definition fiber_sys_init :: "'c fiber_sys" where
  "fiber_sys_init = \<lparr>fibers = (\<lambda>_. no_fiber), next_fiber = 0, s_fiber_id = 0, s_fiber_count = 0,
     tls = (\<lambda>t. \<lparr>t_fiber = None, t_thread_fiber = None, t_scheduler_fiber = None, exec = Native t\<rparr>)\<rparr>"

definition upd_fiber :: "nat \<Rightarrow> ('c fiber \<Rightarrow> 'c fiber) \<Rightarrow> 'c fiber_sys \<Rightarrow> 'c fiber_sys" where
  "upd_fiber f g s = s\<lparr>fibers := (fibers s)(f := g (fibers s f))\<rparr>"

definition upd_tls :: "nat \<Rightarrow> (tls \<Rightarrow> tls) \<Rightarrow> 'c fiber_sys \<Rightarrow> 'c fiber_sys" where
  "upd_tls t g s = s\<lparr>tls := (tls s)(t := g (tls s t))\<rparr>"

section \<open>Operations\<close>

definition SetThis :: "nat \<Rightarrow> nat option \<Rightarrow> 'c fiber_sys \<Rightarrow> 'c fiber_sys" where
  "SetThis t f = upd_tls t (\<lambda>l. l\<lparr>t_fiber := f\<rparr>)"

definition SetSchedulerFiber :: "nat \<Rightarrow> nat option \<Rightarrow> 'c fiber_sys \<Rightarrow> 'c fiber_sys" where
  "SetSchedulerFiber t f = upd_tls t (\<lambda>l. l\<lparr>t_scheduler_fiber := f\<rparr>)"

definition GetFiberId :: "nat \<Rightarrow> 'c fiber_sys \<Rightarrow> u64" where
  "GetFiberId t s = (case t_fiber (tls s t) of Some f \<Rightarrow> m_id (fibers s f) | None \<Rightarrow> - 1)"

definition count_fiber :: "nat \<Rightarrow> 'c fiber_sys \<Rightarrow> 'c fiber_sys" where
  "count_fiber f s = (upd_fiber f (\<lambda>x. x\<lparr>m_id := s_fiber_id s\<rparr>) s)
     \<lparr>s_fiber_id := s_fiber_id s + 1, s_fiber_count := s_fiber_count s + 1\<rparr>"

text \<open>
  \<^verbatim>\<open>Fiber::Fiber()\<close>: no stack of its own; \<^verbatim>\<open>m_runInScheduler\<close> is left as memory has it (\<open>junk\<close>).
\<close>

definition main_fiber_ctor :: "nat \<Rightarrow> bool \<Rightarrow> bool \<Rightarrow> 'c fiber_sys \<Rightarrow> (nat \<times> 'c fiber_sys) result" where
  "main_fiber_ctor t ctx_ok junk s =
     (let f = next_fiber s;
          s1 = SetThis t (Some f) (s\<lparr>next_fiber := Suc f,
                 fibers := (fibers s)(f := no_fiber\<lparr>m_state := RUNNING, m_runInScheduler := junk\<rparr>)\<rparr>)
      in if \<not> ctx_ok then Inl Thread_Exit
         else Inr (f, count_fiber f (upd_fiber f (\<lambda>x. x\<lparr>m_ctx := Ctx_Ctor\<rparr>) s1)))"

definition GetThis :: "nat \<Rightarrow> bool \<Rightarrow> bool \<Rightarrow> 'c fiber_sys \<Rightarrow> (nat \<times> 'c fiber_sys) result" where
  "GetThis t ctx_ok junk s =
     (case t_fiber (tls s t) of
        Some f \<Rightarrow> Inr (f, s)
      | None \<Rightarrow> result_bind (main_fiber_ctor t ctx_ok junk s) (\<lambda>(m, s1).
          let s2 = upd_tls t (\<lambda>l. l\<lparr>t_thread_fiber := Some m, t_scheduler_fiber := Some m\<rparr>) s1
          in result_bind (fault_unless (t_fiber (tls s2 t) = Some m) Assert_Failed) (\<lambda>_. Inr (m, s2))))"

text \<open>\<^verbatim>\<open>Fiber::Fiber(cb, stacksize, run_in_scheduler)\<close>; \<open>stk\<close> is what \<^verbatim>\<open>malloc\<close> returns.\<close>

definition fiber_ctor :: "'c option \<Rightarrow> u64 \<Rightarrow> bool \<Rightarrow> nat \<Rightarrow> bool \<Rightarrow> 'c fiber_sys \<Rightarrow>
    (nat \<times> 'c fiber_sys) result" where
  "fiber_ctor cb stacksize run_in_scheduler stk ctx_ok s =
     (let f = next_fiber s;
          s1 = s\<lparr>next_fiber := Suc f, fibers := (fibers s)(f := no_fiber\<lparr>m_state := READY,
                 m_stacksize := (if stacksize \<noteq> 0 then ucast stacksize else 128000), m_stack := stk,
                 f_cb := cb, m_runInScheduler := run_in_scheduler\<rparr>)\<rparr>
      in if \<not> ctx_ok then Inl Thread_Exit
         else Inr (f, count_fiber f (upd_fiber f (\<lambda>x. x\<lparr>m_ctx := Ctx_Entry\<rparr>) s1)))"

definition fiber_dtor :: "nat \<Rightarrow> 'c fiber_sys \<Rightarrow> 'c fiber_sys" where
  "fiber_dtor f s = (upd_fiber f (\<lambda>x. no_fiber) s)\<lparr>s_fiber_count := s_fiber_count s - 1\<rparr>"

definition fiber_reset :: "nat \<Rightarrow> 'c option \<Rightarrow> bool \<Rightarrow> 'c fiber_sys \<Rightarrow> 'c fiber_sys result" where
  "fiber_reset f cb ctx_ok s =
     (if \<not> (m_stack (fibers s f) \<noteq> 0 \<and> m_state (fibers s f) = TERMINATED) then Inl Assert_Failed
      else if \<not> ctx_ok then Inl Thread_Exit
      else Inr (upd_fiber f (\<lambda>x. x\<lparr>m_state := READY, f_cb := cb, m_ctx := Ctx_Entry\<rparr>) s))"

text \<open>
  \<^verbatim>\<open>MainFunc\<close> up to the call of the callback: the callback it calls, and the fault when the
  function is empty (\<^verbatim>\<open>bad_function_call\<close> leaves a coroutine).
\<close>

definition MainFunc_enter :: "nat \<Rightarrow> 'c fiber_sys \<Rightarrow> ('c option \<times> 'c fiber_sys) result" where
  "MainFunc_enter t s =
     result_bind (GetThis t True False s) (\<lambda>(f, s1).
       case f_cb (fibers s1 f) of None \<Rightarrow> Inl Uncaught_Exception | Some c \<Rightarrow> Inr (Some c, s1))"

text \<open>
  \<^verbatim>\<open>swapcontext(&from->m_ctx, &to->m_ctx)\<close> on thread \<open>t\<close>: what runs is saved in \<open>from\<close>, and the
  thread goes on where \<open>to\<close>'s context says, which may be the start of \<^verbatim>\<open>MainFunc\<close>. A context
  that was never filled, that points into a returned constructor, or that has no stack is
  undefined behaviour. The first result is the callback that is started, if one is.
\<close>

definition swapcontext :: "nat \<Rightarrow> bool \<Rightarrow> nat \<Rightarrow> nat \<Rightarrow> 'c fiber_sys \<Rightarrow> ('c option \<times> 'c fiber_sys) result" where
  "swapcontext t ctx_ok from to s =
     (if \<not> ctx_ok then Inl Thread_Exit
      else let s1 = upd_fiber from (\<lambda>x. x\<lparr>m_ctx := Ctx_At (exec (tls s t))\<rparr>) s in
        case m_ctx (fibers s1 to) of
          Ctx_At k \<Rightarrow> Inr (None, upd_tls t (\<lambda>l. l\<lparr>exec := k\<rparr>) s1)
        | Ctx_Entry \<Rightarrow>
            if m_stack (fibers s1 to) = 0 then Inl Undefined_Behaviour
            else MainFunc_enter t (upd_tls t (\<lambda>l. l\<lparr>exec := Stack to\<rparr>) s1)
        | _ \<Rightarrow> Inl Undefined_Behaviour)"

definition fiber_resume :: "nat \<Rightarrow> bool \<Rightarrow> nat \<Rightarrow> 'c fiber_sys \<Rightarrow> ('c option \<times> 'c fiber_sys) result" where
  "fiber_resume t ctx_ok f s =
     (if m_state (fibers s f) \<noteq> READY then Inl Assert_Failed
      else
        let s1 = upd_fiber f (\<lambda>x. x\<lparr>m_state := RUNNING\<rparr>) s in
        if m_runInScheduler (fibers s f) then
          let s2 = SetThis t (Some f) s1 in
          case t_scheduler_fiber (tls s2 t) of
            None \<Rightarrow> Inl Null_Deref
          | Some c \<Rightarrow> swapcontext t ctx_ok c f s2
        else
          let s2 = SetThis t (Some f) s1 in
          case t_thread_fiber (tls s2 t) of
            None \<Rightarrow> Inl Null_Deref
          | Some m \<Rightarrow> swapcontext t ctx_ok m f s2)"

definition fiber_yield :: "nat \<Rightarrow> bool \<Rightarrow> nat \<Rightarrow> 'c fiber_sys \<Rightarrow> ('c option \<times> 'c fiber_sys) result" where
  "fiber_yield t ctx_ok f s =
     (if m_state (fibers s f) \<noteq> RUNNING \<and> m_state (fibers s f) \<noteq> TERMINATED then Inl Assert_Failed
      else
        let s1 = (if m_state (fibers s f) \<noteq> TERMINATED then upd_fiber f (\<lambda>x. x\<lparr>m_state := READY\<rparr>) s else s) in
        if m_runInScheduler (fibers s f) then
          let s2 = SetThis t (t_scheduler_fiber (tls s1 t)) s1 in
          case t_scheduler_fiber (tls s2 t) of
            None \<Rightarrow> Inl Null_Deref
          | Some c \<Rightarrow> swapcontext t ctx_ok f c s2
        else
          let s2 = SetThis t (t_thread_fiber (tls s1 t)) s1 in
          case t_thread_fiber (tls s2 t) of
            None \<Rightarrow> Inl Null_Deref
          | Some m \<Rightarrow> swapcontext t ctx_ok f m s2)"

text \<open>\<^verbatim>\<open>MainFunc\<close> from the return of the callback on.\<close>

definition MainFunc_exit :: "nat \<Rightarrow> bool \<Rightarrow> nat \<Rightarrow> 'c fiber_sys \<Rightarrow> ('c option \<times> 'c fiber_sys) result" where
  "MainFunc_exit t ctx_ok f s =
     fiber_yield t ctx_ok f (upd_fiber f (\<lambda>x. x\<lparr>f_cb := None, m_state := TERMINATED\<rparr>) s)"

text \<open>The fiber that \<open>f\<close> goes back to when it yields on thread \<open>t\<close>.\<close>

definition fiber_back :: "'c fiber_sys \<Rightarrow> nat \<Rightarrow> nat \<Rightarrow> nat option" where
  "fiber_back s t f =
     (if m_runInScheduler (fibers s f) then t_scheduler_fiber (tls s t) else t_thread_fiber (tls s t))"

section \<open>What a switch does\<close>

lemmas fiber_field_defs = upd_fiber_def upd_tls_def SetThis_def SetSchedulerFiber_def count_fiber_def

text \<open>The state after a switch on \<open>t\<close>: \<open>from\<close> saved, \<open>to\<close> current, execution going on at \<open>k\<close>.\<close>

definition switched :: "nat \<Rightarrow> nat \<Rightarrow> nat \<Rightarrow> stack_id \<Rightarrow> 'c fiber_sys \<Rightarrow> 'c fiber_sys" where
  "switched t from to k s = s\<lparr>
     fibers := (fibers s)(from := (fibers s from)\<lparr>m_ctx := Ctx_At (exec (tls s t))\<rparr>),
     tls := (tls s)(t := (tls s t)\<lparr>t_fiber := Some to, exec := k\<rparr>)\<rparr>"

text \<open>A fiber that can be resumed: fresh with a stack and a callback, or suspended on its own stack.\<close>

definition resumable :: "nat \<Rightarrow> 'c fiber \<Rightarrow> bool" where
  "resumable f x \<longleftrightarrow> m_ctx x = Ctx_At (Stack f) \<or>
     m_ctx x = Ctx_Entry \<and> m_stack x \<noteq> 0 \<and> f_cb x \<noteq> None"

lemma fiber_resume_result:
  assumes "m_state (fibers s f) = READY" "resumable f (fibers s f)" "fiber_back s t f = Some p" "p \<noteq> f"
  shows "fiber_resume t True f s =
    Inr (if m_ctx (fibers s f) = Ctx_Entry then f_cb (fibers s f) else None,
         switched t p f (Stack f) (upd_fiber f (\<lambda>x. x\<lparr>m_state := RUNNING\<rparr>) s))"
  using assms
  by (auto simp: fiber_resume_def fiber_back_def resumable_def swapcontext_def MainFunc_enter_def GetThis_def
      switched_def fiber_field_defs Let_def fun_upd_twist fun_upd_def cong: if_cong)

lemma fiber_yield_result:
  assumes "m_state (fibers s f) \<noteq> READY" "fiber_back s t f = Some p" "p \<noteq> f" "m_ctx (fibers s p) = Ctx_At k"
  shows "fiber_yield t True f s = Inr (None, switched t f p k
    (upd_fiber f (\<lambda>x. if m_state x = TERMINATED then x else x\<lparr>m_state := READY\<rparr>) s))"
  using assms
  by (cases "m_state (fibers s f)")
    (auto simp: fiber_yield_def fiber_back_def swapcontext_def switched_def fiber_field_defs Let_def)

section \<open>The discipline of use and the invariant\<close>

text \<open>
  The scheduler's use of fibers: a thread makes its main fiber first; a caller thread may get a
  scheduler fiber that runs from the main fiber; task fibers are resumed by the fiber the thread's
  \<^verbatim>\<open>t_scheduler_fiber\<close> names; any fiber but a main fiber may yield or return; a finished one
  may be reset.
\<close>

inductive fiber_step :: "'c fiber_sys \<Rightarrow> 'c fiber_sys \<Rightarrow> bool" where
  thread_start: "t_fiber (tls s t) = None \<Longrightarrow> GetThis t True junk s = Inr (m, s') \<Longrightarrow> fiber_step s s'"
| new_fiber: "stk \<noteq> 0 \<Longrightarrow> fiber_ctor (Some cb) sz True stk True s = Inr (f, s') \<Longrightarrow> fiber_step s s'"
| new_scheduler: "t_fiber (tls s t) = Some m \<Longrightarrow> t_thread_fiber (tls s t) = Some m \<Longrightarrow> stk \<noteq> 0 \<Longrightarrow>
    fiber_ctor (Some cb) 0 False stk True s = Inr (f, s1) \<Longrightarrow> fiber_step s (SetSchedulerFiber t (Some f) s1)"
| resume_task: "t_fiber (tls s t) = Some c \<Longrightarrow> t_scheduler_fiber (tls s t) = Some c \<Longrightarrow>
    f < next_fiber s \<Longrightarrow> m_runInScheduler (fibers s f) \<Longrightarrow>
    fiber_resume t True f s = Inr (r, s') \<Longrightarrow> fiber_step s s'"
| resume_scheduler: "t_fiber (tls s t) = Some m \<Longrightarrow> t_thread_fiber (tls s t) = Some m \<Longrightarrow>
    t_scheduler_fiber (tls s t) = Some c \<Longrightarrow> c \<noteq> m \<Longrightarrow>
    fiber_resume t True c s = Inr (r, s') \<Longrightarrow> fiber_step s s'"
| yield: "t_fiber (tls s t) = Some f \<Longrightarrow> t_thread_fiber (tls s t) \<noteq> Some f \<Longrightarrow>
    fiber_yield t True f s = Inr (r, s') \<Longrightarrow> fiber_step s s'"
| return_cb: "t_fiber (tls s t) = Some f \<Longrightarrow> t_thread_fiber (tls s t) \<noteq> Some f \<Longrightarrow>
    MainFunc_exit t True f s = Inr (r, s') \<Longrightarrow> fiber_step s s'"
| reset_fiber: "f < next_fiber s \<Longrightarrow> fiber_reset f (Some cb) True s = Inr s' \<Longrightarrow> fiber_step s s'"

inductive fiber_reach :: "'c fiber_sys \<Rightarrow> bool" where
  init: "fiber_reach fiber_sys_init"
| step: "fiber_reach s \<Longrightarrow> fiber_step s s' \<Longrightarrow> fiber_reach s'"

text \<open>The fibers whose activations are on thread \<open>t\<close>: main, then scheduler, then task.\<close>

definition fiber_chain :: "nat \<Rightarrow> nat \<Rightarrow> nat \<Rightarrow> nat set" where
  "fiber_chain m c f = (if f = m then {m} else {m, c, f})"

definition stack_on :: "nat \<Rightarrow> nat \<Rightarrow> nat \<Rightarrow> stack_id" where
  "stack_on t m g = (if g = m then Native t else Stack g)"

definition active :: "'c fiber_sys \<Rightarrow> nat \<Rightarrow> nat set" where
  "active s t = (case t_fiber (tls s t) of None \<Rightarrow> {}
     | Some f \<Rightarrow> fiber_chain (the (t_thread_fiber (tls s t))) (the (t_scheduler_fiber (tls s t))) f)"

definition chain_ok :: "'c fiber_sys \<Rightarrow> nat \<Rightarrow> nat \<Rightarrow> nat \<Rightarrow> nat \<Rightarrow> bool" where
  "chain_ok s t m c f \<longleftrightarrow> m < next_fiber s \<and> c < next_fiber s \<and> f < next_fiber s \<and>
     (c \<noteq> m \<longrightarrow> \<not> m_runInScheduler (fibers s c)) \<and>
     (f \<noteq> m \<and> f \<noteq> c \<longrightarrow> m_runInScheduler (fibers s f)) \<and>
     exec (tls s t) = stack_on t m f \<and>
     (\<forall>g \<in> fiber_chain m c f. m_state (fibers s g) = RUNNING \<and>
        (g \<noteq> f \<longrightarrow> m_ctx (fibers s g) = Ctx_At (stack_on t m g)))"

definition thread_ok :: "'c fiber_sys \<Rightarrow> nat \<Rightarrow> bool" where
  "thread_ok s t \<longleftrightarrow> (case t_fiber (tls s t) of
       None \<Rightarrow> exec (tls s t) = Native t
     | Some f \<Rightarrow> \<exists>m c. t_thread_fiber (tls s t) = Some m \<and> t_scheduler_fiber (tls s t) = Some c \<and>
         chain_ok s t m c f)"

definition fiber_inv :: "'c fiber_sys \<Rightarrow> bool" where
  "fiber_inv s \<longleftrightarrow> (\<forall>t. thread_ok s t) \<and>
     (\<forall>t1 t2. t1 \<noteq> t2 \<longrightarrow> active s t1 \<inter> active s t2 = {}) \<and>
     (\<forall>f < next_fiber s. m_state (fibers s f) = READY \<longrightarrow> resumable f (fibers s f))"

lemma fiber_inv_threadE:
  assumes "fiber_inv s" "t_fiber (tls s t) = Some f"
  obtains m c where "t_thread_fiber (tls s t) = Some m" "t_scheduler_fiber (tls s t) = Some c"
    "chain_ok s t m c f" "active s t = fiber_chain m c f"
  using assms by (auto simp: fiber_inv_def thread_ok_def active_def split: option.splits)
    (metis option.sel)

lemma active_running:
  assumes "fiber_inv s" "g \<in> active s t"
  shows "m_state (fibers s g) = RUNNING" "g < next_fiber s"
proof -
  from assms(2) obtain f where "t_fiber (tls s t) = Some f" by (auto simp: active_def split: option.splits)
  then show "m_state (fibers s g) = RUNNING" "g < next_fiber s"
    using assms(2) by (auto elim!: fiber_inv_threadE [OF assms(1)] simp: chain_ok_def fiber_chain_def split: if_splits)
qed

text \<open>
  The frame of a step on thread \<open>t\<close>: other threads keep their pointers, and only fibers that are
  active on \<open>t\<close>, not running, or new are written.
\<close>

definition fiber_frame :: "nat \<Rightarrow> 'c fiber_sys \<Rightarrow> 'c fiber_sys \<Rightarrow> bool" where
  "fiber_frame t s s' \<longleftrightarrow> next_fiber s \<le> next_fiber s' \<and> (\<forall>u. u \<noteq> t \<longrightarrow> tls s' u = tls s u) \<and>
     (\<forall>g < next_fiber s. m_runInScheduler (fibers s' g) = m_runInScheduler (fibers s g)) \<and>
     (\<forall>g < next_fiber s. fibers s' g \<noteq> fibers s g \<longrightarrow> g \<in> active s t \<or> m_state (fibers s g) \<noteq> RUNNING)"

lemma fiber_inv_frame:
  assumes inv: "fiber_inv s" and fr: "fiber_frame t s s'" and t: "thread_ok s' t"
    and act: "\<And>g. g \<in> active s' t \<Longrightarrow> g < next_fiber s \<Longrightarrow> g \<in> active s t \<or> m_state (fibers s g) \<noteq> RUNNING"
    and fib: "\<And>g. g < next_fiber s' \<Longrightarrow> m_state (fibers s' g) = READY \<Longrightarrow> resumable g (fibers s' g)"
  shows "fiber_inv s'"
proof -
  have disj: "active s t \<inter> active s u = {}" if "u \<noteq> t" for u
    using inv that unfolding fiber_inv_def by metis
  have same: "active s' u = active s u" if "u \<noteq> t" for u
  proof -
    have "tls s' u = tls s u" using fr that by (simp add: fiber_frame_def)
    then show ?thesis unfolding active_def by (simp only:)
  qed
  have fsame: "fibers s' g = fibers s g" if "u \<noteq> t" "g \<in> active s u" for u g
    using fr active_running [OF inv that(2)] disj [OF that(1)] that(2) unfolding fiber_frame_def by blast
  have ok: "thread_ok s' u" if u: "u \<noteq> t" for u
  proof (cases "t_fiber (tls s u)")
    case None
    moreover from inv have "thread_ok s u" by (simp add: fiber_inv_def)
    ultimately show ?thesis using fr u by (simp add: thread_ok_def fiber_frame_def)
  next
    case (Some f)
    show ?thesis
    proof (rule fiber_inv_threadE [OF inv Some])
      fix m c assume mc: "t_thread_fiber (tls s u) = Some m" "t_scheduler_fiber (tls s u) = Some c"
        "chain_ok s u m c f" "active s u = fiber_chain m c f"
      have tls: "tls s' u = tls s u" using fr u by (simp add: fiber_frame_def)
      have run: "m_runInScheduler (fibers s' g) = m_runInScheduler (fibers s g)" if "g < next_fiber s" for g
        using fr that by (simp add: fiber_frame_def)
      have "next_fiber s \<le> next_fiber s'" using fr by (simp add: fiber_frame_def)
      then have "chain_ok s' u m c f"
        using mc(3) run fsame [OF u, unfolded mc(4)] unfolding chain_ok_def tls by auto
      with mc Some tls show ?thesis by (simp add: thread_ok_def)
    qed
  qed
  have d: "active s' t \<inter> active s' u = {}" if u: "u \<noteq> t" for u
  proof -
    have False if "g \<in> active s' t" "g \<in> active s u" for g
      using act [OF that(1)] active_running [OF inv that(2)] disj [OF u] that(2) by auto
    with same [OF u] show ?thesis by auto
  qed
  have "active s' u \<inter> active s' v = {}" if "u \<noteq> v" for u v
    using d same that inv unfolding fiber_inv_def by (metis inf_commute)
  with ok t fib show ?thesis unfolding fiber_inv_def by (metis)
qed

section \<open>Every step keeps the invariant\<close>

lemma fiber_inv_init: "fiber_inv fiber_sys_init"
  by (simp add: fiber_inv_def fiber_sys_init_def thread_ok_def active_def)

lemma fiber_inv_resumable:
  "fiber_inv s \<Longrightarrow> f < next_fiber s \<Longrightarrow> m_state (fibers s f) = READY \<Longrightarrow> resumable f (fibers s f)"
  by (simp add: fiber_inv_def)

lemma fiber_inv_native:
  assumes "fiber_inv s" "t_fiber (tls s t) = None"
  shows "exec (tls s t) = Native t"
proof -
  from assms(1) have "thread_ok s t" by (simp add: fiber_inv_def)
  with assms(2) show ?thesis by (simp add: thread_ok_def)
qed

lemma GetThis_state:
  assumes "t_fiber (tls s t) = None" "GetThis t True junk s = Inr (m, s')"
  shows "m = next_fiber s" "next_fiber s' = Suc m"
    "tls s' = (tls s)(t := (tls s t)\<lparr>t_fiber := Some m, t_thread_fiber := Some m, t_scheduler_fiber := Some m\<rparr>)"
    "fibers s' = (fibers s)(m := \<lparr>m_id = s_fiber_id s, m_stacksize = 0, m_state = RUNNING,
       m_ctx = Ctx_Ctor, m_stack = 0, f_cb = None, m_runInScheduler = junk\<rparr>)"
  using assms
  by (auto simp: GetThis_def main_fiber_ctor_def fiber_field_defs no_fiber_def Let_def split: if_splits)

lemma fiber_inv_started:
  assumes inv: "fiber_inv s" and none: "t_fiber (tls s t) = None" and st: "GetThis t True junk s = Inr (m, s')"
  shows "fiber_inv s'"
proof -
  have exec: "exec (tls s t) = Native t" using inv none by (rule fiber_inv_native)
  note m = GetThis_state(1) [OF none st] and s' = GetThis_state(2-4) [OF none st]
  show ?thesis
  proof (rule fiber_inv_frame [OF inv, of t])
    show "fiber_frame t s s'" by (auto simp: fiber_frame_def s' m)
    show "thread_ok s' t" by (simp add: thread_ok_def s' chain_ok_def fiber_chain_def stack_on_def exec)
    show "g \<in> active s t \<or> m_state (fibers s g) \<noteq> RUNNING" if "g \<in> active s' t" "g < next_fiber s" for g
      using that by (simp add: active_def s' fiber_chain_def m)
    show "resumable g (fibers s' g)" if "g < next_fiber s'" "m_state (fibers s' g) = READY" for g
      using that fiber_inv_resumable [OF inv, of g] by (auto simp: s' m split: if_splits)
  qed
qed

lemma fiber_ctor_state:
  assumes "fiber_ctor cb sz rin stk True s = Inr (f, s')"
  shows "f = next_fiber s" "next_fiber s' = Suc (next_fiber s)" "tls s' = tls s"
    "fibers s' = (fibers s)(f := \<lparr>m_id = s_fiber_id s, m_stacksize = (if sz \<noteq> 0 then ucast sz else 128000),
       m_state = READY, m_ctx = Ctx_Entry, m_stack = stk, f_cb = cb, m_runInScheduler = rin\<rparr>)"
    "s_fiber_id s' = s_fiber_id s + 1" "s_fiber_count s' = s_fiber_count s + 1"
  using assms by (auto simp: fiber_ctor_def fiber_field_defs no_fiber_def Let_def)

lemma fiber_inv_ctor:
  assumes inv: "fiber_inv s" and ok: "stk \<noteq> 0"
    and st: "fiber_ctor (Some cb) sz rin stk True s = Inr (f, s')"
  shows "fiber_inv s'"
proof (rule fiber_inv_frame [OF inv, of t for t])
  note s' = fiber_ctor_state [OF st]
  show "fiber_frame t s s'" for t by (auto simp: fiber_frame_def s')
  have act: "active s' u = active s u" for u unfolding active_def s'(3) by simp
  show "thread_ok s' t" for t
  proof (cases "t_fiber (tls s t)")
    case None
    with fiber_inv_native [OF inv] s'(3) show ?thesis by (simp add: thread_ok_def)
  next
    case (Some h)
    show ?thesis
    proof (rule fiber_inv_threadE [OF inv Some])
      fix m c assume mc: "t_thread_fiber (tls s t) = Some m" "t_scheduler_fiber (tls s t) = Some c"
        "chain_ok s t m c h" "active s t = fiber_chain m c h"
      have "chain_ok s' t m c h"
        using mc(3) by (auto simp: chain_ok_def s' fiber_chain_def split: if_splits)
      with mc Some s'(3) show ?thesis by (simp add: thread_ok_def)
    qed
  qed
  show "g \<in> active s t \<or> m_state (fibers s g) \<noteq> RUNNING" if "g \<in> active s' t" for g t
    using that act by simp
  show "resumable g (fibers s' g)" if "g < next_fiber s'" "m_state (fibers s' g) = READY" for g
    using that fiber_inv_resumable [OF inv, of g] ok by (auto simp: s' resumable_def split: if_splits)
qed

lemma fiber_inv_set_scheduler:
  assumes inv: "fiber_inv s" and m: "t_fiber (tls s t) = Some m" "t_thread_fiber (tls s t) = Some m"
    and c: "c < next_fiber s" "\<not> m_runInScheduler (fibers s c)"
  shows "fiber_inv (SetSchedulerFiber t (Some c) s)"
proof (rule fiber_inv_frame [OF inv, of t])
  let ?s = "SetSchedulerFiber t (Some c) s"
  have s': "fibers ?s = fibers s" "next_fiber ?s = next_fiber s"
    "tls ?s = (tls s)(t := (tls s t)\<lparr>t_scheduler_fiber := Some c\<rparr>)" by (simp_all add: fiber_field_defs)
  show "fiber_frame t s ?s" by (auto simp: fiber_frame_def s')
  show "thread_ok ?s t"
    by (rule fiber_inv_threadE [OF inv m(1)])
      (use m c in \<open>auto simp: thread_ok_def s' chain_ok_def fiber_chain_def stack_on_def\<close>)
  show "g \<in> active s t \<or> m_state (fibers s g) \<noteq> RUNNING" if "g \<in> active ?s t" for g
    using that m by (simp add: active_def s' fiber_chain_def)
  show "resumable g (fibers ?s g)" if "g < next_fiber ?s" "m_state (fibers ?s g) = READY" for g
    using that fiber_inv_resumable [OF inv, of g] by (simp add: s')
qed

text \<open>A resume of \<open>f\<close> by the fiber \<open>p\<close> that is current on the thread and that \<open>f\<close> yields to.\<close>

lemma fiber_resume_current:
  assumes inv: "fiber_inv s" and p: "t_fiber (tls s t) = Some p" "fiber_back s t f = Some p"
    and f: "f < next_fiber s" "m_state (fibers s f) = READY"
  shows "fiber_resume t True f s =
    Inr (if m_ctx (fibers s f) = Ctx_Entry then f_cb (fibers s f) else None,
         switched t p f (Stack f) (upd_fiber f (\<lambda>x. x\<lparr>m_state := RUNNING\<rparr>) s))" "p \<noteq> f"
proof -
  have "p \<in> active s t" using p(1) by (auto simp: active_def fiber_chain_def)
  from active_running [OF inv this] f show pf: "p \<noteq> f" by auto
  show "fiber_resume t True f s =
    Inr (if m_ctx (fibers s f) = Ctx_Entry then f_cb (fibers s f) else None,
         switched t p f (Stack f) (upd_fiber f (\<lambda>x. x\<lparr>m_state := RUNNING\<rparr>) s))"
    by (rule fiber_resume_result [OF f(2) fiber_inv_resumable [OF inv f] p(2) pf])
qed

lemma fiber_inv_resume:
  assumes inv: "fiber_inv s" and p: "t_fiber (tls s t) = Some p" "fiber_back s t f = Some p"
    and f: "f < next_fiber s" and res: "fiber_resume t True f s = Inr (r, s')"
    and kind: "m_runInScheduler (fibers s f) \<or> t_scheduler_fiber (tls s t) = Some f"
  shows "fiber_inv s'"
proof -
  have ready: "m_state (fibers s f) = READY" using res by (simp add: fiber_resume_def split: if_splits)
  note cur = fiber_resume_current [OF inv p f ready]
  from cur(1) res have s'd: "s' = switched t p f (Stack f) (upd_fiber f (\<lambda>x. x\<lparr>m_state := RUNNING\<rparr>) s)"
    by simp
  have s': "next_fiber s' = next_fiber s" "tls s' = (tls s)(t := (tls s t)\<lparr>t_fiber := Some f, exec := Stack f\<rparr>)"
    "fibers s' = (fibers s)(f := (fibers s f)\<lparr>m_state := RUNNING\<rparr>, p := (fibers s p)\<lparr>m_ctx := Ctx_At (exec (tls s t))\<rparr>)"
    using cur(2) by (simp_all add: s'd switched_def fiber_field_defs)
  have pact: "p \<in> active s t" using p(1) by (auto simp: active_def fiber_chain_def)
  show ?thesis
  proof (rule fiber_inv_threadE [OF inv p(1)])
    fix m c assume mc: "t_thread_fiber (tls s t) = Some m" "t_scheduler_fiber (tls s t) = Some c"
      "chain_ok s t m c p" "active s t = fiber_chain m c p"
    have notact: "f \<notin> fiber_chain m c p" using active_running [OF inv, of _ t] ready mc(4) by force
    have pmc: "m_runInScheduler (fibers s f) \<and> p = c \<or> \<not> m_runInScheduler (fibers s f) \<and> p = m \<and> f = c"
      using p(2) mc(1,2) kind by (auto simp: fiber_back_def split: if_splits)
    show ?thesis
    proof (rule fiber_inv_frame [OF inv, of t])
      show "fiber_frame t s s'" using pact ready by (auto simp: fiber_frame_def s')
      have "chain_ok s' t m c f"
        using pmc
      proof
        assume "m_runInScheduler (fibers s f) \<and> p = c"
        then show ?thesis using mc(3) notact cur(2) f
          by (cases "c = m") (auto simp: chain_ok_def s' fiber_chain_def stack_on_def)
      next
        assume "\<not> m_runInScheduler (fibers s f) \<and> p = m \<and> f = c"
        then show ?thesis using mc(3) notact cur(2) f
          by (auto simp: chain_ok_def s' fiber_chain_def stack_on_def)
      qed
      then show "thread_ok s' t" using mc by (simp add: thread_ok_def s')
      show "g \<in> active s t \<or> m_state (fibers s g) \<noteq> RUNNING" if "g \<in> active s' t" for g
      proof -
        have "active s' t = fiber_chain m c f" using mc(1,2) by (simp add: active_def s'(2))
        with that have "g = f \<or> g = m \<or> g = c" by (auto simp: fiber_chain_def split: if_splits)
        moreover have "m \<in> fiber_chain m c p" "f = c \<or> c \<in> fiber_chain m c p" using pmc by (auto simp: fiber_chain_def)
        ultimately show ?thesis using ready mc(4) by auto
      qed
      show "resumable g (fibers s' g)" if "g < next_fiber s'" "m_state (fibers s' g) = READY" for g
        using that fiber_inv_resumable [OF inv, of g] active_running [OF inv pact]
        by (auto simp: s' split: if_splits)
    qed
  qed
qed

text \<open>The fiber a non-main fiber yields to: the scheduler's for a task, the main one for the scheduler's.\<close>

lemma fiber_back_chain:
  assumes inv: "fiber_inv s" and f: "t_fiber (tls s t) = Some f" "t_thread_fiber (tls s t) \<noteq> Some f"
  obtains m c p where "t_thread_fiber (tls s t) = Some m" "t_scheduler_fiber (tls s t) = Some c"
    "chain_ok s t m c f" "active s t = {m, c, f}" "fiber_back s t f = Some p" "p \<noteq> f"
    "f = c \<and> p = m \<or> f \<noteq> c \<and> p = c" "m_ctx (fibers s p) = Ctx_At (stack_on t m p)"
    "m_state (fibers s f) = RUNNING" "exec (tls s t) = Stack f"
proof (rule fiber_inv_threadE [OF inv f(1)])
  fix m c assume mc: "t_thread_fiber (tls s t) = Some m" "t_scheduler_fiber (tls s t) = Some c"
    "chain_ok s t m c f" "active s t = fiber_chain m c f"
  from f(2) mc(1) have fm: "f \<noteq> m" by simp
  let ?p = "if f = c then m else c"
  have "fiber_back s t f = Some ?p" using mc fm by (auto simp: fiber_back_def chain_ok_def)
  moreover have "m_ctx (fibers s ?p) = Ctx_At (stack_on t m ?p)"
    using mc(3) fm by (auto simp: chain_ok_def fiber_chain_def)
  moreover have "m_state (fibers s f) = RUNNING" "exec (tls s t) = Stack f"
    using mc(3) fm by (auto simp: chain_ok_def fiber_chain_def stack_on_def)
  ultimately show thesis using that [of m c ?p] mc fm by (auto simp: fiber_chain_def)
qed

lemma fiber_inv_leave:
  assumes inv: "fiber_inv s" and f: "t_fiber (tls s t) = Some f" "t_thread_fiber (tls s t) \<noteq> Some f"
    and p: "fiber_back s t f = Some p" and m: "t_thread_fiber (tls s t) = Some m"
    and s': "next_fiber s' = next_fiber s"
      "tls s' = (tls s)(t := (tls s t)\<lparr>t_fiber := Some p, exec := stack_on t m p\<rparr>)"
      "fibers s' = (fibers s)(f := x)"
    and x: "m_runInScheduler x = m_runInScheduler (fibers s f)" "m_state x \<noteq> RUNNING" "m_ctx x = Ctx_At (Stack f)"
  shows "fiber_inv s'"
proof (rule fiber_back_chain [OF inv f])
  fix m' c p' assume mc: "t_thread_fiber (tls s t) = Some m'" "t_scheduler_fiber (tls s t) = Some c"
    "chain_ok s t m' c f" "active s t = {m', c, f}" "fiber_back s t f = Some p'" "p' \<noteq> f"
    "f = c \<and> p' = m' \<or> f \<noteq> c \<and> p' = c"
  have eq: "m' = m" "p' = p" using mc p m by auto
  note mc = mc [unfolded eq]
  have act: "active s' t = fiber_chain m c p" using mc by (simp add: active_def s')
  show ?thesis
  proof (rule fiber_inv_frame [OF inv, of t])
    show "fiber_frame t s s'" using mc(4) x(1) by (auto simp: fiber_frame_def s')
    have fm: "f \<noteq> m" using f(2) mc(1) by simp
    have "chain_ok s' t m c p" using mc(7)
    proof
      assume "f = c \<and> p = m"
      then show ?thesis using mc(3) fm x(1) by (auto simp: chain_ok_def s' fiber_chain_def stack_on_def)
    next
      assume "f \<noteq> c \<and> p = c"
      then show ?thesis using mc(3) fm x(1) by (auto simp: chain_ok_def s' fiber_chain_def stack_on_def)
    qed
    then show "thread_ok s' t" using mc(1,2) by (simp add: thread_ok_def s')
    show "g \<in> active s t \<or> m_state (fibers s g) \<noteq> RUNNING" if "g \<in> active s' t" for g
      using that mc(7) unfolding act mc(4) by (auto simp: fiber_chain_def split: if_splits)
    show "resumable g (fibers s' g)" if "g < next_fiber s'" "m_state (fibers s' g) = READY" for g
      using that fiber_inv_resumable [OF inv, of g] x(3) by (auto simp: s' resumable_def split: if_splits)
  qed
qed

lemma fiber_yield_current:
  assumes inv: "fiber_inv s" and f: "t_fiber (tls s t) = Some f" "t_thread_fiber (tls s t) = Some m" "f \<noteq> m"
    and p: "fiber_back s t f = Some p"
  shows "fiber_yield t True f s = Inr (None, switched t f p (stack_on t m p)
      (upd_fiber f (\<lambda>x. x\<lparr>m_state := READY\<rparr>) s))"
    and "MainFunc_exit t True f s = Inr (None, switched t f p (stack_on t m p)
      (upd_fiber f (\<lambda>x. x\<lparr>f_cb := None, m_state := TERMINATED\<rparr>) s))"
    and "exec (tls s t) = Stack f"
proof -
  have ft: "t_thread_fiber (tls s t) \<noteq> Some f" using f by simp
  have all: "p \<noteq> f" "m_ctx (fibers s p) = Ctx_At (stack_on t m p)" "m_state (fibers s f) = RUNNING"
      "exec (tls s t) = Stack f"
    by (rule fiber_back_chain [OF inv f(1) ft]; use p f(2) in simp)+
  show "exec (tls s t) = Stack f" by (rule all)
  show "fiber_yield t True f s = Inr (None, switched t f p (stack_on t m p)
      (upd_fiber f (\<lambda>x. x\<lparr>m_state := READY\<rparr>) s))"
    using all p by (subst fiber_yield_result [of s f t p]) (simp_all add: upd_fiber_def)
  let ?s = "upd_fiber f (\<lambda>x. x\<lparr>f_cb := None, m_state := TERMINATED\<rparr>) s"
  have "fiber_back ?s t f = Some p" using p by (auto simp: fiber_back_def upd_fiber_def split: if_splits)
  then show "MainFunc_exit t True f s = Inr (None, switched t f p (stack_on t m p) ?s)"
    unfolding MainFunc_exit_def using all
    by (subst fiber_yield_result [of ?s f t p]) (simp_all add: upd_fiber_def)
qed

lemma fiber_inv_yield:
  assumes inv: "fiber_inv s" and f: "t_fiber (tls s t) = Some f" "t_thread_fiber (tls s t) \<noteq> Some f"
    and y: "fiber_yield t True f s = Inr (r, s') \<or> MainFunc_exit t True f s = Inr (r, s')"
  shows "fiber_inv s'"
proof (rule fiber_back_chain [OF inv f])
  fix m c p assume mc: "t_thread_fiber (tls s t) = Some m" "fiber_back s t f = Some p"
  have fm: "f \<noteq> m" using f mc by simp
  note cur = fiber_yield_current [OF inv f(1) mc(1) fm mc(2)]
  from y cur obtain st cb where
    "s' = switched t f p (stack_on t m p) (upd_fiber f (\<lambda>x. x\<lparr>f_cb := cb x, m_state := st\<rparr>) s)" "st \<noteq> RUNNING"
    by (elim disjE) (force intro: that [of READY f_cb] that [of TERMINATED "\<lambda>_. None"] simp: upd_fiber_def)+
  then show ?thesis
    by (intro fiber_inv_leave [OF inv f mc(2,1), where s' = s'
        and x = "(fibers s f)\<lparr>f_cb := cb (fibers s f), m_state := st, m_ctx := Ctx_At (Stack f)\<rparr>"])
      (simp_all add: switched_def upd_fiber_def cur(3))
qed

lemma fiber_inv_reset:
  assumes inv: "fiber_inv s" and f: "f < next_fiber s" "fiber_reset f (Some cb) True s = Inr s'"
  shows "fiber_inv s'"
proof -
  have s': "s' = upd_fiber f (\<lambda>x. x\<lparr>m_state := READY, f_cb := Some cb, m_ctx := Ctx_Entry\<rparr>) s"
    and fin: "m_state (fibers s f) = TERMINATED" "m_stack (fibers s f) \<noteq> 0"
    using f(2) by (auto simp: fiber_reset_def split: if_splits)
  have notact: "f \<notin> active s u" for u using active_running [OF inv] fin by fastforce
  have act: "active s' u = active s u" for u by (simp add: active_def s' upd_fiber_def cong: option.case_cong)
  show ?thesis
  proof (rule fiber_inv_frame [OF inv, of t for t])
    show "fiber_frame t s s'" for t using fin by (auto simp: fiber_frame_def s' upd_fiber_def)
    show "thread_ok s' t" for t
    proof (cases "t_fiber (tls s t)")
      case None
      with fiber_inv_native [OF inv] show ?thesis by (simp add: thread_ok_def s' upd_fiber_def)
    next
      case (Some h)
      show ?thesis
        by (rule fiber_inv_threadE [OF inv Some])
          (use notact [of t] Some in \<open>auto simp: thread_ok_def s' upd_fiber_def chain_ok_def\<close>)
    qed
    show "g \<in> active s t \<or> m_state (fibers s g) \<noteq> RUNNING" if "g \<in> active s' t" for g t using that act by simp
    show "resumable g (fibers s' g)" if "g < next_fiber s'" "m_state (fibers s' g) = READY" for g
      using that fiber_inv_resumable [OF inv, of g] fin by (auto simp: s' upd_fiber_def resumable_def split: if_splits)
  qed
qed

lemma fiber_inv_step:
  assumes inv: "fiber_inv s" and st: "fiber_step s s'"
  shows "fiber_inv s'"
  using st
proof cases
  case (new_scheduler t m stk cb f s1)
  note s1 = fiber_ctor_state [OF new_scheduler(5)]
  have "fiber_inv s1" by (rule fiber_inv_ctor [OF inv new_scheduler(4,5)])
  then show ?thesis unfolding new_scheduler(1)
    by (rule fiber_inv_set_scheduler [of _ _ m]) (use new_scheduler(2,3) s1 in simp_all)
next
  case (resume_task t c f r)
  then show ?thesis by (intro fiber_inv_resume [OF inv, of t c f r]) (simp_all add: fiber_back_def)
next
  case (resume_scheduler t m c r)
  have "c < next_fiber s" "\<not> m_runInScheduler (fibers s c)"
    by (rule fiber_inv_threadE [OF inv resume_scheduler(1)];
        use resume_scheduler in \<open>auto simp: chain_ok_def\<close>)+
  with resume_scheduler show ?thesis
    by (intro fiber_inv_resume [OF inv, of t m c r]) (simp_all add: fiber_back_def)
qed (auto intro: fiber_inv_started [OF inv] fiber_inv_ctor [OF inv] fiber_inv_yield [OF inv]
    fiber_inv_reset [OF inv])

lemma fiber_reach_inv: "fiber_reach s \<Longrightarrow> fiber_inv s"
  by (induction rule: fiber_reach.induct) (blast intro: fiber_inv_init fiber_inv_step)+

section \<open>Two threads at work\<close>

text \<open>
  A caller thread 0 with a scheduler fiber of its own (as \<^verbatim>\<open>Scheduler::Scheduler\<close> makes it with
  \<^verbatim>\<open>use_caller\<close>) and a worker thread 1, and two task fibers.
\<close>

definition demo_fibers :: "nat fiber_sys" where
  "demo_fibers =
     (let s0 = fiber_sys_init;
          s1 = (case GetThis 0 True False s0 of Inr (m, s) \<Rightarrow> s | _ \<Rightarrow> s0);
          s2 = (case fiber_ctor (Some 10) 0 False 1 True s1 of Inr (f, s) \<Rightarrow> SetSchedulerFiber 0 (Some f) s | _ \<Rightarrow> s1);
          s3 = (case GetThis 1 True True s2 of Inr (m, s) \<Rightarrow> s | _ \<Rightarrow> s2);
          s4 = (case fiber_ctor (Some 20) 0 True 2 True s3 of Inr (f, s) \<Rightarrow> s | _ \<Rightarrow> s3)
      in case fiber_ctor (Some 30) 0 True 3 True s4 of Inr (f, s) \<Rightarrow> s | _ \<Rightarrow> s4)"

lemmas fiber_eval = demo_fibers_def fiber_sys_init_def GetThis_def main_fiber_ctor_def fiber_ctor_def
  fiber_field_defs no_fiber_def Let_def

lemma GetThis_returns: "\<exists>m s'. GetThis t True junk s = Inr (m, s')"
  by (cases "t_fiber (tls s t)") (simp_all add: GetThis_def main_fiber_ctor_def fiber_field_defs Let_def)

lemma demo_fibers_reach: "fiber_reach demo_fibers"
proof -
  obtain m1 s1 where 1: "GetThis 0 True False (fiber_sys_init :: nat fiber_sys) = Inr (m1, s1)"
    by (simp add: fiber_eval)
  obtain f2 s2 where 2: "fiber_ctor (Some 10) 0 False 1 True s1 = Inr (f2, s2)"
    by (simp add: fiber_ctor_def Let_def)
  obtain m3 s3 where 3: "GetThis 1 True True (SetSchedulerFiber 0 (Some f2) s2) = Inr (m3, s3)"
    using GetThis_returns by metis
  obtain f4 s4 where 4: "fiber_ctor (Some 20) 0 True 2 True s3 = Inr (f4, s4)"
    by (simp add: fiber_ctor_def Let_def)
  obtain f5 s5 where 5: "fiber_ctor (Some 30) 0 True 3 True s4 = Inr (f5, s5)"
    by (simp add: fiber_ctor_def Let_def)
  have s1: "tls s1 = (tls (fiber_sys_init :: nat fiber_sys))(0 := \<lparr>t_fiber = Some m1, t_thread_fiber = Some m1,
      t_scheduler_fiber = Some m1, exec = Native 0\<rparr>)"
    using GetThis_state(3) [OF _ 1] by (simp add: fiber_sys_init_def)
  have s2: "tls s2 = tls s1" by (rule fiber_ctor_state(3) [OF 2])
  have t0: "t_fiber (tls s1 0) = Some m1" "t_thread_fiber (tls s1 0) = Some m1" by (simp_all add: s1)
  have t3: "t_fiber (tls (fiber_sys_init :: nat fiber_sys) 0) = None" by (simp add: fiber_sys_init_def)
  have t4: "t_fiber (tls (SetSchedulerFiber 0 (Some f2) s2) 1) = None"
    by (simp add: s1 s2 SetSchedulerFiber_def upd_tls_def fiber_sys_init_def)
  have "fiber_reach s1" by (rule fiber_reach.step [OF fiber_reach.init fiber_step.thread_start [OF t3 1]])
  then have "fiber_reach (SetSchedulerFiber 0 (Some f2) s2)"
    by (rule fiber_reach.step [OF _ fiber_step.new_scheduler [OF t0(1,2) _ 2]]) simp
  then have "fiber_reach s3" by (rule fiber_reach.step [OF _ fiber_step.thread_start [OF t4 3]])
  then have "fiber_reach s4" by (rule fiber_reach.step [OF _ fiber_step.new_fiber [OF _ 4]]) simp
  then have "fiber_reach s5" by (rule fiber_reach.step [OF _ fiber_step.new_fiber [OF _ 5]]) simp
  moreover have "demo_fibers = s5" using 1 2 3 4 5 by (simp add: demo_fibers_def)
  ultimately show ?thesis by simp
qed

section \<open>Properties\<close>

text \<open>
  C6. Whatever the threads do under the scheduler's discipline: the stack a started thread really
  runs on is the one of the fiber \<^verbatim>\<open>t_fiber\<close> names, that fiber is \<^verbatim>\<open>RUNNING\<close>, and no fiber is
  current, or waiting for a fiber it resumed, on two threads at once.
\<close>

theorem fibers_run_on_own_stack:
  assumes "fiber_reach s" "t_fiber (tls s t) = Some f"
  shows "exec (tls s t) = (if t_thread_fiber (tls s t) = Some f then Native t else Stack f) \<and>
    m_state (fibers s f) = RUNNING \<and> (\<forall>u. u \<noteq> t \<longrightarrow> active s t \<inter> active s u = {})"
proof -
  note inv = fiber_reach_inv [OF assms(1)]
  have "exec (tls s t) = (if t_thread_fiber (tls s t) = Some f then Native t else Stack f)"
    by (rule fiber_inv_threadE [OF inv assms(2)]) (auto simp: chain_ok_def stack_on_def)
  moreover have "m_state (fibers s f) = RUNNING"
    by (rule active_running(1) [OF inv, of _ t]) (use assms(2) in \<open>auto simp: active_def fiber_chain_def\<close>)
  ultimately show ?thesis using inv unfolding fiber_inv_def by blast
qed

theorem fibers_run_on_own_stack_witness:
  "exec (tls demo_fibers 1) = Native 1 \<and> active demo_fibers 0 \<inter> active demo_fibers 1 = {}"
proof -
  have f: "t_fiber (tls demo_fibers 1) = Some 2" "t_thread_fiber (tls demo_fibers 1) = Some 2"
    by (simp_all add: fiber_eval)
  note own = fibers_run_on_own_stack [OF demo_fibers_reach f(1)]
  have "exec (tls demo_fibers 1) = Native 1" using own unfolding f(2) by (simp only: if_True refl)
  moreover have "active demo_fibers 1 \<inter> active demo_fibers 0 = {}"
    using own by (metis zero_neq_one)
  ultimately show ?thesis by (simp only: Int_commute)
qed

text \<open>
  A task fiber is never lost and never faults: when the thread is in its scheduler fiber \<open>c\<close>,
  resuming a ready task moves the thread to the task's stack, starting its callback if it is fresh
  and going on after its last \<^verbatim>\<open>yield\<close> otherwise; and from whatever state the threads have reached
  while the task is current, its \<^verbatim>\<open>yield\<close> brings the thread back to \<open>c\<close> on \<open>c\<close>'s stack and
  leaves the task ready to be resumed by any thread, its return leaves it finished.
\<close>

theorem task_resume_and_yield:
  fixes s :: "'c fiber_sys"
  assumes "fiber_reach s" "t_fiber (tls s t) = Some c" "t_scheduler_fiber (tls s t) = Some c"
    and "f < next_fiber s" "m_runInScheduler (fibers s f)" "m_state (fibers s f) = READY"
  shows "\<exists>s1. fiber_resume t True f s =
      Inr (if m_ctx (fibers s f) = Ctx_Entry then f_cb (fibers s f) else None, s1) \<and>
    fiber_reach s1 \<and> t_fiber (tls s1 t) = Some f \<and> exec (tls s1 t) = Stack f \<and>
    (\<forall>s2 :: 'c fiber_sys. fiber_reach s2 \<and> tls s2 t = tls s1 t \<and>
        m_runInScheduler (fibers s2 f) \<and> f \<noteq> the (t_thread_fiber (tls s2 t)) \<longrightarrow>
      (\<exists>s3 s4. fiber_yield t True f s2 = Inr (None, s3) \<and> fiber_reach s3 \<and>
         t_fiber (tls s3 t) = Some c \<and> exec (tls s3 t) = exec (tls s t) \<and>
         m_state (fibers s3 f) = READY \<and> m_ctx (fibers s3 f) = Ctx_At (Stack f) \<and>
         MainFunc_exit t True f s2 = Inr (None, s4) \<and> fiber_reach s4 \<and>
         t_fiber (tls s4 t) = Some c \<and> exec (tls s4 t) = exec (tls s t) \<and>
         m_state (fibers s4 f) = TERMINATED))"
proof -
  note inv = fiber_reach_inv [OF assms(1)]
  have bk: "fiber_back s t f = Some c" using assms(3,5) by (simp add: fiber_back_def)
  note res = fiber_resume_current [OF inv assms(2) bk assms(4,6)]
  let ?s1 = "switched t c f (Stack f) (upd_fiber f (\<lambda>x. x\<lparr>m_state := RUNNING\<rparr>) s)"
  have r1: "fiber_reach ?s1"
    by (rule fiber_reach.step [OF assms(1) fiber_step.resume_task [OF assms(2,3,4,5) res(1)]])
  have tl: "tls ?s1 t = (tls s t)\<lparr>t_fiber := Some f, exec := Stack f\<rparr>" by (simp add: switched_def upd_fiber_def)
  obtain m where m: "t_thread_fiber (tls s t) = Some m" "exec (tls s t) = stack_on t m c"
    by (rule fiber_inv_threadE [OF inv assms(2)]) (auto simp: chain_ok_def)
  have leave: "\<exists>s3 s4. fiber_yield t True f s2 = Inr (None, s3) \<and> fiber_reach s3 \<and>
         t_fiber (tls s3 t) = Some c \<and> exec (tls s3 t) = exec (tls s t) \<and>
         m_state (fibers s3 f) = READY \<and> m_ctx (fibers s3 f) = Ctx_At (Stack f) \<and>
         MainFunc_exit t True f s2 = Inr (None, s4) \<and> fiber_reach s4 \<and>
         t_fiber (tls s4 t) = Some c \<and> exec (tls s4 t) = exec (tls s t) \<and>
         m_state (fibers s4 f) = TERMINATED"
    if s2: "fiber_reach s2" "tls s2 t = tls ?s1 t" "m_runInScheduler (fibers s2 f)"
      "f \<noteq> the (t_thread_fiber (tls s2 t))" for s2 :: "'c fiber_sys"
  proof -
    have l: "t_fiber (tls s2 t) = Some f" "t_thread_fiber (tls s2 t) = Some m" "f \<noteq> m"
      "fiber_back s2 t f = Some c" "t_thread_fiber (tls s2 t) \<noteq> Some f"
      using s2(2,3,4) tl m assms(3) by (auto simp: fiber_back_def)
    note y = fiber_yield_current [OF fiber_reach_inv [OF s2(1)] l(1-4)]
    have "fiber_reach (switched t f c (stack_on t m c) (upd_fiber f (\<lambda>x. x\<lparr>m_state := READY\<rparr>) s2))"
      by (rule fiber_reach.step [OF s2(1) fiber_step.yield [OF l(1,5) y(1)]])
    moreover have "fiber_reach (switched t f c (stack_on t m c)
        (upd_fiber f (\<lambda>x. x\<lparr>f_cb := None, m_state := TERMINATED\<rparr>) s2))"
      by (rule fiber_reach.step [OF s2(1) fiber_step.return_cb [OF l(1,5) y(2)]])
    ultimately show ?thesis using y m by (simp add: switched_def upd_fiber_def)
  qed
  show ?thesis
    by (rule exI [of _ ?s1]) (use res(1) r1 tl leave in auto)
qed

theorem task_resume_and_yield_witness:
  "\<exists>s1 s3. fiber_resume 1 True 3 demo_fibers = Inr (Some 20, s1) \<and>
     fiber_yield 1 True 3 s1 = Inr (None, s3) \<and> exec (tls s3 1) = Native 1"
proof -
  have h: "t_fiber (tls demo_fibers 1) = Some 2" "t_scheduler_fiber (tls demo_fibers 1) = Some 2"
    "3 < next_fiber demo_fibers" "m_runInScheduler (fibers demo_fibers 3)"
    "m_state (fibers demo_fibers 3) = READY" and v: "m_ctx (fibers demo_fibers 3) = Ctx_Entry"
    "f_cb (fibers demo_fibers 3) = Some 20" "exec (tls demo_fibers 1) = Native 1"
    by (simp_all add: fiber_eval)
  from task_resume_and_yield [OF demo_fibers_reach h] v obtain s1 where
    s1: "fiber_resume 1 True 3 demo_fibers = Inr (Some 20, s1)" "fiber_reach s1"
    and nxt: "\<forall>s2 :: nat fiber_sys. fiber_reach s2 \<and> tls s2 1 = tls s1 1 \<and> m_runInScheduler (fibers s2 3) \<and>
        3 \<noteq> the (t_thread_fiber (tls s2 1)) \<longrightarrow>
      (\<exists>s3. fiber_yield 1 True 3 s2 = Inr (None, s3) \<and> exec (tls s3 1) = Native 1)"
    by auto blast
  have "m_runInScheduler (fibers s1 3)" "t_thread_fiber (tls s1 1) = Some 2"
    using s1(1) by (auto simp: fiber_eval fiber_resume_def swapcontext_def MainFunc_enter_def)
  with nxt [THEN spec, of s1, THEN mp] s1 obtain s3 where
    "fiber_yield 1 True 3 s1 = Inr (None, s3)" "exec (tls s3 1) = Native 1" by auto
  with s1(1) show ?thesis by blast
qed

text \<open>
  Outside the discipline the scheduler's context is lost: a task that itself resumes another
  \<^verbatim>\<open>run_in_scheduler\<close> fiber saves its own place in the scheduler fiber's context. When the inner
  fiber yields, \<^verbatim>\<open>t_fiber\<close> says the scheduler fiber while the outer task's stack runs, and the outer
  task, still marked \<^verbatim>\<open>RUNNING\<close>, yields to itself for ever: the thread never gets back to its scheduler.
\<close>

theorem nested_resume_loses_scheduler:
  "\<exists>s1 s2 s3 s4. fiber_resume 1 True 3 demo_fibers = Inr (Some 20, s1) \<and>
     fiber_resume 1 True 4 s1 = Inr (Some 30, s2) \<and>
     fiber_yield 1 True 4 s2 = Inr (None, s3) \<and>
     t_fiber (tls s3 1) = Some 2 \<and> exec (tls s3 1) = Stack 3 \<and>
     fiber_yield 1 True 3 s3 = Inr (None, s4) \<and> exec (tls s4 1) = Stack 3 \<and>
     (\<forall>f. m_ctx (fibers s4 f) \<noteq> Ctx_At (Native 1))"
  by (simp add: fiber_eval fiber_resume_def fiber_yield_def swapcontext_def MainFunc_enter_def)

end
