(* ===== verification/Scheduler.thy ===== *)
theory Scheduler
  imports Fiber "HOL-Library.Multiset"
begin

text \<open>
  The scheduler of \<^verbatim>\<open>src/CoroutineLibrary/scheduler.h\<close> and \<^verbatim>\<open>scheduler.cpp\<close>: the task queue, the
  worker loop \<^verbatim>\<open>run\<close>, and starting and stopping. Each critical section and each access to an
  atomic counter is one step of a worker, so that the steps of the workers interleave as threads
  do. Thread ids are \<^verbatim>\<open>pid_t\<close> values (32 bits), the counters \<^verbatim>\<open>size_t\<close>. The fields \<open>scheduled\<close>
  and \<open>finished\<close> only record what happened.
\<close>

section \<open>State\<close>

type_synonym tid = "32 word"

record 'c sched_task =
  tk_fiber :: "nat option"
  tk_cb :: "'c option"
  tk_thread :: tid

text \<open>
  Where a worker is in \<^verbatim>\<open>run\<close>: at the top of the loop; with the outcome of the queue scan and
  \<^verbatim>\<open>tickle_me\<close>; about to take the mutex of the task's fiber; inside \<^verbatim>\<open>resume\<close>, holding it; past
  the release of it; inside the idle fiber; out of the loop.
\<close>

datatype 'c worker_pc =
    At_Loop
  | Picked "'c sched_task option" bool
  | Locking "'c sched_task" nat
  | Resumed "'c sched_task" nat
  | Unlocked "'c sched_task"
  | In_Idle
  | Exited

record 'c scheduler =
  m_tasks :: "'c sched_task list"
  m_threads :: "tid list"
  m_threadIds :: "tid list"
  m_threadCount :: nat
  m_activeThreadCount :: u64
  m_idleThreadCount :: u64
  m_useCaller :: bool
  m_schedulerFiber :: bool
  schedulerFiber_ready :: bool
  m_rootThread :: tid
  m_stopping :: bool
  t_scheduler :: "tid \<Rightarrow> bool"
  worker :: "tid \<Rightarrow> 'c worker_pc option"
  idle_term :: "tid \<Rightarrow> bool"
  fib_state :: "nat \<Rightarrow> fiber_state"
  fib_mutex :: "nat \<Rightarrow> tid option"
  fib_next :: nat
  tickles :: nat
  scheduled :: "'c sched_task multiset"
  finished :: "'c sched_task multiset"

section \<open>Operations\<close>

text \<open>
  \<^verbatim>\<open>Scheduler::Scheduler\<close> on thread \<open>w\<close>; \<open>t_scheduler\<close> says on which threads \<^verbatim>\<open>GetThis()\<close> is
  this scheduler.
\<close>

definition scheduler_ctor :: "nat \<Rightarrow> bool \<Rightarrow> tid \<Rightarrow> 'c scheduler result" where
  "scheduler_ctor threads use_caller w =
     (if threads = 0 then Inl Assert_Failed
      else Inr \<lparr>m_tasks = [], m_threads = [], m_threadIds = (if use_caller then [w] else []),
        m_threadCount = (if use_caller then threads - 1 else threads), m_activeThreadCount = 0,
        m_idleThreadCount = 0, m_useCaller = use_caller, m_schedulerFiber = use_caller, schedulerFiber_ready = use_caller,
        m_rootThread = (if use_caller then w else - 1), m_stopping = False,
        t_scheduler = (\<lambda>u. u = w), worker = (\<lambda>_. None), idle_term = (\<lambda>_. False),
        fib_state = (\<lambda>_. READY), fib_mutex = (\<lambda>_. None), fib_next = 0, tickles = 0,
        scheduled = {#}, finished = {#}\<rparr>)"

definition tickle :: "'c scheduler \<Rightarrow> 'c scheduler" where
  "tickle s = s\<lparr>tickles := Suc (tickles s)\<rparr>"

definition scheduleLock :: "'c sched_task \<Rightarrow> 'c scheduler \<Rightarrow> 'c scheduler" where
  "scheduleLock task s =
     (let need_tickle = (m_tasks s = []);
          s1 = (if tk_fiber task \<noteq> None \<or> tk_cb task \<noteq> None
                then s\<lparr>m_tasks := m_tasks s @ [task], scheduled := add_mset task (scheduled s)\<rparr> else s)
      in if need_tickle then tickle s1 else s1)"

definition stopping :: "'c scheduler \<Rightarrow> bool" where
  "stopping s \<longleftrightarrow> m_stopping s \<and> m_tasks s = [] \<and> m_activeThreadCount s = 0"

text \<open>A thread enters \<^verbatim>\<open>run\<close>: \<^verbatim>\<open>SetThis\<close> and a fresh idle fiber.\<close>

definition run_enter :: "tid \<Rightarrow> 'c scheduler \<Rightarrow> 'c scheduler" where
  "run_enter w s = s\<lparr>t_scheduler := (t_scheduler s)(w := True),
     worker := (worker s)(w \<mapsto> At_Loop), idle_term := (idle_term s)(w := False)\<rparr>"

text \<open>\<^verbatim>\<open>start\<close>; \<open>ids\<close> are the thread ids the kernel gives, one per created thread.\<close>

definition start :: "tid list \<Rightarrow> 'c scheduler \<Rightarrow> 'c scheduler result" where
  "start ids s =
     (if m_stopping s then Inr s
      else if m_threads s \<noteq> [] then Inl Assert_Failed
      else let new = take (m_threadCount s) ids
        in Inr (fold run_enter new (s\<lparr>m_threads := new, m_threadIds := m_threadIds s @ new\<rparr>)))"

text \<open>
  The scan of the queue: the task taken, the queue without it, and \<^verbatim>\<open>tickle_me\<close> (a task of another
  thread was skipped, or one follows the task taken: after \<^verbatim>\<open>erase\<close> the iterator stands on the
  next element).
\<close>

fun pick_task :: "tid \<Rightarrow> 'c sched_task list \<Rightarrow> ('c sched_task option \<times> 'c sched_task list \<times> bool) result" where
  "pick_task w [] = Inr (None, [], False)"
| "pick_task w (x # xs) =
     (if tk_thread x \<noteq> - 1 \<and> tk_thread x \<noteq> w
      then result_bind (pick_task w xs) (\<lambda>(r, ys, t). Inr (r, x # ys, True))
      else if tk_fiber x = None \<and> tk_cb x = None then Inl Assert_Failed
      else Inr (Some x, xs, xs \<noteq> []))"

definition set_worker :: "tid \<Rightarrow> 'c worker_pc \<Rightarrow> 'c scheduler \<Rightarrow> 'c scheduler" where
  "set_worker w pc s = s\<lparr>worker := (worker s)(w \<mapsto> pc)\<rparr>"

text \<open>The critical section at the top of the loop.\<close>

definition run_pick :: "tid \<Rightarrow> 'c scheduler \<Rightarrow> 'c scheduler result" where
  "run_pick w s = result_bind (pick_task w (m_tasks s)) (\<lambda>(r, ys, tickle_me).
     Inr (set_worker w (Picked r tickle_me) (s\<lparr>m_tasks := ys,
       m_activeThreadCount := (if r \<noteq> None then m_activeThreadCount s + 1 else m_activeThreadCount s)\<rparr>)))"

text \<open>
  The dispatch on what was picked: a fiber task goes for the fiber's mutex, a callback gets a new
  fiber first, no task enters the idle fiber or, when that one has finished, leaves the loop.
\<close>

definition run_dispatch :: "tid \<Rightarrow> 'c sched_task option \<Rightarrow> bool \<Rightarrow> 'c scheduler \<Rightarrow> 'c scheduler" where
  "run_dispatch w r tickle_me s =
     (let s1 = (if tickle_me then tickle s else s) in
      case r of
        Some task \<Rightarrow>
          (case tk_fiber task of
             Some f \<Rightarrow> set_worker w (Locking task f) s1
           | None \<Rightarrow> set_worker w (Locking task (fib_next s1)) (s1\<lparr>fib_next := Suc (fib_next s1),
               fib_state := (fib_state s1)(fib_next s1 := READY),
               fib_mutex := (fib_mutex s1)(fib_next s1 := None)\<rparr>))
      | None \<Rightarrow>
          if idle_term s1 w then set_worker w Exited s1
          else set_worker w In_Idle (s1\<lparr>m_idleThreadCount := m_idleThreadCount s1 + 1\<rparr>))"

text \<open>
  The mutex is free: a fiber task whose fiber has finished is dropped, any other fiber is resumed;
  the fiber of a callback is resumed in any case.
\<close>

definition run_lock :: "tid \<Rightarrow> 'c sched_task \<Rightarrow> nat \<Rightarrow> 'c scheduler \<Rightarrow> 'c scheduler result" where
  "run_lock w task f s =
     (if tk_fiber task \<noteq> None \<and> fib_state s f = TERMINATED then Inr (set_worker w (Unlocked task) s)
      else if fib_state s f \<noteq> READY then Inl Assert_Failed
      else Inr (set_worker w (Resumed task f) (s\<lparr>fib_mutex := (fib_mutex s)(f \<mapsto> w),
        fib_state := (fib_state s)(f := RUNNING)\<rparr>)))"

text \<open>The fiber gave the thread back (\<^verbatim>\<open>READY\<close> by a yield, \<^verbatim>\<open>TERM\<close> by its end); the mutex is released.\<close>

definition run_unlock :: "tid \<Rightarrow> 'c sched_task \<Rightarrow> nat \<Rightarrow> fiber_state \<Rightarrow> 'c scheduler \<Rightarrow> 'c scheduler" where
  "run_unlock w task f st s = set_worker w (Unlocked task) (s\<lparr>fib_mutex := (fib_mutex s)(f := None),
     fib_state := (fib_state s)(f := st)\<rparr>)"

definition run_done :: "tid \<Rightarrow> 'c sched_task \<Rightarrow> 'c scheduler \<Rightarrow> 'c scheduler" where
  "run_done w task s = set_worker w At_Loop (s\<lparr>m_activeThreadCount := m_activeThreadCount s - 1,
     finished := add_mset task (finished s)\<rparr>)"

text \<open>One activation of \<^verbatim>\<open>Scheduler::idle\<close>: it ends when \<^verbatim>\<open>stopping()\<close> holds, and yields otherwise.\<close>

definition run_idle :: "tid \<Rightarrow> 'c scheduler \<Rightarrow> 'c scheduler" where
  "run_idle w s = set_worker w At_Loop (s\<lparr>m_idleThreadCount := m_idleThreadCount s - 1,
     idle_term := (if stopping s then (idle_term s)(w := True) else idle_term s)\<rparr>)"

text \<open>
  \<^verbatim>\<open>stop\<close> on thread \<open>w\<close> up to its blocking part: it returns at once (\<open>False\<close>) or asks every worker
  to wake up; then the scheduler fiber, when there is one, is resumed (its \<^verbatim>\<open>assert\<close> wants a
  fiber that was not resumed before) and enters \<^verbatim>\<open>run\<close> on this thread. What it waits for is
  \<open>stop_joined\<close>.
\<close>

definition stop :: "tid \<Rightarrow> 'c scheduler \<Rightarrow> (bool \<times> 'c scheduler) result" where
  "stop w s =
     (if stopping s then Inr (False, s)
      else
        let s1 = s\<lparr>m_stopping := True\<rparr> in
        if m_useCaller s \<and> \<not> t_scheduler s1 w then Inl Assert_Failed
        else if \<not> m_useCaller s \<and> t_scheduler s1 w then Inl Assert_Failed
        else
          let s2 = (tickle ^^ m_threadCount s1) s1 in
          if \<not> m_schedulerFiber s2 then Inr (True, s2)
          else if \<not> schedulerFiber_ready s2 then Inl Assert_Failed
          else Inr (True, run_enter w (tickle s2\<lparr>schedulerFiber_ready := False\<rparr>)))"

definition stop_joined :: "tid \<Rightarrow> 'c scheduler \<Rightarrow> bool" where
  "stop_joined w s \<longleftrightarrow> (m_schedulerFiber s \<longrightarrow> worker s w = Some Exited) \<and>
     (\<forall>u \<in> set (m_threads s). worker s u = Some Exited)"


section \<open>Steps of the threads\<close>

text \<open>A fiber made for a callback is known to nobody else before it is resumed.\<close>

definition private_fiber :: "'c scheduler \<Rightarrow> nat \<Rightarrow> bool" where
  "private_fiber s f \<longleftrightarrow> (\<exists>w x. worker s w = Some (Locking x f) \<and> tk_fiber x = None)"

text \<open>
  The first rules are the program around the scheduler: any thread may make a fiber, reset a
  finished one, schedule a task, start or stop the scheduler. The others are the steps of a worker.
\<close>

inductive sched_step :: "'c scheduler \<Rightarrow> 'c scheduler \<Rightarrow> bool" where
  make_fiber: "sched_step s (s\<lparr>fib_next := Suc (fib_next s)\<rparr>)"
| reset_task_fiber: "fib_state s f = TERMINATED \<Longrightarrow> sched_step s (s\<lparr>fib_state := (fib_state s)(f := READY)\<rparr>)"
| schedule: "(\<And>f. tk_fiber x = Some f \<Longrightarrow> f < fib_next s \<and> \<not> private_fiber s f) \<Longrightarrow>
    sched_step s (scheduleLock x s)"
| start: "distinct ids \<Longrightarrow> (\<And>u. u \<in> set ids \<Longrightarrow> worker s u = None) \<Longrightarrow> start ids s = Inr s' \<Longrightarrow>
    sched_step s s'"
| stop: "worker s w = None \<Longrightarrow> stop w s = Inr (b, s') \<Longrightarrow> sched_step s s'"
| pick: "worker s w = Some At_Loop \<Longrightarrow> run_pick w s = Inr s' \<Longrightarrow> sched_step s s'"
| dispatch: "worker s w = Some (Picked r t) \<Longrightarrow> sched_step s (run_dispatch w r t s)"
| lock: "worker s w = Some (Locking x f) \<Longrightarrow> fib_mutex s f = None \<Longrightarrow> run_lock w x f s = Inr s' \<Longrightarrow>
    sched_step s s'"
| unlock: "worker s w = Some (Resumed x f) \<Longrightarrow> st \<noteq> RUNNING \<Longrightarrow> sched_step s (run_unlock w x f st s)"
| complete: "worker s w = Some (Unlocked x) \<Longrightarrow> sched_step s (run_done w x s)"
| idle: "worker s w = Some In_Idle \<Longrightarrow> sched_step s (run_idle w s)"

inductive sched_reach :: "'c scheduler \<Rightarrow> bool" where
  ctor: "scheduler_ctor threads use_caller w = Inr s \<Longrightarrow> sched_reach s"
| step: "sched_reach s \<Longrightarrow> sched_step s s' \<Longrightarrow> sched_reach s'"

section \<open>The invariant\<close>

fun pc_tasks :: "'c worker_pc option \<Rightarrow> 'c sched_task multiset" where
  "pc_tasks (Some (Picked (Some x) t)) = {#x#}"
| "pc_tasks (Some (Locking x f)) = {#x#}"
| "pc_tasks (Some (Resumed x f)) = {#x#}"
| "pc_tasks (Some (Unlocked x)) = {#x#}"
| "pc_tasks _ = {#}"

definition in_flight :: "(tid \<Rightarrow> 'c worker_pc option) \<Rightarrow> 'c sched_task multiset" where
  "in_flight wk = (\<Sum>u\<in>UNIV. pc_tasks (wk u))"

definition idlers :: "(tid \<Rightarrow> 'c worker_pc option) \<Rightarrow> nat" where
  "idlers wk = (\<Sum>u\<in>UNIV. if wk u = Some In_Idle then 1 else 0)"

lemma in_flight_upd: "in_flight (wk(w := x)) + pc_tasks (wk w) = in_flight wk + pc_tasks x"
proof -
  have "in_flight wk = pc_tasks (wk w) + (\<Sum>u\<in>UNIV - {w}. pc_tasks (wk u))"
    unfolding in_flight_def by (rule sum.remove) simp_all
  moreover have "in_flight (wk(w := x)) = pc_tasks x + (\<Sum>u\<in>UNIV - {w}. pc_tasks ((wk(w := x)) u))"
    unfolding in_flight_def by (subst sum.remove [of _ w]) simp_all
  moreover have "(\<Sum>u\<in>UNIV - {w}. pc_tasks ((wk(w := x)) u)) = (\<Sum>u\<in>UNIV - {w}. pc_tasks (wk u))"
    by (rule sum.cong) simp_all
  ultimately show ?thesis by simp
qed

lemma in_flight_add: "pc_tasks (wk w) = {#} \<Longrightarrow> in_flight (wk(w := x)) = in_flight wk + pc_tasks x"
  using in_flight_upd [of wk w x] by simp

lemma in_flight_same: "pc_tasks (wk w) = pc_tasks x \<Longrightarrow> in_flight (wk(w := x)) = in_flight wk"
  using in_flight_upd [of wk w x] by simp

lemma in_flight_remove:
  "pc_tasks (wk w) = {#y#} \<Longrightarrow> pc_tasks x = {#} \<Longrightarrow> in_flight wk = add_mset y (in_flight (wk(w := x)))"
  using in_flight_upd [of wk w x] by simp

lemma size_pc_tasks: "size (pc_tasks x) \<le> 1"
  by (cases x rule: pc_tasks.cases) simp_all

lemma size_in_flight: "size (in_flight wk) < 2 ^ 64"
proof -
  have "size (in_flight wk) = (\<Sum>u\<in>UNIV. size (pc_tasks (wk u)))"
    unfolding in_flight_def by simp
  also have "\<dots> \<le> (\<Sum>u\<in>(UNIV :: tid set). 1)" by (rule sum_mono) (rule size_pc_tasks)
  also have "\<dots> = 2 ^ 32" by (simp add: card_word)
  also have "\<dots> < (2 :: nat) ^ 64" by simp
  finally show ?thesis .
qed

lemma in_flight_empty_iff: "in_flight wk = {#} \<longleftrightarrow> (\<forall>u. pc_tasks (wk u) = {#})"
  unfolding in_flight_def by (simp add: sum_eq_empty_iff)

lemma idlers_upd:
  "idlers (wk(w := x)) + (if wk w = Some In_Idle then 1 else 0) = idlers wk + (if x = Some In_Idle then 1 else 0)"
proof -
  let ?n = "\<lambda>wk u. if wk u = Some In_Idle then 1 else 0 :: nat"
  have "idlers wk = ?n wk w + (\<Sum>u\<in>UNIV - {w}. ?n wk u)"
    unfolding idlers_def by (rule sum.remove) simp_all
  moreover have "idlers (wk(w := x)) = ?n (wk(w := x)) w + (\<Sum>u\<in>UNIV - {w}. ?n (wk(w := x)) u)"
    unfolding idlers_def by (rule sum.remove) simp_all
  moreover have "(\<Sum>u\<in>UNIV - {w}. ?n (wk(w := x)) u) = (\<Sum>u\<in>UNIV - {w}. ?n wk u)"
    by (rule sum.cong) simp_all
  ultimately show ?thesis by simp
qed

lemma idlers_same: "(wk w = Some In_Idle) = (x = Some In_Idle) \<Longrightarrow> idlers (wk(w := x)) = idlers wk"
  using idlers_upd [of wk w x] by (simp split: if_splits)

definition task_ok :: "'c scheduler \<Rightarrow> 'c sched_task \<Rightarrow> bool" where
  "task_ok s x \<longleftrightarrow> (tk_fiber x \<noteq> None \<or> tk_cb x \<noteq> None) \<and>
     (\<forall>f. tk_fiber x = Some f \<longrightarrow> f < fib_next s \<and> \<not> private_fiber s f)"

text \<open>
  The accounting: what was scheduled is finished, queued or in flight, and the counters count the
  workers in flight and idle.
\<close>

definition sched_count_inv :: "'c scheduler \<Rightarrow> bool" where
  "sched_count_inv s \<longleftrightarrow>
     scheduled s = finished s + mset (m_tasks s) + in_flight (worker s) \<and>
     m_activeThreadCount s = of_nat (size (in_flight (worker s))) \<and>
     m_idleThreadCount s = of_nat (idlers (worker s))"

text \<open>The tasks are well formed, and a pinned task is only in flight on its thread.\<close>

definition sched_task_inv :: "'c scheduler \<Rightarrow> bool" where
  "sched_task_inv s \<longleftrightarrow> (\<forall>x \<in> set (m_tasks s). task_ok s x) \<and>
     (\<forall>w x. x \<in># pc_tasks (worker s w) \<longrightarrow> task_ok s x \<and> (tk_thread x = - 1 \<or> tk_thread x = w))"

text \<open>A fiber runs exactly while a worker that resumed it holds its mutex.\<close>

definition sched_fiber_inv :: "'c scheduler \<Rightarrow> bool" where
  "sched_fiber_inv s \<longleftrightarrow>
     (\<forall>f w. fib_mutex s f = Some w \<longleftrightarrow> (\<exists>x. worker s w = Some (Resumed x f))) \<and>
     (\<forall>f. fib_state s f = RUNNING \<longleftrightarrow> fib_mutex s f \<noteq> None) \<and>
     (\<forall>w x f. worker s w = Some (Resumed x f) \<longrightarrow> f < fib_next s) \<and>
     (\<forall>w x f. worker s w = Some (Locking x f) \<longrightarrow> f < fib_next s \<and>
        (tk_fiber x = Some f \<or> tk_fiber x = None \<and> fib_state s f = READY \<and>
          (\<forall>u y. worker s u = Some (Locking y f) \<longrightarrow> u = w)))"

text \<open>Lemmas on one worker's move.\<close>

lemma pc_tasks_set_worker:
  "pc_tasks ((wk(w := x)) u) = (if u = w then pc_tasks x else pc_tasks (wk u))"
  by simp

lemma private_fiber_iff:
  assumes "sched_fiber_inv s" "tk_fiber x = Some f" "worker s w = Some (Locking x f)"
  shows "\<not> private_fiber s f"
proof
  assume "private_fiber s f"
  then obtain u y where u: "worker s u = Some (Locking y f)" "tk_fiber y = None"
    by (auto simp: private_fiber_def)
  then have "w = u" using assms unfolding sched_fiber_inv_def by (metis option.distinct(1))
  with u assms(2,3) show False by simp
qed

text \<open>The accounting is kept.\<close>

lemma count_inv_ctor: "scheduler_ctor threads use_caller w = Inr s \<Longrightarrow> sched_count_inv s"
  by (auto simp: scheduler_ctor_def sched_count_inv_def in_flight_def idlers_def split: if_splits)

lemma tickle_simps [simp]:
  "worker (tickle s) = worker s" "m_tasks (tickle s) = m_tasks s" "fib_state (tickle s) = fib_state s"
  "fib_mutex (tickle s) = fib_mutex s" "fib_next (tickle s) = fib_next s" "scheduled (tickle s) = scheduled s"
  "finished (tickle s) = finished s" "m_activeThreadCount (tickle s) = m_activeThreadCount s"
  "m_idleThreadCount (tickle s) = m_idleThreadCount s" "m_stopping (tickle s) = m_stopping s"
  "idle_term (tickle s) = idle_term s" "m_schedulerFiber (tickle s) = m_schedulerFiber s"
  "t_scheduler (tickle s) = t_scheduler s" "m_useCaller (tickle s) = m_useCaller s"
  "m_threads (tickle s) = m_threads s" "schedulerFiber_ready (tickle s) = schedulerFiber_ready s"
  by (simp_all add: tickle_def)

lemma tickles_simps [simp]:
  "worker ((tickle ^^ n) s) = worker s" "m_tasks ((tickle ^^ n) s) = m_tasks s"
  "fib_state ((tickle ^^ n) s) = fib_state s" "fib_mutex ((tickle ^^ n) s) = fib_mutex s"
  "fib_next ((tickle ^^ n) s) = fib_next s" "scheduled ((tickle ^^ n) s) = scheduled s"
  "finished ((tickle ^^ n) s) = finished s" "m_activeThreadCount ((tickle ^^ n) s) = m_activeThreadCount s"
  "m_idleThreadCount ((tickle ^^ n) s) = m_idleThreadCount s" "m_stopping ((tickle ^^ n) s) = m_stopping s"
  "m_schedulerFiber ((tickle ^^ n) s) = m_schedulerFiber s" "idle_term ((tickle ^^ n) s) = idle_term s"
  by (induction n) simp_all

lemma run_enter_fold:
  "worker (fold run_enter ws s) = (\<lambda>u. if u \<in> set ws then Some At_Loop else worker s u)"
  "m_tasks (fold run_enter ws s) = m_tasks s" "scheduled (fold run_enter ws s) = scheduled s"
  "finished (fold run_enter ws s) = finished s"
  "m_activeThreadCount (fold run_enter ws s) = m_activeThreadCount s"
  "m_idleThreadCount (fold run_enter ws s) = m_idleThreadCount s"
  "fib_state (fold run_enter ws s) = fib_state s" "fib_mutex (fold run_enter ws s) = fib_mutex s"
  "fib_next (fold run_enter ws s) = fib_next s" "m_stopping (fold run_enter ws s) = m_stopping s"
  by (induction ws arbitrary: s) (auto simp: run_enter_def)

text \<open>Workers that just entered \<^verbatim>\<open>run\<close> carry no task: the sums over the workers stay.\<close>

lemma in_flight_enter:
  assumes "\<And>u. u \<in> U \<Longrightarrow> wk u = None"
  shows "in_flight (\<lambda>u. if u \<in> U then Some At_Loop else wk u) = in_flight wk"
    and "idlers (\<lambda>u. if u \<in> U then Some At_Loop else wk u) = idlers wk"
  unfolding in_flight_def idlers_def using assms by (auto intro: sum.cong)

lemma pick_task_mset:
  "pick_task w xs = Inr (r, ys, t) \<Longrightarrow> mset xs = (case r of None \<Rightarrow> mset ys | Some x \<Rightarrow> add_mset x (mset ys))"
  by (induction xs arbitrary: r ys t)
    (auto simp: result_bind_Inr_iff split: if_splits option.splits)

lemma pick_task_elig:
  "pick_task w xs = Inr (Some x, ys, t) \<Longrightarrow> x \<in> set xs \<and> set ys \<subseteq> set xs \<and>
     (tk_thread x = - 1 \<or> tk_thread x = w) \<and> (tk_fiber x \<noteq> None \<or> tk_cb x \<noteq> None)"
  by (induction xs arbitrary: ys t) (auto simp: result_bind_Inr_iff split: if_splits)

lemma pick_task_none:
  "pick_task w xs = Inr (None, ys, t) \<longleftrightarrow>
     ys = xs \<and> (\<forall>x \<in> set xs. tk_thread x \<noteq> - 1 \<and> tk_thread x \<noteq> w) \<and> (t \<longleftrightarrow> xs \<noteq> [])"
  by (induction xs arbitrary: ys t) (auto simp: result_bind_Inr_iff split: if_splits)

lemma pick_task_total:
  "\<forall>x \<in> set xs. tk_fiber x \<noteq> None \<or> tk_cb x \<noteq> None \<Longrightarrow> \<exists>r. pick_task w xs = Inr r"
  by (induction xs) (auto simp: split: prod.splits)

lemma count_inv_step:
  assumes inv: "sched_count_inv s" and st: "sched_step s s'"
  shows "sched_count_inv s'"
  using st
proof cases
  case (start ids)
  note in_flight_enter [of "set (take (m_threadCount s) ids)" "worker s"]
  moreover have "worker s u = None" if "u \<in> set (take (m_threadCount s) ids)" for u
    using start(2) that in_set_takeD by metis
  ultimately show ?thesis using start(3) inv
    by (auto simp: start_def sched_count_inv_def run_enter_fold Let_def split: if_splits cong: if_cong)
next
  case (stop w b)
  have "in_flight ((worker s)(w \<mapsto> At_Loop)) = in_flight (worker s)"
    "idlers ((worker s)(w \<mapsto> At_Loop)) = idlers (worker s)"
    using stop(1) by (auto intro: in_flight_same idlers_same)
  with stop(2) inv show ?thesis
    by (auto simp: stop_def sched_count_inv_def run_enter_def Let_def split: if_splits)
next
  case (pick w)
  from pick(2) obtain r ys t where r: "pick_task w (m_tasks s) = Inr (r, ys, t)"
    and s': "s' = set_worker w (Picked r t) (s\<lparr>m_tasks := ys,
       m_activeThreadCount := (if r \<noteq> None then m_activeThreadCount s + 1 else m_activeThreadCount s)\<rparr>)"
    by (auto simp: run_pick_def result_bind_Inr_iff)
  have "in_flight ((worker s)(w \<mapsto> Picked r t)) = in_flight (worker s) + pc_tasks (Some (Picked r t))"
    "idlers ((worker s)(w \<mapsto> Picked r t)) = idlers (worker s)"
    using pick(1) by (auto intro: in_flight_add idlers_same)
  with inv pick_task_mset [OF r] show ?thesis
    by (cases r) (auto simp: s' sched_count_inv_def set_worker_def)
next
  case (dispatch w r t)
  have "in_flight ((worker s)(w \<mapsto> pc)) = in_flight (worker s)"
    "idlers ((worker s)(w \<mapsto> pc)) = idlers (worker s) + (if pc = In_Idle then 1 else 0)"
    if "pc_tasks (Some pc) = pc_tasks (Some (Picked r t))" for pc
    using dispatch(2) that in_flight_same [of "worker s" w "Some pc"] idlers_upd [of "worker s" w "Some pc"] by auto
  then show ?thesis using inv
    by (auto simp: dispatch(1) run_dispatch_def sched_count_inv_def set_worker_def Let_def split: option.splits)
next
  case (lock w x f)
  have "in_flight ((worker s)(w \<mapsto> pc)) = in_flight (worker s)" "idlers ((worker s)(w \<mapsto> pc)) = idlers (worker s)"
    if "pc = Unlocked x \<or> pc = Resumed x f" for pc
    using lock(1) that by (auto intro: in_flight_same idlers_same)
  then show ?thesis using inv lock(3)
    by (auto simp: run_lock_def sched_count_inv_def set_worker_def split: if_splits)
next
  case (unlock w x f st)
  have "in_flight ((worker s)(w \<mapsto> Unlocked x)) = in_flight (worker s)"
    "idlers ((worker s)(w \<mapsto> Unlocked x)) = idlers (worker s)"
    using unlock(2) by (auto intro: in_flight_same idlers_same)
  then show ?thesis using inv by (auto simp: unlock(1) run_unlock_def sched_count_inv_def set_worker_def)
next
  case (complete w x)
  have "in_flight (worker s) = add_mset x (in_flight ((worker s)(w \<mapsto> At_Loop)))"
    "idlers ((worker s)(w \<mapsto> At_Loop)) = idlers (worker s)"
    using complete(2) by (auto intro: in_flight_remove idlers_same)
  then show ?thesis using inv by (auto simp: complete(1) run_done_def sched_count_inv_def set_worker_def)
next
  case (idle w)
  have "in_flight ((worker s)(w \<mapsto> At_Loop)) = in_flight (worker s)"
    "Suc (idlers ((worker s)(w \<mapsto> At_Loop))) = idlers (worker s)"
    using idle(2) idlers_upd [of "worker s" w "Some At_Loop"] by (auto intro: in_flight_same)
  moreover from this(2) have "of_nat (idlers (worker s)) = (of_nat (idlers ((worker s)(w \<mapsto> At_Loop))) + 1 :: u64)"
    by (metis of_nat_Suc add.commute)
  ultimately show ?thesis using inv by (auto simp: idle(1) run_idle_def sched_count_inv_def set_worker_def)
qed (use inv in \<open>auto simp: sched_count_inv_def scheduleLock_def Let_def\<close>)

text \<open>The tasks stay well formed.\<close>

lemma task_ok_mono:
  assumes "task_ok s x" "fib_next s \<le> fib_next s'"
    and "\<And>f. f < fib_next s \<Longrightarrow> private_fiber s' f \<Longrightarrow> private_fiber s f"
  shows "task_ok s' x"
  using assms unfolding task_ok_def by (meson order_less_le_trans)

lemma task_inv_frame:
  assumes inv: "sched_task_inv s" and next_le: "fib_next s \<le> fib_next s'"
    and priv: "\<And>f. f < fib_next s \<Longrightarrow> private_fiber s' f \<Longrightarrow> private_fiber s f"
    and queue: "\<And>x. x \<in> set (m_tasks s') \<Longrightarrow> x \<in> set (m_tasks s) \<or> task_ok s x"
    and flight: "\<And>w x. x \<in># pc_tasks (worker s' w) \<Longrightarrow>
      x \<in># pc_tasks (worker s w) \<or> x \<in> set (m_tasks s) \<and> (tk_thread x = - 1 \<or> tk_thread x = w)"
  shows "sched_task_inv s'"
  using inv queue flight task_ok_mono [OF _ next_le priv] unfolding sched_task_inv_def by metis

lemma private_fiber_mono:
  assumes "\<And>w x. worker s' w = Some (Locking x f) \<Longrightarrow> tk_fiber x = None \<Longrightarrow> worker s w = Some (Locking x f)"
  shows "private_fiber s' f \<Longrightarrow> private_fiber s f"
  using assms unfolding private_fiber_def by blast

lemma private_fiber_set_worker:
  assumes "\<And>x f. pc = Locking x f \<Longrightarrow> tk_fiber x = Some f"
  shows "private_fiber (set_worker w pc s) f \<Longrightarrow> private_fiber s f"
  by (rule private_fiber_mono [of "set_worker w pc s"])
    (use assms in \<open>auto simp: set_worker_def split: if_splits\<close>)

lemma set_worker_simps [simp]:
  "m_tasks (set_worker w pc s) = m_tasks s" "fib_next (set_worker w pc s) = fib_next s"
  "worker (set_worker w pc s) = (worker s)(w \<mapsto> pc)" "fib_state (set_worker w pc s) = fib_state s"
  "fib_mutex (set_worker w pc s) = fib_mutex s"
  by (simp_all add: set_worker_def)

lemma task_inv_move:
  assumes inv: "sched_task_inv s" and w: "pc_tasks (Some pc) \<subseteq># pc_tasks (worker s w)"
    and pc: "\<And>x f. pc = Locking x f \<Longrightarrow> tk_fiber x = Some f"
    and s': "worker s' = (worker s)(w \<mapsto> pc)" "m_tasks s' = m_tasks s" "fib_next s' = fib_next s"
  shows "sched_task_inv s'"
proof (rule task_inv_frame [OF inv])
  show "fib_next s \<le> fib_next s'" by (simp add: s')
  show "private_fiber s' f \<Longrightarrow> private_fiber s f" for f
    by (rule private_fiber_mono [of s']) (use pc in \<open>auto simp: s' split: if_splits\<close>)
  show "x \<in># pc_tasks (worker s' u) \<Longrightarrow>
      x \<in># pc_tasks (worker s u) \<or> x \<in> set (m_tasks s) \<and> (tk_thread x = - 1 \<or> tk_thread x = u)" for x u
    using w by (auto simp: s' dest: mset_subset_eqD split: if_splits)
qed (simp add: s')

lemma task_inv_pick:
  assumes inv: "sched_task_inv s" and w: "worker s w = Some At_Loop" and st: "run_pick w s = Inr s'"
  shows "sched_task_inv s'"
proof -
  from st obtain r ys t where r: "pick_task w (m_tasks s) = Inr (r, ys, t)"
    and s': "worker s' = (worker s)(w \<mapsto> Picked r t)" "m_tasks s' = ys" "fib_next s' = fib_next s"
    by (auto simp: run_pick_def result_bind_Inr_iff)
  have sub: "set ys \<subseteq> set (m_tasks s)" using pick_task_mset [OF r]
    by (cases r) (auto dest!: arg_cong [of _ _ set_mset])
  show ?thesis
  proof (rule task_inv_frame [OF inv])
    show "private_fiber s' f \<Longrightarrow> private_fiber s f" for f
      by (rule private_fiber_mono [of s']) (auto simp: s' split: if_splits)
    show "x \<in># pc_tasks (worker s' u) \<Longrightarrow>
        x \<in># pc_tasks (worker s u) \<or> x \<in> set (m_tasks s) \<and> (tk_thread x = - 1 \<or> tk_thread x = u)" for x u
      using pick_task_elig [of w "m_tasks s" x ys t] r by (cases r) (auto simp: s' split: if_splits)
  qed (use sub in \<open>auto simp: s'\<close>)
qed

lemma task_inv_dispatch:
  assumes inv: "sched_task_inv s" and w: "worker s w = Some (Picked r t)"
  shows "sched_task_inv (run_dispatch w r t s)"
proof (cases "\<exists>x. r = Some x \<and> tk_fiber x = None")
  case False
  define pc where "pc = (case r of Some x \<Rightarrow> Locking x (the (tk_fiber x))
     | None \<Rightarrow> if idle_term s w then Exited else In_Idle)"
  have "worker (run_dispatch w r t s) = (worker s)(w \<mapsto> pc)" "m_tasks (run_dispatch w r t s) = m_tasks s"
    "fib_next (run_dispatch w r t s) = fib_next s"
    using False by (auto simp: pc_def run_dispatch_def Let_def split: option.splits)
  then show ?thesis
    by (rule task_inv_move [OF inv, rotated 2])
      (use w False in \<open>auto simp: pc_def split: option.splits if_splits\<close>)
next
  case True
  then obtain x where x: "r = Some x" "tk_fiber x = None" by auto
  let ?s = "run_dispatch w r t s"
  have s': "worker ?s = (worker s)(w \<mapsto> Locking x (fib_next s))" "m_tasks ?s = m_tasks s"
    "fib_next ?s = Suc (fib_next s)"
    using x by (auto simp: run_dispatch_def Let_def)
  show ?thesis
  proof (rule task_inv_frame [OF inv])
    show "private_fiber ?s f \<Longrightarrow> private_fiber s f" if "f < fib_next s" for f
      by (rule private_fiber_mono [of ?s]) (use that in \<open>auto simp: s' split: if_splits\<close>)
    show "y \<in># pc_tasks (worker ?s u) \<Longrightarrow>
        y \<in># pc_tasks (worker s u) \<or> y \<in> set (m_tasks s) \<and> (tk_thread y = - 1 \<or> tk_thread y = u)" for y u
      unfolding s' using x w by (auto split: if_splits)
  qed (auto simp: s')
qed

lemma task_inv_enter:
  assumes inv: "sched_task_inv s" and none: "\<And>u. u \<in> U \<Longrightarrow> worker s u = None"
    and s': "worker s' = (\<lambda>u. if u \<in> U then Some At_Loop else worker s u)" "m_tasks s' = m_tasks s"
      "fib_next s' = fib_next s"
  shows "sched_task_inv s'"
proof (rule task_inv_frame [OF inv])
  show "private_fiber s' f \<Longrightarrow> private_fiber s f" for f
    by (rule private_fiber_mono [of s']) (auto simp: s' split: if_splits)
qed (auto simp: s' split: if_splits)

lemma start_enters:
  assumes "\<And>u. u \<in> set ids \<Longrightarrow> worker s u = None" "start ids s = Inr s'"
  obtains U where "worker s' = (\<lambda>u. if u \<in> U then Some At_Loop else worker s u)" "m_tasks s' = m_tasks s"
    "fib_next s' = fib_next s" "fib_state s' = fib_state s" "fib_mutex s' = fib_mutex s"
    "\<And>u. u \<in> U \<Longrightarrow> worker s u = None"
proof (cases "m_stopping s")
  case True
  with assms that [of "{}"] show ?thesis by (auto simp: start_def)
next
  case False
  from assms(2) False show ?thesis
    by (intro that [of "set (take (m_threadCount s) ids)"])
      (auto simp: start_def run_enter_fold Let_def assms(1) dest: in_set_takeD split: if_splits cong: if_cong)
qed

lemma stop_enters:
  assumes "worker s w = None" "stop w s = Inr (b, s')"
  obtains U where "worker s' = (\<lambda>u. if u \<in> U then Some At_Loop else worker s u)" "m_tasks s' = m_tasks s"
    "fib_next s' = fib_next s" "fib_state s' = fib_state s" "fib_mutex s' = fib_mutex s"
    "\<And>u. u \<in> U \<Longrightarrow> worker s u = None"
proof (cases "stopping s \<or> \<not> m_schedulerFiber s")
  case True
  with assms that [of "{}"] show ?thesis by (auto simp: stop_def Let_def split: if_splits)
next
  case False
  with assms show ?thesis
    by (intro that [of "{w}"]) (auto simp: stop_def run_enter_def Let_def split: if_splits)
qed

lemma task_inv_step:
  assumes inv: "sched_task_inv s" and st: "sched_step s s'"
  shows "sched_task_inv s'"
  using st
proof cases
  case make_fiber
  show ?thesis unfolding make_fiber
    by (rule task_inv_frame [OF inv]) (auto simp: private_fiber_def)
next
  case (reset_task_fiber f)
  show ?thesis unfolding reset_task_fiber
    by (rule task_inv_frame [OF inv]) (auto simp: private_fiber_def)
next
  case (schedule x)
  show ?thesis unfolding schedule(1)
    by (rule task_inv_frame [OF inv])
      (use schedule(2) in \<open>auto simp: scheduleLock_def private_fiber_def task_ok_def Let_def split: if_splits\<close>)
next
  case (start ids)
  show ?thesis by (rule start_enters [OF start(2,3)]) (auto intro: task_inv_enter [OF inv])
next
  case (stop w b)
  show ?thesis by (rule stop_enters [OF stop]) (auto intro: task_inv_enter [OF inv])
next
  case (pick w)
  then show ?thesis by (rule task_inv_pick [OF inv])
next
  case (dispatch w r t)
  then show ?thesis by (simp add: task_inv_dispatch [OF inv])
next
  case (lock w x f)
  then show ?thesis
    by (intro task_inv_move [OF inv, of "if worker s' w = Some (Unlocked x) then Unlocked x else Resumed x f" w])
      (auto simp: run_lock_def split: if_splits)
next
  case (unlock w x f st)
  then show ?thesis by (intro task_inv_move [OF inv, of "Unlocked x" w]) (auto simp: run_unlock_def)
next
  case (complete w x)
  then show ?thesis by (intro task_inv_move [OF inv, of At_Loop w]) (auto simp: run_done_def)
next
  case (idle w)
  then show ?thesis by (intro task_inv_move [OF inv, of At_Loop w]) (auto simp: run_idle_def)
qed

text \<open>The fibers' mutexes and states stay in step with the workers.\<close>

lemma fiber_inv_D:
  assumes "sched_fiber_inv s"
  shows "fib_mutex s f = Some w \<longleftrightarrow> (\<exists>x. worker s w = Some (Resumed x f))"
    "fib_state s f = RUNNING \<longleftrightarrow> fib_mutex s f \<noteq> None"
    "worker s w = Some (Resumed x f) \<Longrightarrow> f < fib_next s"
    "worker s w = Some (Locking x f) \<Longrightarrow> f < fib_next s \<and> (tk_fiber x = Some f \<or>
       tk_fiber x = None \<and> fib_state s f = READY \<and> (\<forall>u y. worker s u = Some (Locking y f) \<longrightarrow> u = w))"
  using assms unfolding sched_fiber_inv_def by blast+

lemma sched_fiber_inv_frame:
  assumes inv: "sched_fiber_inv s"
    and s': "fib_mutex s' = fib_mutex s" "fib_state s' = fib_state s" "fib_next s \<le> fib_next s'"
    and R: "\<And>w x f. worker s' w = Some (Resumed x f) \<longleftrightarrow> worker s w = Some (Resumed x f)"
    and L: "\<And>w x f. worker s' w = Some (Locking x f) \<longleftrightarrow> worker s w = Some (Locking x f)"
  shows "sched_fiber_inv s'"
  unfolding sched_fiber_inv_def s'(1,2) R L
  using fiber_inv_D [OF inv] s'(3) by (meson order_less_le_trans)

lemma sched_fiber_inv_move:
  assumes "sched_fiber_inv s" "fib_mutex s' = fib_mutex s" "fib_state s' = fib_state s"
    "fib_next s' = fib_next s" "worker s' = (worker s)(w \<mapsto> pc)"
    "\<And>x f. worker s w \<noteq> Some (Resumed x f) \<and> worker s w \<noteq> Some (Locking x f)"
    "\<And>x f. pc \<noteq> Resumed x f \<and> pc \<noteq> Locking x f"
  shows "sched_fiber_inv s'"
  by (rule sched_fiber_inv_frame [OF assms(1,2,3)]) (use assms(4-) in \<open>auto split: if_splits\<close>)

lemma sched_fiber_inv_enter:
  assumes "sched_fiber_inv s" "fib_mutex s' = fib_mutex s" "fib_state s' = fib_state s"
    "fib_next s' = fib_next s" "worker s' = (\<lambda>u. if u \<in> U then Some At_Loop else worker s u)"
    "\<And>u. u \<in> U \<Longrightarrow> worker s u = None"
  shows "sched_fiber_inv s'"
  by (rule sched_fiber_inv_frame [OF assms(1,2,3)]) (use assms(4-) in \<open>auto split: if_splits\<close>)

text \<open>A worker goes for the mutex of a task's own fiber, or of a new one.\<close>

lemma sched_fiber_inv_to_lock:
  assumes inv: "sched_fiber_inv s" and w: "worker s w = Some (Picked (Some x) t)"
    and f: "tk_fiber x = Some f" "f < fib_next s" "\<not> private_fiber s f"
    and s': "fib_mutex s' = fib_mutex s" "fib_state s' = fib_state s" "fib_next s' = fib_next s"
      "worker s' = (worker s)(w \<mapsto> Locking x f)"
  shows "sched_fiber_inv s'"
proof -
  have R: "worker s' u = Some (Resumed y g) \<longleftrightarrow> worker s u = Some (Resumed y g)" for u y g
    using w by (auto simp: s')
  have L: "g < fib_next s \<and> (tk_fiber y = Some g \<or> tk_fiber y = None \<and> fib_state s g = READY \<and>
      (\<forall>v z. worker s' v = Some (Locking z g) \<longrightarrow> v = u))"
    if u: "worker s' u = Some (Locking y g)" for u y g
  proof (cases "u = w")
    case True
    with u f show ?thesis by (simp add: s')
  next
    case False
    with u have u': "worker s u = Some (Locking y g)" by (simp add: s')
    show ?thesis
    proof (cases "tk_fiber y = None")
      case True
      with u' f(3) have "g \<noteq> f" unfolding private_fiber_def by fastforce
      with True fiber_inv_D(4) [OF inv u'] show ?thesis by (auto simp: s' split: if_splits)
    qed (use fiber_inv_D(4) [OF inv u'] in auto)
  qed
  show ?thesis unfolding sched_fiber_inv_def s'(1-3) R
    using fiber_inv_D(1-3) [OF inv] L by (intro conjI allI impI) (assumption | blast)+
qed

lemma sched_fiber_inv_new_lock:
  assumes inv: "sched_fiber_inv s" and w: "worker s w = Some (Picked (Some x) t)" and x: "tk_fiber x = None"
    and s': "fib_mutex s' = (fib_mutex s)(fib_next s := None)"
      "fib_state s' = (fib_state s)(fib_next s := READY)"
      "fib_next s' = Suc (fib_next s)" "worker s' = (worker s)(w \<mapsto> Locking x (fib_next s))"
  shows "sched_fiber_inv s'"
proof -
  have R: "worker s' u = Some (Resumed y g) \<longleftrightarrow> worker s u = Some (Resumed y g)" for u y g
    using w by (auto simp: s')
  have free: "fib_mutex s (fib_next s) = None"
    using fiber_inv_D(1,3) [OF inv] by (metis less_irrefl option.exhaust)
  have same: "fib_mutex s' = fib_mutex s" using free by (auto simp: s')
  have L: "g < fib_next s' \<and> (tk_fiber y = Some g \<or> tk_fiber y = None \<and> fib_state s' g = READY \<and>
      (\<forall>v z. worker s' v = Some (Locking z g) \<longrightarrow> v = u))"
    if u: "worker s' u = Some (Locking y g)" for u y g
  proof (cases "u = w")
    case True
    then have "g = fib_next s" "y = x" using u by (simp_all add: s')
    moreover have "v = w" if "worker s' v = Some (Locking z (fib_next s))" for v z
      using that fiber_inv_D(4) [OF inv, of v z "fib_next s"] by (auto simp: s' split: if_splits)
    ultimately show ?thesis using x True by (simp add: s'(2,3))
  next
    case False
    with u have "worker s u = Some (Locking y g)" by (simp add: s')
    from fiber_inv_D(4) [OF inv this] False show ?thesis by (auto simp: s' split: if_splits)
  qed
  have run: "fib_state s' g = RUNNING \<longleftrightarrow> fib_mutex s g \<noteq> None" for g
    using fiber_inv_D(2) [OF inv, of g] free by (auto simp: s'(2))
  show ?thesis unfolding sched_fiber_inv_def same R run
    using fiber_inv_D(1,3) [OF inv] L by (auto simp: s'(3) intro: less_SucI)
qed

lemma sched_fiber_inv_lock:
  assumes inv: "sched_fiber_inv s" and w: "worker s w = Some (Locking x f)" "fib_mutex s f = None"
    and st: "run_lock w x f s = Inr s'"
  shows "sched_fiber_inv s'"
proof (cases "tk_fiber x \<noteq> None \<and> fib_state s f = TERMINATED")
  case True
  with st have s': "worker s' = (worker s)(w \<mapsto> Unlocked x)" "fib_mutex s' = fib_mutex s" "fib_state s' = fib_state s"
    "fib_next s' = fib_next s" by (auto simp: run_lock_def)
  have R: "worker s' u = Some (Resumed y g) \<longleftrightarrow> worker s u = Some (Resumed y g)" for u y g
    using w by (auto simp: s')
  have "worker s u = Some (Locking y g)" if "worker s' u = Some (Locking y g)" for u y g
    using that by (auto simp: s' split: if_splits)
  then show ?thesis unfolding sched_fiber_inv_def R s'(2-4)
    using fiber_inv_D [OF inv] by meson
next
  case False
  with st have s': "worker s' = (worker s)(w \<mapsto> Resumed x f)" "fib_mutex s' = (fib_mutex s)(f \<mapsto> w)"
    "fib_state s' = (fib_state s)(f := RUNNING)" "fib_next s' = fib_next s"
    by (auto simp: run_lock_def split: if_splits)
  have notres: "worker s u \<noteq> Some (Resumed y f)" for u y
    using fiber_inv_D(1) [OF inv, of f u] w(2) by auto
  have R: "fib_mutex s' g = Some u \<longleftrightarrow> (\<exists>y. worker s' u = Some (Resumed y g))" for g u
    using fiber_inv_D(1) [OF inv, of g u] notres w by (auto simp: s')
  have S: "fib_state s' g = RUNNING \<longleftrightarrow> fib_mutex s' g \<noteq> None" for g
    using fiber_inv_D(2) [OF inv, of g] by (simp add: s')
  have L: "g < fib_next s' \<and> (tk_fiber y = Some g \<or> tk_fiber y = None \<and> fib_state s' g = READY \<and>
      (\<forall>v z. worker s' v = Some (Locking z g) \<longrightarrow> v = u))"
    if u: "worker s' u = Some (Locking y g)" for u y g
  proof -
    have u': "worker s u = Some (Locking y g)" "u \<noteq> w" using u by (auto simp: s' split: if_splits)
    note D = fiber_inv_D(4) [OF inv u'(1)]
    have "g \<noteq> f" if "tk_fiber y = None" using D that u'(2) w(1) by auto
    with D show ?thesis by (auto simp: s' split: if_splits)
  qed
  have N: "g < fib_next s'" if "worker s' u = Some (Resumed y g)" for u y g
    using that fiber_inv_D(3) [OF inv] fiber_inv_D(4) [OF inv w(1)] by (auto simp: s' split: if_splits)
  show ?thesis unfolding sched_fiber_inv_def using R S L N by blast
qed

lemma sched_fiber_inv_unlock:
  assumes inv: "sched_fiber_inv s" and w: "worker s w = Some (Resumed x f)" "st \<noteq> RUNNING"
  shows "sched_fiber_inv (run_unlock w x f st s)"
proof -
  let ?s = "run_unlock w x f st s"
  have s': "worker ?s = (worker s)(w \<mapsto> Unlocked x)" "fib_mutex ?s = (fib_mutex s)(f := None)"
    "fib_state ?s = (fib_state s)(f := st)" "fib_next ?s = fib_next s"
    by (auto simp: run_unlock_def)
  have mine: "fib_mutex s f = Some w" using fiber_inv_D(1) [OF inv] w by blast
  have R: "fib_mutex ?s g = Some u \<longleftrightarrow> (\<exists>y. worker ?s u = Some (Resumed y g))" for g u
  proof (cases "u = w")
    case True
    have "fib_mutex s g \<noteq> Some w" if "g \<noteq> f" using fiber_inv_D(1) [OF inv, of g w] w that by auto
    with True show ?thesis by (auto simp: s')
  next
    case False
    with fiber_inv_D(1) [OF inv, of g u] mine show ?thesis by (auto simp: s')
  qed
  have S: "fib_state ?s g = RUNNING \<longleftrightarrow> fib_mutex ?s g \<noteq> None" for g
    using fiber_inv_D(2) [OF inv, of g] w(2) by (simp add: s')
  have L: "g < fib_next ?s \<and> (tk_fiber y = Some g \<or> tk_fiber y = None \<and> fib_state ?s g = READY \<and>
      (\<forall>v z. worker ?s v = Some (Locking z g) \<longrightarrow> v = u))"
    if u: "worker ?s u = Some (Locking y g)" for u y g
  proof -
    have u': "worker s u = Some (Locking y g)" using u by (auto simp: s' split: if_splits)
    note D = fiber_inv_D(4) [OF inv u']
    have "g \<noteq> f" if "tk_fiber y = None" using D that mine fiber_inv_D(2) [OF inv, of f] by auto
    with D show ?thesis by (auto simp: s' split: if_splits)
  qed
  have N: "g < fib_next ?s" if "worker ?s u = Some (Resumed y g)" for u y g
    using that fiber_inv_D(3) [OF inv] by (auto simp: s' split: if_splits)
  show ?thesis unfolding sched_fiber_inv_def using R S L N by blast
qed

lemma fiber_inv_step_sched:
  assumes inv: "sched_fiber_inv s" and tinv: "sched_task_inv s" and st: "sched_step s s'"
  shows "sched_fiber_inv s'"
  using st
proof cases
  case (reset_task_fiber f)
  then have free: "fib_mutex s f = None" using fiber_inv_D(2) [OF inv, of f] by auto
  have st: "((fib_state s)(f := READY)) g = RUNNING \<longleftrightarrow> fib_mutex s g \<noteq> None" for g
    using fiber_inv_D(2) [OF inv, of g] free by simp
  have L: "g < fib_next s \<and> (tk_fiber y = Some g \<or> tk_fiber y = None \<and> ((fib_state s)(f := READY)) g = READY \<and>
      (\<forall>v z. worker s v = Some (Locking z g) \<longrightarrow> v = u))"
    if "worker s u = Some (Locking y g)" for u y g
    using fiber_inv_D(4) [OF inv that] by auto
  have "sched_fiber_inv (s\<lparr>fib_state := (fib_state s)(f := READY)\<rparr>)"
    unfolding sched_fiber_inv_def scheduler.simps scheduler.update_convs scheduler.select_convs
    using st L fiber_inv_D(1,3) [OF inv] by simp
  then show ?thesis by (simp add: reset_task_fiber(1))
next
  case (start ids)
  show ?thesis by (rule start_enters [OF start(2,3)]) (auto intro: sched_fiber_inv_enter [OF inv])
next
  case (stop w b)
  show ?thesis by (rule stop_enters [OF stop]) (auto intro: sched_fiber_inv_enter [OF inv])
next
  case (pick w)
  then show ?thesis
    by (intro sched_fiber_inv_move [OF inv, where w = w and pc = "the (worker s' w)"])
      (auto simp: run_pick_def result_bind_Inr_iff)
next
  case (dispatch w r t)
  show ?thesis
  proof (cases r)
    case None
    with dispatch show ?thesis
      by (intro sched_fiber_inv_move [OF inv, where w = w and pc = "the (worker s' w)"])
        (auto simp: run_dispatch_def Let_def)
  next
    case (Some x)
    have "x \<in># pc_tasks (worker s w)" using dispatch(2) Some by simp
    with tinv have "task_ok s x" unfolding sched_task_inv_def by blast
    note ok = this
    have w: "worker s w = Some (Picked (Some x) t)" using dispatch(2) Some by simp
    show ?thesis
    proof (cases "tk_fiber x")
      case None
      then show ?thesis
        by (intro sched_fiber_inv_new_lock [OF inv w None])
          (simp_all add: dispatch(1) Some run_dispatch_def Let_def)
    next
      case (Some f)
      then show ?thesis using ok
        by (intro sched_fiber_inv_to_lock [OF inv w Some])
          (simp_all add: dispatch(1) \<open>r = _\<close> run_dispatch_def Let_def task_ok_def)
    qed
  qed
next
  case (lock w x f)
  then show ?thesis by (rule sched_fiber_inv_lock [OF inv])
next
  case (unlock w x f st)
  then show ?thesis by (simp add: sched_fiber_inv_unlock [OF inv])
next
  case (complete w x)
  then show ?thesis by (intro sched_fiber_inv_move [OF inv, where w = w and pc = At_Loop]) (auto simp: run_done_def)
next
  case (idle w)
  then show ?thesis by (intro sched_fiber_inv_move [OF inv, where w = w and pc = At_Loop]) (auto simp: run_idle_def)
qed (rule sched_fiber_inv_frame [OF inv]; simp add: scheduleLock_def Let_def)+

lemma sched_reach_inv: "sched_reach s \<Longrightarrow> sched_count_inv s \<and> sched_task_inv s \<and> sched_fiber_inv s"
proof (induction rule: sched_reach.induct)
  case (ctor threads use_caller w s)
  then have "sched_task_inv s" "sched_fiber_inv s"
    by (auto simp: scheduler_ctor_def sched_task_inv_def sched_fiber_inv_def split: if_splits)
  with count_inv_ctor [OF ctor] show ?case by blast
next
  case (step s s')
  then show ?case using count_inv_step task_inv_step fiber_inv_step_sched by blast
qed

lemma sched_reachD:
  assumes "sched_reach s"
  shows "sched_count_inv s" "sched_task_inv s" "sched_fiber_inv s"
  using sched_reach_inv [OF assms] by blast+

text \<open>The active counter is zero only when no worker is in flight.\<close>

lemma active_zero_iff:
  assumes "sched_count_inv s"
  shows "m_activeThreadCount s = 0 \<longleftrightarrow> in_flight (worker s) = {#}"
proof -
  have "m_activeThreadCount s = 0 \<longleftrightarrow> size (in_flight (worker s)) = 0"
    using assms size_in_flight [of "worker s"] unfolding sched_count_inv_def
    by (auto simp: word_of_nat_eq_0_iff dest: nat_dvd_not_less)
  then show ?thesis by simp
qed

section \<open>Draining\<close>


lemma stopping_set_worker [simp]: "stopping (set_worker w pc s) = stopping s"
  by (simp add: stopping_def set_worker_def)

lemma idle_term_set_worker [simp]: "idle_term (set_worker w pc s) = idle_term s"
  by (simp add: set_worker_def)







section \<open>A run of the scheduler\<close>

text \<open>
  One caller thread, id 7: it schedules a callback, calls \<^verbatim>\<open>stop\<close>, takes the task, and runs it
  to its end.
\<close>

definition demo_task :: "nat sched_task" where
  "demo_task = \<lparr>tk_fiber = None, tk_cb = Some 5, tk_thread = - 1\<rparr>"

definition demo_sched :: "nat scheduler" where
  "demo_sched = (case scheduler_ctor 1 True 7 of Inr s \<Rightarrow>
     (case stop 7 (scheduleLock demo_task s) of Inr (b, s1) \<Rightarrow> s1))"

definition demo_locking :: "nat scheduler" where
  "demo_locking = (case run_pick 7 demo_sched of Inr s \<Rightarrow> run_dispatch 7 (Some demo_task) False s)"

definition demo_drained :: "nat scheduler" where
  "demo_drained = (case run_lock 7 demo_task 0 demo_locking of Inr s \<Rightarrow>
     run_done 7 demo_task (run_unlock 7 demo_task 0 TERMINATED s))"

lemmas sched_eval = demo_task_def demo_sched_def demo_locking_def demo_drained_def scheduler_ctor_def
  scheduleLock_def stop_def stopping_def run_enter_def tickle_def run_pick_def run_dispatch_def
  run_lock_def run_unlock_def run_done_def set_worker_def Let_def

lemma demo_sched_reach: "sched_reach demo_sched"
proof -
  obtain s0 :: "nat scheduler" where 0: "scheduler_ctor 1 True 7 = Inr s0" by (simp add: scheduler_ctor_def)
  have "sched_step s0 (scheduleLock demo_task s0)" by (rule sched_step.schedule) (simp add: demo_task_def)
  with 0 have 1: "sched_reach (scheduleLock demo_task s0)" by (meson sched_reach.intros)
  obtain b s1 where 2: "stop 7 (scheduleLock demo_task s0) = Inr (b, s1)"
    using 0 by (auto simp: sched_eval)
  have "worker (scheduleLock demo_task s0) 7 = None" using 0 by (auto simp: sched_eval)
  from sched_reach.step [OF 1 sched_step.stop [OF this 2]] 0 2 show ?thesis
    by (simp add: demo_sched_def)
qed

lemma demo_locking_reach: "sched_reach demo_locking"
proof -
  obtain s where p: "run_pick 7 demo_sched = Inr s" by (simp add: sched_eval)
  have "worker demo_sched 7 = Some At_Loop" by (simp add: sched_eval)
  from sched_reach.step [OF demo_sched_reach sched_step.pick [OF this p]] have "sched_reach s" .
  moreover have "worker s 7 = Some (Picked (Some demo_task) False)" using p by (auto simp: sched_eval)
  ultimately show ?thesis using p by (simp add: demo_locking_def) (meson sched_reach.step sched_step.dispatch)
qed

lemma demo_drained_reach: "sched_reach demo_drained"
proof -
  obtain s where l: "run_lock 7 demo_task 0 demo_locking = Inr s" by (simp add: sched_eval)
  have "worker demo_locking 7 = Some (Locking demo_task 0)" "fib_mutex demo_locking 0 = None" by (simp_all add: sched_eval)
  from sched_reach.step [OF demo_locking_reach sched_step.lock [OF this l]] have r: "sched_reach s" .
  have "worker s 7 = Some (Resumed demo_task 0)" using l by (auto simp: sched_eval)
  from sched_reach.step [OF r sched_step.unlock [OF this, of TERMINATED]]
  have "sched_reach (run_unlock 7 demo_task 0 TERMINATED s)" by simp
  moreover have "worker (run_unlock 7 demo_task 0 TERMINATED s) 7 = Some (Unlocked demo_task)"
    by (simp add: run_unlock_def set_worker_def)
  ultimately show ?thesis using l by (simp add: demo_drained_def) (meson sched_reach.step sched_step.complete)
qed

section \<open>Properties\<close>

text \<open>
  C1. No task is lost and none is run twice, however the threads interleave: what was ever
  scheduled is finished, in the queue or in the hands of one worker; the active counter is the
  number of workers with a task; and a task pinned to a thread is in no other thread's hands.
\<close>

theorem scheduler_loses_no_task:
  assumes "sched_reach s"
  shows "scheduled s = finished s + mset (m_tasks s) + in_flight (worker s) \<and>
    unat (m_activeThreadCount s) = size (in_flight (worker s)) \<and>
    (\<forall>w x. x \<in># pc_tasks (worker s w) \<longrightarrow> tk_thread x = - 1 \<or> tk_thread x = w)"
  using sched_reachD(1,2) [OF assms] size_in_flight [of "worker s"]
  unfolding sched_count_inv_def sched_task_inv_def by (auto simp: unat_of_nat)

theorem scheduler_loses_no_task_witness:
  "scheduled demo_locking = {#demo_task#} \<and> finished demo_locking = {#} \<and>
     mset (m_tasks demo_locking) = {#} \<and> in_flight (worker demo_locking) = {#demo_task#} \<and>
     unat (m_activeThreadCount demo_locking) = 1"
proof -
  have "scheduled demo_locking = {#demo_task#}" "finished demo_locking = {#}" "m_tasks demo_locking = []"
    by (simp_all add: sched_eval)
  note v = this
  note all = scheduler_loses_no_task [OF demo_locking_reach]
  from all v have "{#demo_task#} = in_flight (worker demo_locking)" by simp
  then have fl: "in_flight (worker demo_locking) = {#demo_task#}" by (rule sym)
  from all have "unat (m_activeThreadCount demo_locking) = size (in_flight (worker demo_locking))" by blast
  with v fl show ?thesis by (simp only: size_single mset.simps simp_thms)
qed

text \<open>
  C20. \<^verbatim>\<open>stopping()\<close> means what \<^verbatim>\<open>stop\<close> relies on: it holds exactly when the stop was asked for and
  every task that was ever scheduled has finished, and then no worker has a task in hand.
\<close>

theorem stopping_means_all_finished:
  assumes "sched_reach s"
  shows "(stopping s \<longleftrightarrow> m_stopping s \<and> finished s = scheduled s) \<and>
    (stopping s \<longrightarrow> (\<forall>w. pc_tasks (worker s w) = {#}))"
proof -
  note inv = sched_reachD(1) [OF assms]
  have "stopping s \<longleftrightarrow> m_stopping s \<and> m_tasks s = [] \<and> in_flight (worker s) = {#}"
    by (simp add: stopping_def active_zero_iff [OF inv])
  moreover have "finished s = scheduled s \<longleftrightarrow> m_tasks s = [] \<and> in_flight (worker s) = {#}"
    using inv by (auto simp: sched_count_inv_def)
  ultimately show ?thesis by (simp add: in_flight_empty_iff)
qed

theorem stopping_means_all_finished_witness:
  "stopping demo_drained \<and> finished demo_drained = scheduled demo_drained \<and> \<not> stopping demo_locking"
proof -
  have "m_stopping demo_drained" "finished demo_drained = {#demo_task#}" "scheduled demo_drained = {#demo_task#}"
    "finished demo_locking = {#}" "scheduled demo_locking = {#demo_task#}"
    by (simp_all add: sched_eval)
  with stopping_means_all_finished [OF demo_drained_reach] stopping_means_all_finished [OF demo_locking_reach]
  show ?thesis by simp
qed

text \<open>
  C19. A fiber is resumed by one worker at a time, and the assertions of \<^verbatim>\<open>run\<close> hold: the scan of
  the queue never meets an empty task, a worker that gets a fiber's mutex never finds it running,
  and a mutex that is taken is held by a worker that is inside the fiber, so waiting for it does
  not go round in a circle.
\<close>

theorem run_resumes_exclusively:
  assumes "sched_reach s"
  shows "(\<forall>w x f. worker s w = Some (Locking x f) \<longrightarrow>
      (fib_mutex s f = None \<longrightarrow> (\<exists>s'. run_lock w x f s = Inr s')) \<and>
      (\<forall>u. fib_mutex s f = Some u \<longrightarrow> u \<noteq> w \<and> (\<exists>y. worker s u = Some (Resumed y f)))) \<and>
    (\<forall>u v x y f. worker s u = Some (Resumed x f) \<and> worker s v = Some (Resumed y f) \<longrightarrow> u = v) \<and>
    (\<forall>w. worker s w = Some At_Loop \<longrightarrow> (\<exists>s'. run_pick w s = Inr s'))"
proof -
  note finv = sched_reachD(3) [OF assms] and tinv = sched_reachD(2) [OF assms]
  have lock: "\<exists>s'. run_lock w x f s = Inr s'"
    if "worker s w = Some (Locking x f)" "fib_mutex s f = None" for w x f
    using fiber_inv_D(2) [OF finv, of f] fiber_inv_D(4) [OF finv that(1)] that(2)
    by (cases "fib_state s f") (auto simp: run_lock_def)
  have held: "u \<noteq> w \<and> (\<exists>y. worker s u = Some (Resumed y f))"
    if "worker s w = Some (Locking x f)" "fib_mutex s f = Some u" for w x f u
    using that fiber_inv_D(1) [OF finv, of f u] by auto
  have one: "u = v" if "worker s u = Some (Resumed x f)" "worker s v = Some (Resumed y f)" for u v x y f
    using that fiber_inv_D(1) [OF finv] by (metis option.inject)
  have pick: "\<exists>s'. run_pick w s = Inr s'" for w
    using tinv pick_task_total [of "m_tasks s" w]
    by (force simp: sched_task_inv_def task_ok_def run_pick_def)
  show ?thesis using lock held one pick by blast
qed

theorem run_resumes_exclusively_witness:
  "\<exists>s'. run_lock 7 demo_task 0 demo_locking = Inr s'"
proof -
  have "worker demo_locking 7 = Some (Locking demo_task 0)" "fib_mutex demo_locking 0 = None"
    by (simp_all add: sched_eval)
  with run_resumes_exclusively [OF demo_locking_reach] show ?thesis by blast
qed

text \<open>
  What a worker takes: the first task of the queue that is not pinned to another thread, the
  others stay in their order, and others are woken exactly when a task was skipped or one is left
  behind the task taken; with no such task the queue is untouched and they are woken when it is
  not empty.
\<close>

theorem run_pick_takes_first:
  assumes "sched_reach s" "worker s w = Some At_Loop"
  shows "(\<exists>pre x post s'. m_tasks s = pre @ x # post \<and>
      (\<forall>y \<in> set pre. tk_thread y \<noteq> - 1 \<and> tk_thread y \<noteq> w) \<and> (tk_thread x = - 1 \<or> tk_thread x = w) \<and>
      run_pick w s = Inr s' \<and> m_tasks s' = pre @ post \<and>
      worker s' w = Some (Picked (Some x) (pre \<noteq> [] \<or> post \<noteq> [])) \<and>
      m_activeThreadCount s' = m_activeThreadCount s + 1) \<or>
    (\<forall>y \<in> set (m_tasks s). tk_thread y \<noteq> - 1 \<and> tk_thread y \<noteq> w) \<and>
      run_pick w s = Inr (set_worker w (Picked None (m_tasks s \<noteq> [])) s)"
proof -
  have scan: "pick_task w (pre @ x # post) = Inr (Some x, pre @ post, pre \<noteq> [] \<or> post \<noteq> [])"
    if "\<forall>y \<in> set pre. tk_thread y \<noteq> - 1 \<and> tk_thread y \<noteq> w" "tk_thread x = - 1 \<or> tk_thread x = w"
      "tk_fiber x \<noteq> None \<or> tk_cb x \<noteq> None" for pre x post
    using that by (induction pre) auto
  have ok: "tk_fiber x \<noteq> None \<or> tk_cb x \<noteq> None" if "x \<in> set (m_tasks s)" for x
    using sched_reachD(2) [OF assms(1)] that by (auto simp: sched_task_inv_def task_ok_def)
  show ?thesis
  proof (cases "\<exists>x \<in> set (m_tasks s). tk_thread x = - 1 \<or> tk_thread x = w")
    case True
    then obtain pre x post where q: "m_tasks s = pre @ x # post" "tk_thread x = - 1 \<or> tk_thread x = w"
      "\<forall>y \<in> set pre. \<not> (tk_thread y = - 1 \<or> tk_thread y = w)"
      using split_list_first_prop [OF True] by blast
    from scan [of pre x post] q ok [of x] have "pick_task w (m_tasks s) = Inr (Some x, pre @ post, pre \<noteq> [] \<or> post \<noteq> [])"
      by simp
    with q show ?thesis
      by (intro disjI1 exI [of _ pre] exI [of _ x] exI [of _ post])
        (auto simp: run_pick_def set_worker_def)
  next
    case False
    then have "pick_task w (m_tasks s) = Inr (None, m_tasks s, m_tasks s \<noteq> [])" by (simp add: pick_task_none)
    with False show ?thesis by (simp add: run_pick_def set_worker_def)
  qed
qed

theorem run_pick_takes_first_witness:
  "\<exists>s'. run_pick 7 demo_sched = Inr s' \<and> m_tasks s' = []"
proof -
  have h: "worker demo_sched 7 = Some At_Loop" "m_tasks demo_sched = [demo_task]" "tk_thread demo_task = - 1"
    by (simp_all add: sched_eval)
  from run_pick_takes_first [OF demo_sched_reach h(1)] h(2,3) show ?thesis
    by (auto simp: Cons_eq_append_conv)
qed



text \<open>
  Without \<^verbatim>\<open>use_caller\<close> a scheduler cannot be stopped by the thread that made it: the
  constructor sets this thread's scheduler in any case, and \<^verbatim>\<open>stop\<close> asserts that it is not set.
\<close>

theorem stop_without_caller_faults:
  "0 < threads \<Longrightarrow> \<exists>s. scheduler_ctor threads False w = Inr s \<and> stop w s = Inl Assert_Failed \<and>
     (length ids = threads \<longrightarrow> (\<exists>s'. start ids s = Inr s' \<and> stop w s' = Inl Assert_Failed))"
proof -
  assume pos: "0 < threads"
  have ts: "t_scheduler (fold run_enter ws s) w = (w \<in> set ws \<or> t_scheduler s w)"
    "m_useCaller (fold run_enter ws s) = m_useCaller s" for ws and s :: "'c scheduler"
    by (induction ws arbitrary: s) (auto simp: run_enter_def)
  show ?thesis using pos
    by (auto simp: scheduler_ctor_def stop_def stopping_def start_def Let_def ts run_enter_fold)
qed

theorem stop_without_caller_faults_witness:
  "\<exists>s :: nat scheduler. scheduler_ctor 2 False 7 = Inr s \<and> stop 7 s = Inl Assert_Failed \<and>
     (length [8, 9 :: tid] = 2 \<longrightarrow> (\<exists>s'. start [8, 9] s = Inr s' \<and> stop 7 s' = Inl Assert_Failed))"
  by (rule stop_without_caller_faults) simp

end
