(* ===== verification/IO_Manager.thy ===== *)
theory IO_Manager
  imports Timer_Manager Scheduler
begin

text \<open>
  The I/O scheduler of \<^verbatim>\<open>src/CoroutineLibrary/ioscheduler.h\<close> and \<^verbatim>\<open>ioscheduler.cpp\<close>: which fiber
  or callback waits for which event of which descriptor, and what is asked of epoll. The contexts
  are objects behind the pointers of \<^verbatim>\<open>m_fdContexts\<close>. The kernel is not modelled: the result of
  each \<^verbatim>\<open>epoll_ctl\<close> is an argument and the calls are kept in \<open>ep_log\<close>, from which \<open>interest\<close>
  reads what epoll was last told.
\<close>

section \<open>State\<close>

definition NONE :: u32 where "NONE = 0"
definition READ :: u32 where "READ = 1"
definition WRITE :: u32 where "WRITE = 4"
definition EPOLLIN :: u32 where "EPOLLIN = 1"
definition EPOLLOUT :: u32 where "EPOLLOUT = 4"
definition EPOLLERR :: u32 where "EPOLLERR = 8"
definition EPOLLHUP :: u32 where "EPOLLHUP = 16"
definition EPOLLET :: u32 where "EPOLLET = 2147483648"

lemmas event_defs = NONE_def READ_def WRITE_def EPOLLIN_def EPOLLOUT_def EPOLLERR_def EPOLLHUP_def EPOLLET_def

datatype epoll_op = EPOLL_CTL_ADD | EPOLL_CTL_MOD | EPOLL_CTL_DEL

record 'c event_context =
  ev_scheduler :: "nat option"
  ev_fiber :: "nat option"
  ev_cb :: "'c callback option"

record 'c fd_context =
  read_ctx :: "'c event_context"
  write_ctx :: "'c event_context"
  ctx_fd :: int
  events :: u32

text \<open>
  \<open>schedulers\<close> holds the schedulers by identity, as an event remembers the one of the thread that
  registered it; \<open>self\<close> is the one this object is.
\<close>

record 'c io_manager =
  m_fdContexts :: "nat list"
  fdctx :: "nat \<Rightarrow> 'c fd_context"
  next_ctx :: nat
  m_pendingEventCount :: u64
  ep_log :: "(epoll_op \<times> int \<times> u32 \<times> int) list"
  schedulers :: "nat \<Rightarrow> 'c callback scheduler"
  self :: nat
  timers :: "'c timer_manager"
  pipe_writes :: nat

definition no_event :: "'c event_context" where
  "no_event = \<lparr>ev_scheduler = None, ev_fiber = None, ev_cb = None\<rparr>"

definition new_context :: "int \<Rightarrow> 'c fd_context" where
  "new_context fd = \<lparr>read_ctx = no_event, write_ctx = no_event, ctx_fd = fd, events = NONE\<rparr>"

section \<open>Events of a descriptor\<close>

definition getEventContext :: "u32 \<Rightarrow> 'c fd_context \<Rightarrow> 'c event_context result" where
  "getEventContext event c =
     (if event = READ then Inr (read_ctx c) else if event = WRITE then Inr (write_ctx c) else Inl Assert_Failed)"

definition setEventContext :: "u32 \<Rightarrow> 'c event_context \<Rightarrow> 'c fd_context \<Rightarrow> 'c fd_context" where
  "setEventContext event e c = (if event = READ then c\<lparr>read_ctx := e\<rparr> else c\<lparr>write_ctx := e\<rparr>)"

definition resetEventContext :: "u32 \<Rightarrow> 'c fd_context \<Rightarrow> 'c fd_context" where
  "resetEventContext event c = setEventContext event no_event c"

definition upd_ctx :: "nat \<Rightarrow> ('c fd_context \<Rightarrow> 'c fd_context) \<Rightarrow> 'c io_manager \<Rightarrow> 'c io_manager" where
  "upd_ctx p g s = s\<lparr>fdctx := (fdctx s)(p := g (fdctx s p))\<rparr>"

definition event_task :: "'c event_context \<Rightarrow> 'c callback sched_task" where
  "event_task e = (case ev_cb e of
      Some cb \<Rightarrow> \<lparr>tk_fiber = None, tk_cb = Some cb, tk_thread = - 1\<rparr>
    | None \<Rightarrow> \<lparr>tk_fiber = ev_fiber e, tk_cb = None, tk_thread = - 1\<rparr>)"

definition triggerEvent :: "nat \<Rightarrow> u32 \<Rightarrow> 'c io_manager \<Rightarrow> 'c io_manager result" where
  "triggerEvent p event s =
     (if events (fdctx s p) AND event = 0 then Inl Assert_Failed
      else
        let s1 = upd_ctx p (\<lambda>c. c\<lparr>events := events c AND NOT event\<rparr>) s in
        result_bind (getEventContext event (fdctx s1 p)) (\<lambda>e.
          case ev_scheduler e of
            None \<Rightarrow> Inl Null_Deref
          | Some k \<Rightarrow> Inr (upd_ctx p (resetEventContext event)
              (s1\<lparr>schedulers := (schedulers s1)(k := scheduleLock (event_task e) (schedulers s1 k))\<rparr>))))"

section \<open>The table of contexts\<close>

definition contextResize :: "nat \<Rightarrow> 'c io_manager \<Rightarrow> 'c io_manager" where
  "contextResize sz s =
     (let keep = take sz (m_fdContexts s); n = sz - length keep; p = next_ctx s in
      s\<lparr>m_fdContexts := keep @ [p ..< p + n], next_ctx := p + n,
        fdctx := (\<lambda>q. if p \<le> q \<and> q < p + n then new_context (int (length keep + (q - p))) else fdctx s q)\<rparr>)"

text \<open>\<^verbatim>\<open>m_fdContexts[fd]\<close> with an \<^verbatim>\<open>int\<close> index, and the test \<^verbatim>\<open>(int)m_fdContexts.size() > fd\<close>.\<close>

definition ctx_at :: "int \<Rightarrow> 'c io_manager \<Rightarrow> nat result" where
  "ctx_at fd s = (if fd < 0 then Inl Out_Of_Bounds else vec_at (m_fdContexts s) (nat fd))"

definition ctx_in_range :: "int \<Rightarrow> 'c io_manager \<Rightarrow> bool" where
  "ctx_in_range fd s \<longleftrightarrow> fd < int (length (m_fdContexts s))"

text \<open>
  The lookup of \<^verbatim>\<open>addEvent\<close>: the size is tested under the read lock, the table is resized under
  the write lock, and nothing is tested again in between.
\<close>

definition addEvent_resize :: "int \<Rightarrow> 'c io_manager \<Rightarrow> (nat \<times> 'c io_manager) result" where
  "addEvent_resize fd s =
     (let s1 = contextResize (nat (fd * 3 div 2)) s in result_bind (ctx_at fd s1) (\<lambda>p. Inr (p, s1)))"

definition addEvent_find :: "int \<Rightarrow> 'c io_manager \<Rightarrow> (nat \<times> 'c io_manager) result" where
  "addEvent_find fd s =
     (if ctx_in_range fd s then result_bind (ctx_at fd s) (\<lambda>p. Inr (p, s)) else addEvent_resize fd s)"

definition epoll_ctl :: "epoll_op \<Rightarrow> int \<Rightarrow> u32 \<Rightarrow> int \<Rightarrow> 'c io_manager \<Rightarrow> 'c io_manager" where
  "epoll_ctl op fd ev rt s = s\<lparr>ep_log := ep_log s @ [(op, fd, ev, rt)]\<rparr>"

text \<open>
  \<^verbatim>\<open>addEvent\<close> under the mutex of the context: \<open>rt\<close> is the answer of epoll, \<open>sched\<close> the scheduler
  of the calling thread, \<open>fiber\<close> and \<open>st\<close> its current fiber and that one's state.
\<close>

definition addEvent_at :: "nat \<Rightarrow> int \<Rightarrow> u32 \<Rightarrow> 'c callback option \<Rightarrow> int \<Rightarrow> nat option \<Rightarrow> nat \<Rightarrow> fiber_state \<Rightarrow>
    'c io_manager \<Rightarrow> (int \<times> 'c io_manager) result" where
  "addEvent_at p fd event cb rt sched fiber st s =
     (let c = fdctx s p in
      if events c AND event \<noteq> 0 then Inr (- 1, s)
      else
        let op = (if events c \<noteq> 0 then EPOLL_CTL_MOD else EPOLL_CTL_ADD);
            s1 = epoll_ctl op fd (EPOLLET OR events c OR event) rt s in
        if rt \<noteq> 0 then Inr (- 1, s1)
        else
          let s2 = upd_ctx p (\<lambda>c. c\<lparr>events := events c OR event\<rparr>)
                (s1\<lparr>m_pendingEventCount := m_pendingEventCount s1 + 1\<rparr>) in
          result_bind (getEventContext event (fdctx s2 p)) (\<lambda>e.
            if ev_scheduler e \<noteq> None \<or> ev_fiber e \<noteq> None \<or> ev_cb e \<noteq> None then Inl Assert_Failed
            else if cb \<noteq> None
              then Inr (0, upd_ctx p (setEventContext event (e\<lparr>ev_scheduler := sched, ev_cb := cb\<rparr>)) s2)
            else if st \<noteq> RUNNING then Inl Assert_Failed
            else Inr (0, upd_ctx p (setEventContext event (e\<lparr>ev_scheduler := sched, ev_fiber := Some fiber\<rparr>)) s2)))"

definition addEvent :: "int \<Rightarrow> u32 \<Rightarrow> 'c callback option \<Rightarrow> int \<Rightarrow> nat option \<Rightarrow> nat \<Rightarrow> fiber_state \<Rightarrow>
    'c io_manager \<Rightarrow> (int \<times> 'c io_manager) result" where
  "addEvent fd event cb rt sched fiber st s =
     result_bind (addEvent_find fd s) (\<lambda>(p, s1). addEvent_at p fd event cb rt sched fiber st s1)"

text \<open>
  The other operations return \<^verbatim>\<open>bool\<close>; their \<^verbatim>\<open>return -1\<close> after a failed \<^verbatim>\<open>epoll_ctl\<close> is \<open>True\<close>.
\<close>

definition remove_op :: "u32 \<Rightarrow> epoll_op" where
  "remove_op new_events = (if new_events \<noteq> 0 then EPOLL_CTL_MOD else EPOLL_CTL_DEL)"

definition delEvent_at :: "nat \<Rightarrow> int \<Rightarrow> u32 \<Rightarrow> int \<Rightarrow> 'c io_manager \<Rightarrow> (bool \<times> 'c io_manager) result" where
  "delEvent_at p fd event rt s =
     (let c = fdctx s p in
      if events c AND event = 0 then Inr (False, s)
      else
        let new_events = events c AND NOT event;
            s1 = epoll_ctl (remove_op new_events) fd (EPOLLET OR new_events) rt s in
        if rt \<noteq> 0 then Inr (True, s1)
        else
          let s2 = upd_ctx p (\<lambda>c. c\<lparr>events := new_events\<rparr>)
                (s1\<lparr>m_pendingEventCount := m_pendingEventCount s1 - 1\<rparr>) in
          result_bind (getEventContext event (fdctx s2 p)) (\<lambda>_.
            Inr (True, upd_ctx p (resetEventContext event) s2)))"

definition delEvent :: "int \<Rightarrow> u32 \<Rightarrow> int \<Rightarrow> 'c io_manager \<Rightarrow> (bool \<times> 'c io_manager) result" where
  "delEvent fd event rt s =
     (if ctx_in_range fd s then result_bind (ctx_at fd s) (\<lambda>p. delEvent_at p fd event rt s)
      else Inr (False, s))"

definition cancelEvent_at :: "nat \<Rightarrow> int \<Rightarrow> u32 \<Rightarrow> int \<Rightarrow> 'c io_manager \<Rightarrow> (bool \<times> 'c io_manager) result" where
  "cancelEvent_at p fd event rt s =
     (let c = fdctx s p in
      if events c AND event = 0 then Inr (False, s)
      else
        let new_events = events c AND NOT event;
            s1 = epoll_ctl (remove_op new_events) fd (EPOLLET OR new_events) rt s in
        if rt \<noteq> 0 then Inr (True, s1)
        else result_bind (triggerEvent p event (s1\<lparr>m_pendingEventCount := m_pendingEventCount s1 - 1\<rparr>))
          (\<lambda>s2. Inr (True, s2)))"

definition cancelEvent :: "int \<Rightarrow> u32 \<Rightarrow> int \<Rightarrow> 'c io_manager \<Rightarrow> (bool \<times> 'c io_manager) result" where
  "cancelEvent fd event rt s =
     (if ctx_in_range fd s then result_bind (ctx_at fd s) (\<lambda>p. cancelEvent_at p fd event rt s)
      else Inr (False, s))"

text \<open>\<^verbatim>\<open>if (set & event) { triggerEvent(event); --m_pendingEventCount; }\<close>\<close>

definition trigger_if :: "bool \<Rightarrow> nat \<Rightarrow> u32 \<Rightarrow> 'c io_manager \<Rightarrow> 'c io_manager result" where
  "trigger_if cond p event s =
     (if cond then result_bind (triggerEvent p event s)
        (\<lambda>s1. Inr (s1\<lparr>m_pendingEventCount := m_pendingEventCount s1 - 1\<rparr>))
      else Inr s)"

definition cancelAll_at :: "nat \<Rightarrow> int \<Rightarrow> int \<Rightarrow> 'c io_manager \<Rightarrow> (bool \<times> 'c io_manager) result" where
  "cancelAll_at p fd rt s =
     (if events (fdctx s p) = 0 then Inr (False, s)
      else
        let s1 = epoll_ctl EPOLL_CTL_DEL fd 0 rt s in
        if rt \<noteq> 0 then Inr (True, s1)
        else
          result_bind (trigger_if (events (fdctx s1 p) AND READ \<noteq> 0) p READ s1) (\<lambda>s2.
          result_bind (trigger_if (events (fdctx s2 p) AND WRITE \<noteq> 0) p WRITE s2) (\<lambda>s3.
          if events (fdctx s3 p) \<noteq> 0 then Inl Assert_Failed else Inr (True, s3))))"

definition cancelAll :: "int \<Rightarrow> int \<Rightarrow> 'c io_manager \<Rightarrow> (bool \<times> 'c io_manager) result" where
  "cancelAll fd rt s =
     (if ctx_in_range fd s then result_bind (ctx_at fd s) (\<lambda>p. cancelAll_at p fd rt s)
      else Inr (False, s))"

section \<open>The idle loop\<close>

definition real_events :: "u32 \<Rightarrow> u32 \<Rightarrow> u32" where
  "real_events registered ev =
     (let ev' = (if ev AND (EPOLLERR OR EPOLLHUP) \<noteq> 0 then ev OR ((EPOLLIN OR EPOLLOUT) AND registered) else ev)
      in (if ev' AND EPOLLIN \<noteq> 0 then READ else NONE) OR (if ev' AND EPOLLOUT \<noteq> 0 then WRITE else NONE))"

text \<open>One event of a descriptor that \<^verbatim>\<open>epoll_wait\<close> returned, under the mutex of its context.\<close>

definition idle_event :: "nat \<Rightarrow> u32 \<Rightarrow> int \<Rightarrow> 'c io_manager \<Rightarrow> 'c io_manager result" where
  "idle_event p ev rt2 s =
     (let c = fdctx s p; real = real_events (events c) ev in
      if events c AND real = NONE then Inr s
      else
        let left_events = events c AND NOT real;
            s1 = epoll_ctl (remove_op left_events) (ctx_fd c) (EPOLLET OR left_events) rt2 s in
        if rt2 \<noteq> 0 then Inr s1
        else
          result_bind (trigger_if (real AND READ \<noteq> 0) p READ s1) (\<lambda>s2.
          trigger_if (real AND WRITE \<noteq> 0) p WRITE s2))"

text \<open>The events of one \<^verbatim>\<open>epoll_wait\<close>, each the tickle pipe (\<open>None\<close>) or a context, with epoll's answers.\<close>

fun idle_events :: "(nat option \<times> u32) list \<Rightarrow> int list \<Rightarrow> 'c io_manager \<Rightarrow> 'c io_manager result" where
  "idle_events [] rts s = Inr s"
| "idle_events ((None, ev) # evs) rts s = idle_events evs rts s"
| "idle_events ((Some p, ev) # evs) rts s =
     result_bind (idle_event p ev (case rts of [] \<Rightarrow> 0 | r # _ \<Rightarrow> r) s)
       (\<lambda>s1. idle_events evs (if length (ep_log s1) = length (ep_log s) then rts else drop 1 rts) s1)"

text \<open>\<^verbatim>\<open>(int)std::min(getNextTimer(), MAX_TIMEOUT)\<close>.\<close>

definition idle_timeout :: "int \<Rightarrow> 'c io_manager \<Rightarrow> int \<times> 'c io_manager" where
  "idle_timeout now s =
     (let (next_timeout, t) = getNextTimer now (timers s)
      in (sint (ucast (min next_timeout 5000) :: u32), s\<lparr>timers := t\<rparr>))"

definition cb_task :: "'c callback option \<Rightarrow> 'c callback sched_task" where
  "cb_task cb = \<lparr>tk_fiber = None, tk_cb = cb, tk_thread = - 1\<rparr>"

definition schedule_all :: "'c callback option list \<Rightarrow> 'c callback scheduler \<Rightarrow> 'c callback scheduler" where
  "schedule_all cbs k = fold (\<lambda>cb. scheduleLock (cb_task cb)) cbs k"

definition idle_expire :: "int \<Rightarrow> int \<Rightarrow> 'c io_manager \<Rightarrow> 'c io_manager option" where
  "idle_expire now now' s =
     (case listExpiredCb now now' (timers s) of
        None \<Rightarrow> None
      | Some (cbs, t) \<Rightarrow> Some (s\<lparr>timers := t,
          schedulers := (schedulers s)(self s := schedule_all cbs (schedulers s (self s)))\<rparr>))"

definition io_stopping :: "int \<Rightarrow> 'c io_manager \<Rightarrow> bool \<times> 'c io_manager" where
  "io_stopping now s =
     (let (timeout, t) = getNextTimer now (timers s)
      in (timeout = - 1 \<and> m_pendingEventCount s = 0 \<and> stopping (schedulers s (self s)), s\<lparr>timers := t\<rparr>))"

text \<open>\<^verbatim>\<open>IOManager::tickle\<close>; \<open>wr\<close> is the answer of \<^verbatim>\<open>write\<close>.\<close>

definition io_tickle :: "int \<Rightarrow> 'c io_manager \<Rightarrow> 'c io_manager result" where
  "io_tickle wr s =
     (if \<not> 0 < m_idleThreadCount (schedulers s (self s)) then Inr s
      else if wr \<noteq> 1 then Inl Assert_Failed
      else Inr (s\<lparr>pipe_writes := Suc (pipe_writes s)\<rparr>))"

definition onTimerInsertedAtFront :: "int \<Rightarrow> 'c io_manager \<Rightarrow> 'c io_manager result" where
  "onTimerInsertedAtFront wr s = io_tickle wr s"

text \<open>
  The constructor on thread \<open>w\<close> at time \<open>now\<close>: the descriptor of epoll and the answers of
  \<^verbatim>\<open>pipe\<close>, \<^verbatim>\<open>fcntl\<close> and \<^verbatim>\<open>epoll_ctl\<close> are arguments, as are the ids of the threads \<^verbatim>\<open>start\<close> makes.
\<close>

definition io_ctor :: "nat \<Rightarrow> bool \<Rightarrow> tid \<Rightarrow> int \<Rightarrow> int \<Rightarrow> int \<Rightarrow> int \<Rightarrow> int \<Rightarrow> tid list \<Rightarrow> 'c io_manager result" where
  "io_ctor threads use_caller w now epfd pipe_rt fcntl_rt ctl_rt ids =
     result_bind (scheduler_ctor threads use_caller w) (\<lambda>k.
       if \<not> 0 < epfd then Inl Assert_Failed
       else if pipe_rt \<noteq> 0 then Inl Assert_Failed
       else if fcntl_rt \<noteq> 0 then Inl Assert_Failed
       else if ctl_rt \<noteq> 0 then Inl Assert_Failed
       else
         let s = contextResize 32 \<lparr>m_fdContexts = [], fdctx = (\<lambda>_. new_context 0), next_ctx = 0,
               m_pendingEventCount = 0, ep_log = [], schedulers = (\<lambda>_. k), self = 0,
               timers = manager_ctor now, pipe_writes = 0\<rparr>
         in result_bind (start ids k) (\<lambda>k'. Inr (s\<lparr>schedulers := (\<lambda>_. k')\<rparr>)))"

section \<open>What epoll was told\<close>

text \<open>
  The interest of epoll in a descriptor after a log of calls (newest first), and whether every call
  was one epoll accepts: \<^verbatim>\<open>ADD\<close> of a descriptor it does not have, \<^verbatim>\<open>MOD\<close> and \<^verbatim>\<open>DEL\<close> of one it has.
\<close>

fun interest_rev :: "(epoll_op \<times> int \<times> u32 \<times> int) list \<Rightarrow> int \<Rightarrow> u32 option" where
  "interest_rev [] fd = None"
| "interest_rev ((op, f, ev, rt) # log) fd =
     (if f = fd \<and> rt = 0 then (if op = EPOLL_CTL_DEL then None else Some ev) else interest_rev log fd)"

fun legal_rev :: "(epoll_op \<times> int \<times> u32 \<times> int) list \<Rightarrow> bool" where
  "legal_rev [] = True"
| "legal_rev ((op, f, ev, rt) # log) \<longleftrightarrow>
     legal_rev log \<and> (op = EPOLL_CTL_ADD \<longleftrightarrow> interest_rev log f = None)"

definition interest :: "'c io_manager \<Rightarrow> int \<Rightarrow> u32 option" where
  "interest s fd = interest_rev (rev (ep_log s)) fd"

definition epoll_calls_legal :: "'c io_manager \<Rightarrow> bool" where
  "epoll_calls_legal s \<longleftrightarrow> legal_rev (rev (ep_log s))"

section \<open>The invariant\<close>

definition armed :: "'c event_context \<Rightarrow> bool" where
  "armed e \<longleftrightarrow> ev_scheduler e \<noteq> None \<and> (ev_fiber e \<noteq> None \<or> ev_cb e \<noteq> None)"

definition ctx_ok :: "'c fd_context \<Rightarrow> bool" where
  "ctx_ok c \<longleftrightarrow> (events c = 0 \<or> events c = 1 \<or> events c = 4 \<or> events c = 5) \<and>
     (if events c AND 1 = 0 then read_ctx c = no_event else armed (read_ctx c)) \<and>
     (if events c AND 4 = 0 then write_ctx c = no_event else armed (write_ctx c))"

definition event_count :: "u32 \<Rightarrow> nat" where
  "event_count e = (if e AND 1 \<noteq> 0 then 1 else 0) + (if e AND 4 \<noteq> 0 then 1 else 0)"

definition registered :: "'c io_manager \<Rightarrow> nat" where
  "registered s = (\<Sum>p<next_ctx s. event_count (events (fdctx s p)))"

text \<open>
  Context \<open>i\<close> is the one of descriptor \<open>i\<close>; the events in it are the ones with a waiter; epoll was
  told of exactly these; and the pending counter counts them.
\<close>

definition io_inv :: "'c io_manager \<Rightarrow> bool" where
  "io_inv s \<longleftrightarrow> m_fdContexts s = [0..<next_ctx s] \<and>
     (\<forall>p < next_ctx s. ctx_fd (fdctx s p) = int p \<and> ctx_ok (fdctx s p) \<and>
        interest s (int p) = (if events (fdctx s p) = 0 then None else Some (EPOLLET OR events (fdctx s p)))) \<and>
     (\<forall>p. next_ctx s \<le> p \<longrightarrow> interest s (int p) = None) \<and>
     epoll_calls_legal s \<and> m_pendingEventCount s = of_nat (registered s)"

lemma io_inv_D:
  assumes "io_inv s"
  shows "m_fdContexts s = [0..<next_ctx s]" "epoll_calls_legal s" "m_pendingEventCount s = of_nat (registered s)"
    and "p < next_ctx s \<Longrightarrow> ctx_fd (fdctx s p) = int p"
    and "p < next_ctx s \<Longrightarrow> ctx_ok (fdctx s p)"
    and "p < next_ctx s \<Longrightarrow> interest s (int p) =
      (if events (fdctx s p) = 0 then None else Some (EPOLLET OR events (fdctx s p)))"
    and "next_ctx s \<le> p \<Longrightarrow> interest s (int p) = None"
  using assms by (auto simp: io_inv_def)

lemma registered_upd:
  assumes "p < next_ctx s" "fdctx s' = (fdctx s)(p := c)" "next_ctx s' = next_ctx s"
  shows "registered s' + event_count (events (fdctx s p)) = registered s + event_count (events c)"
proof -
  have p: "p \<in> {..<next_ctx s}" using assms(1) by simp
  have "(\<Sum>q\<in>{..<next_ctx s} - {p}. event_count (events (fdctx s' q))) =
      (\<Sum>q\<in>{..<next_ctx s} - {p}. event_count (events (fdctx s q)))"
    by (rule sum.cong) (simp_all add: assms(2))
  with sum.remove [OF _ p, of "\<lambda>q. event_count (events (fdctx s q))"]
    sum.remove [OF _ p, of "\<lambda>q. event_count (events (fdctx s' q))"]
  show ?thesis by (simp add: registered_def assms(2,3))
qed

text \<open>The call that goes with a change of a context's events from \<open>e\<close> to \<open>e'\<close>.\<close>

definition epoll_told :: "nat \<Rightarrow> u32 \<Rightarrow> u32 \<Rightarrow> (epoll_op \<times> int \<times> u32 \<times> int) list \<Rightarrow> bool" where
  "epoll_told p e e' calls \<longleftrightarrow> calls = [] \<and> e' = e \<or>
     (\<exists>op ev rt. calls = [(op, int p, ev, rt)] \<and> (op = EPOLL_CTL_ADD \<longleftrightarrow> e = 0) \<and>
        (if rt \<noteq> 0 then e' = e
         else if op = EPOLL_CTL_DEL then e' = 0 else e' \<noteq> 0 \<and> ev = EPOLLET OR e'))"

lemma io_inv_upd:
  assumes inv: "io_inv s" and p: "p < next_ctx s"
    and s': "fdctx s' = (fdctx s)(p := c)" "m_fdContexts s' = m_fdContexts s" "next_ctx s' = next_ctx s"
    and c: "ctx_fd c = int p" "ctx_ok c"
    and log: "ep_log s' = ep_log s @ calls" "epoll_told p (events (fdctx s p)) (events c) calls"
    and pend: "m_pendingEventCount s' + of_nat (event_count (events (fdctx s p))) =
      m_pendingEventCount s + of_nat (event_count (events c))"
  shows "io_inv s'"
proof -
  note D = io_inv_D [OF inv]
  have int_p: "interest s' (int p) = (if events c = 0 then None else Some (EPOLLET OR events c))"
    using log D(6) [OF p] by (auto simp: epoll_told_def interest_def split: if_splits)
  have int_q: "interest s' (int q) = interest s (int q)" if "q \<noteq> p" for q
    using log that by (auto simp: epoll_told_def interest_def)
  have legal: "epoll_calls_legal s'"
    using log D(2) D(6) [OF p] by (auto simp: epoll_told_def epoll_calls_legal_def interest_def split: if_splits)
  have "of_nat (registered s') + of_nat (event_count (events (fdctx s p))) =
      (of_nat (registered s) + of_nat (event_count (events c)) :: u64)"
    unfolding of_nat_add [symmetric] registered_upd [OF p s'(1,3)] ..
  with pend D(3) have pc: "m_pendingEventCount s' = of_nat (registered s')"
    by (metis add_right_cancel)
  have "interest s' (int q) = (if events (fdctx s' q) = 0 then None else Some (EPOLLET OR events (fdctx s' q))) \<and>
      ctx_fd (fdctx s' q) = int q \<and> ctx_ok (fdctx s' q)" if "q < next_ctx s" for q
    using int_p int_q c D(4-6) [OF that] by (cases "q = p") (simp_all add: s'(1))
  moreover have "interest s' (int q) = None" if "next_ctx s \<le> q" for q
    using int_q D(7) [OF that] p that by simp
  ultimately show ?thesis
    unfolding io_inv_def using legal pc D(1) by (simp add: s'(2,3))
qed

text \<open>Changes outside the contexts do not matter.\<close>

lemma io_inv_other:
  "io_inv s \<Longrightarrow> io_inv (s\<lparr>schedulers := X, timers := Y, pipe_writes := Z\<rparr>)"
  by (simp add: io_inv_def interest_def epoll_calls_legal_def registered_def)

lemma io_inv_resize:
  assumes inv: "io_inv s" and grow: "length (m_fdContexts s) \<le> n"
  shows "io_inv (contextResize n s)" "next_ctx (contextResize n s) = n"
proof -
  let ?s = "contextResize n s"
  note D = io_inv_D [OF inv]
  have le: "next_ctx s \<le> n" using grow D(1) by simp
  have s': "m_fdContexts ?s = [0..<n]" "next_ctx ?s = n" "ep_log ?s = ep_log s"
    "m_pendingEventCount ?s = m_pendingEventCount s"
    "fdctx ?s p = (if next_ctx s \<le> p \<and> p < n then new_context (int p) else fdctx s p)" for p
    using le D(1) upt_add_eq_append [of 0 "next_ctx s" "n - next_ctx s"]
    by (auto simp: contextResize_def Let_def)
  show "next_ctx ?s = n" by (rule s')
  have same: "interest ?s = interest s" by (rule ext) (simp add: interest_def s')
  have "registered ?s = registered s"
  proof -
    have "{..<n} = {..<next_ctx s} \<union> {next_ctx s..<n}" "{..<next_ctx s} \<inter> {next_ctx s..<n} = {}" using le by auto
    then have "registered ?s = (\<Sum>p<next_ctx s. event_count (events (fdctx ?s p))) +
        (\<Sum>p\<in>{next_ctx s..<n}. event_count (events (fdctx ?s p)))"
      by (simp add: registered_def s'(2) sum.union_disjoint)
    moreover have "(\<Sum>p\<in>{next_ctx s..<n}. event_count (events (fdctx ?s p))) = 0"
      by (rule sum.neutral) (simp add: s'(5) new_context_def event_count_def NONE_def)
    moreover have "(\<Sum>p<next_ctx s. event_count (events (fdctx ?s p))) = registered s"
      unfolding registered_def by (rule sum.cong) (simp_all add: s'(5))
    ultimately show ?thesis by simp
  qed
  moreover have "ctx_fd (fdctx ?s p) = int p \<and> ctx_ok (fdctx ?s p) \<and> interest ?s (int p) =
      (if events (fdctx ?s p) = 0 then None else Some (EPOLLET OR events (fdctx ?s p)))" if "p < n" for p
  proof (cases "p < next_ctx s")
    case True
    with D(4-6) [OF True] show ?thesis by (simp add: s'(5) same)
  next
    case False
    with that D(7) [of p] show ?thesis by (simp add: s'(5) same new_context_def ctx_ok_def NONE_def)
  qed
  ultimately show "io_inv ?s"
    using D(2,3,7) le unfolding io_inv_def same s' by (simp add: epoll_calls_legal_def s')
qed

section \<open>What the operations do\<close>

definition waiting :: "u32 \<Rightarrow> 'c fd_context \<Rightarrow> 'c event_context" where
  "waiting event c = (if event = READ then read_ctx c else write_ctx c)"

definition hand_over :: "'c event_context \<Rightarrow> (nat \<Rightarrow> 'c callback scheduler) \<Rightarrow> nat \<Rightarrow> 'c callback scheduler" where
  "hand_over e ks = (let k = the (ev_scheduler e) in ks(k := scheduleLock (event_task e) (ks k)))"

text \<open>The state after \<^verbatim>\<open>triggerEvent\<close>.\<close>

definition triggered :: "nat \<Rightarrow> u32 \<Rightarrow> 'c io_manager \<Rightarrow> 'c io_manager" where
  "triggered p event s = s\<lparr>
     fdctx := (fdctx s)(p := resetEventContext event
       ((fdctx s p)\<lparr>events := events (fdctx s p) AND NOT event\<rparr>)),
     schedulers := hand_over (waiting event (fdctx s p)) (schedulers s)\<rparr>"

lemma triggered_simps [simp]:
  "m_fdContexts (triggered p event s) = m_fdContexts s" "next_ctx (triggered p event s) = next_ctx s"
  "m_pendingEventCount (triggered p event s) = m_pendingEventCount s" "ep_log (triggered p event s) = ep_log s"
  "fdctx (triggered p event s) = (fdctx s)(p := resetEventContext event
       ((fdctx s p)\<lparr>events := events (fdctx s p) AND NOT event\<rparr>))"
  "schedulers (triggered p event s) = hand_over (waiting event (fdctx s p)) (schedulers s)"
  "timers (triggered p event s) = timers s" "self (triggered p event s) = self s"
  "pipe_writes (triggered p event s) = pipe_writes s"
  by (simp_all add: triggered_def)

lemma ctx_okE:
  assumes "ctx_ok c"
    and "events c = 0 \<Longrightarrow> read_ctx c = no_event \<Longrightarrow> write_ctx c = no_event \<Longrightarrow> P"
    and "events c = 1 \<Longrightarrow> armed (read_ctx c) \<Longrightarrow> write_ctx c = no_event \<Longrightarrow> P"
    and "events c = 4 \<Longrightarrow> read_ctx c = no_event \<Longrightarrow> armed (write_ctx c) \<Longrightarrow> P"
    and "events c = 5 \<Longrightarrow> armed (read_ctx c) \<Longrightarrow> armed (write_ctx c) \<Longrightarrow> P"
  shows P
  using assms by (auto simp: ctx_ok_def)

lemma reset_ctx_sel [simp]:
  "events (resetEventContext e c) = events c" "ctx_fd (resetEventContext e c) = ctx_fd c"
  "read_ctx (resetEventContext e c) = (if e = READ then no_event else read_ctx c)"
  "write_ctx (resetEventContext e c) = (if e = READ then write_ctx c else no_event)"
  by (simp_all add: resetEventContext_def setEventContext_def)

lemma set_ctx_sel [simp]:
  "events (setEventContext e x c) = events c" "ctx_fd (setEventContext e x c) = ctx_fd c"
  "read_ctx (setEventContext e x c) = (if e = READ then x else read_ctx c)"
  "write_ctx (setEventContext e x c) = (if e = READ then write_ctx c else x)"
  by (simp_all add: setEventContext_def)

lemma trigger_result:
  assumes ok: "ctx_ok (fdctx s p)" and e: "event = READ \<or> event = WRITE" "events (fdctx s p) AND event \<noteq> 0"
  shows "triggerEvent p event s = Inr (triggered p event s)"
proof -
  have "armed (waiting event (fdctx s p))"
    using ok e by (auto simp: ctx_ok_def waiting_def event_defs split: if_splits)
  then obtain k where "ev_scheduler (waiting event (fdctx s p)) = Some k" by (auto simp: armed_def)
  with e show ?thesis
    by (auto simp: triggerEvent_def upd_ctx_def getEventContext_def triggered_def hand_over_def waiting_def
        Let_def event_defs)
qed

lemma ctx_ok_less:
  assumes "ctx_ok c" "event = READ \<or> event = WRITE"
  shows "ctx_ok (resetEventContext event (c\<lparr>events := events c AND NOT event\<rparr>))"
  using assms by (elim ctx_okE disjE) (auto simp: ctx_ok_def event_defs)

lemma event_count_less:
  assumes "ctx_ok c" "event = READ \<or> event = WRITE" "events c AND event \<noteq> 0"
  shows "event_count (events c) = Suc (event_count (events c AND NOT event))"
  using assms by (elim ctx_okE disjE) (auto simp: event_count_def event_defs)

lemma told_less:
  assumes "events (fdctx s p) AND event \<noteq> 0" "ctx_ok (fdctx s p)" "event = READ \<or> event = WRITE"
    and "e' = (if rt = 0 then events (fdctx s p) AND NOT event else events (fdctx s p))"
  shows "epoll_told p (events (fdctx s p)) e'
    [(remove_op (events (fdctx s p) AND NOT event), int p, EPOLLET OR (events (fdctx s p) AND NOT event), rt)]"
  using assms(2,1,3,4) by (elim ctx_okE disjE) (auto simp: epoll_told_def remove_op_def event_defs)

text \<open>\<^verbatim>\<open>addEvent\<close>, \<^verbatim>\<open>delEvent\<close> and \<^verbatim>\<open>cancelEvent\<close> on a context of the table.\<close>

lemma io_inv_epoll_failed:
  assumes inv: "io_inv s" and p: "p < next_ctx s"
    and call: "epoll_told p (events (fdctx s p)) (events (fdctx s p)) [(op, int p, ev, rt)]"
  shows "io_inv (epoll_ctl op (int p) ev rt s)"
proof (rule io_inv_upd [OF inv p, where c = "fdctx s p"])
  show "epoll_told p (events (fdctx s p)) (events (fdctx s p)) [(op, int p, ev, rt)]" by (rule call)
  show "ep_log (epoll_ctl op (int p) ev rt s) = ep_log s @ [(op, int p, ev, rt)]" by (simp add: epoll_ctl_def)
qed (use io_inv_D(4,5) [OF inv p] in \<open>simp_all add: epoll_ctl_def\<close>)

definition added_context :: "u32 \<Rightarrow> 'c callback option \<Rightarrow> nat option \<Rightarrow> nat \<Rightarrow> 'c fd_context \<Rightarrow> 'c fd_context" where
  "added_context event cb sched fiber c =
     setEventContext event (if cb \<noteq> None then no_event\<lparr>ev_scheduler := sched, ev_cb := cb\<rparr>
       else no_event\<lparr>ev_scheduler := sched, ev_fiber := Some fiber\<rparr>) (c\<lparr>events := events c OR event\<rparr>)"

definition add_op :: "u32 \<Rightarrow> epoll_op" where
  "add_op e = (if e \<noteq> 0 then EPOLL_CTL_MOD else EPOLL_CTL_ADD)"

lemma addEvent_at_result:
  assumes ok: "ctx_ok (fdctx s p)" and e: "event = READ \<or> event = WRITE" and st: "cb = None \<longrightarrow> st = RUNNING"
  shows "addEvent_at p fd event cb rt sched fiber st s =
    (let e = events (fdctx s p); s1 = epoll_ctl (add_op e) fd (EPOLLET OR e OR event) rt s in
     if e AND event \<noteq> 0 then Inr (- 1, s)
     else if rt \<noteq> 0 then Inr (- 1, s1)
     else Inr (0, s1\<lparr>m_pendingEventCount := m_pendingEventCount s + 1,
       fdctx := (fdctx s)(p := added_context event cb sched fiber (fdctx s p))\<rparr>))"
proof (cases "events (fdctx s p) AND event \<noteq> 0 \<or> rt \<noteq> 0")
  case True
  then show ?thesis by (auto simp: addEvent_at_def add_op_def epoll_ctl_def Let_def)
next
  case False
  have empty: "waiting event (fdctx s p) = no_event"
    using ok e False by (elim ctx_okE disjE) (auto simp: waiting_def event_defs)
  have get: "getEventContext event c = Inr (waiting event c)" for c :: "'c fd_context"
    using e by (auto simp: getEventContext_def waiting_def event_defs)
  have w: "waiting event (c\<lparr>events := x\<rparr>) = waiting event c" for c :: "'c fd_context" and x
    by (simp add: waiting_def)
  show ?thesis using False st empty
    by (cases cb)
      (simp_all add: addEvent_at_def get w add_op_def epoll_ctl_def upd_ctx_def added_context_def no_event_def Let_def)
qed

lemma io_inv_addEvent_at:
  assumes inv: "io_inv s" and p: "p < next_ctx s" and e: "event = READ \<or> event = WRITE"
    and st: "cb = None \<longrightarrow> st = RUNNING"
    and res: "addEvent_at p (int p) event cb rt (Some k) fiber st s = Inr (r, s')"
  shows "io_inv s'"
proof -
  note ok = io_inv_D(5) [OF inv p]
  note r = res [unfolded addEvent_at_result [where sched = "Some k", OF ok e st] Let_def]
  consider "events (fdctx s p) AND event \<noteq> 0" "s' = s"
    | "events (fdctx s p) AND event = 0" "rt \<noteq> 0"
      "s' = epoll_ctl (add_op (events (fdctx s p))) (int p) (EPOLLET OR events (fdctx s p) OR event) rt s"
    | "events (fdctx s p) AND event = 0" "rt = 0"
      "s' = (epoll_ctl (add_op (events (fdctx s p))) (int p) (EPOLLET OR events (fdctx s p) OR event) rt s)
        \<lparr>m_pendingEventCount := m_pendingEventCount s + 1,
         fdctx := (fdctx s)(p := added_context event cb (Some k) fiber (fdctx s p))\<rparr>"
    using r by (cases "events (fdctx s p) AND event = 0"; cases "rt = 0") simp_all
  then show ?thesis
  proof cases
    case 1
    with inv show ?thesis by simp
  next
    case 2
    show ?thesis unfolding 2(3)
      by (rule io_inv_epoll_failed [OF inv p]) (use 2(2) in \<open>simp add: epoll_told_def add_op_def\<close>)
  next
    case 3
    let ?c = "added_context event cb (Some k) fiber (fdctx s p)"
    have "ctx_ok ?c" using ok e 3(1)
      by (elim ctx_okE disjE) (auto simp: ctx_ok_def added_context_def armed_def no_event_def event_defs)
    moreover have "epoll_told p (events (fdctx s p)) (events ?c)
        [(add_op (events (fdctx s p)), int p, EPOLLET OR events (fdctx s p) OR event, rt)]"
      using ok e 3(1,2)
      by (elim ctx_okE disjE) (auto simp: epoll_told_def add_op_def added_context_def event_defs)
    moreover have "event_count (events ?c) = Suc (event_count (events (fdctx s p)))"
      using ok e 3(1) by (elim ctx_okE disjE) (auto simp: event_count_def added_context_def event_defs)
    moreover have "ctx_fd ?c = int p" using io_inv_D(4) [OF inv p] by (simp add: added_context_def)
    ultimately show ?thesis
      by (intro io_inv_upd [OF inv p, where c = ?c and calls =
          "[(add_op (events (fdctx s p)), int p, EPOLLET OR events (fdctx s p) OR event, rt)]"])
        (simp_all add: 3(3) epoll_ctl_def)
  qed
qed

lemma delEvent_at_result:
  assumes e: "event = READ \<or> event = WRITE"
  shows "delEvent_at p fd event rt s =
    (let e = events (fdctx s p); s1 = epoll_ctl (remove_op (e AND NOT event)) fd (EPOLLET OR (e AND NOT event)) rt s in
     if e AND event = 0 then Inr (False, s)
     else if rt \<noteq> 0 then Inr (True, s1)
     else Inr (True, s1\<lparr>m_pendingEventCount := m_pendingEventCount s - 1,
       fdctx := (fdctx s)(p := resetEventContext event ((fdctx s p)\<lparr>events := e AND NOT event\<rparr>))\<rparr>))"
  using e by (auto simp: delEvent_at_def epoll_ctl_def upd_ctx_def getEventContext_def Let_def)

lemma cancelEvent_at_result:
  assumes ok: "ctx_ok (fdctx s p)" and e: "event = READ \<or> event = WRITE"
  shows "cancelEvent_at p fd event rt s =
    (let e = events (fdctx s p); s1 = epoll_ctl (remove_op (e AND NOT event)) fd (EPOLLET OR (e AND NOT event)) rt s in
     if e AND event = 0 then Inr (False, s)
     else if rt \<noteq> 0 then Inr (True, s1)
     else Inr (True, triggered p event (s1\<lparr>m_pendingEventCount := m_pendingEventCount s - 1\<rparr>)))"
proof -
  have "triggerEvent p event (s1\<lparr>m_pendingEventCount := n\<rparr>) = Inr (triggered p event (s1\<lparr>m_pendingEventCount := n\<rparr>))"
    if "fdctx s1 = fdctx s" "events (fdctx s p) AND event \<noteq> 0" for s1 n
    by (rule trigger_result) (use that ok e in simp_all)
  then show ?thesis by (auto simp: cancelEvent_at_def epoll_ctl_def Let_def)
qed

text \<open>Both leave the same table behind.\<close>

lemma io_inv_remove:
  assumes inv: "io_inv s" and p: "p < next_ctx s" and e: "event = READ \<or> event = WRITE"
    and on: "events (fdctx s p) AND event \<noteq> 0"
    and s': "fdctx s' = (fdctx s)(p := resetEventContext event ((fdctx s p)\<lparr>events := events (fdctx s p) AND NOT event\<rparr>))"
      "m_fdContexts s' = m_fdContexts s" "next_ctx s' = next_ctx s"
      "m_pendingEventCount s' = m_pendingEventCount s - 1"
      "ep_log s' = ep_log s @ [(remove_op (events (fdctx s p) AND NOT event), int p,
         EPOLLET OR (events (fdctx s p) AND NOT event), 0)]"
  shows "io_inv s'"
  by (rule io_inv_upd [OF inv p s'(1-3) _ ctx_ok_less [OF io_inv_D(5) [OF inv p] e] s'(5)])
    (use io_inv_D(4) [OF inv p] told_less [OF on io_inv_D(5) [OF inv p] e, of _ 0] s'(4)
      event_count_less [OF io_inv_D(5) [OF inv p] e on] in simp_all)

lemma told_failed:
  assumes "events (fdctx s p) AND event \<noteq> 0" "ctx_ok (fdctx s p)" "event = READ \<or> event = WRITE" "rt \<noteq> 0"
  shows "epoll_told p (events (fdctx s p)) (events (fdctx s p))
    [(remove_op (events (fdctx s p) AND NOT event), int p, EPOLLET OR (events (fdctx s p) AND NOT event), rt)]"
  by (rule told_less [OF assms(1-3)]) (simp add: assms(4))

lemma io_inv_delEvent_at:
  assumes inv: "io_inv s" and p: "p < next_ctx s" and e: "event = READ \<or> event = WRITE"
    and res: "delEvent_at p (int p) event rt s = Inr (r, s')"
  shows "io_inv s'"
proof (cases "events (fdctx s p) AND event = 0 \<or> rt \<noteq> 0")
  case True
  with res inv show ?thesis
    unfolding delEvent_at_result [OF e] Let_def
    by (auto intro!: io_inv_epoll_failed [OF inv p] told_failed [OF _ io_inv_D(5) [OF inv p] e] split: if_splits)
next
  case False
  with res show ?thesis
    unfolding delEvent_at_result [OF e] Let_def
    by (intro io_inv_remove [OF inv p e]) (auto simp: epoll_ctl_def)
qed

lemma io_inv_cancelEvent_at:
  assumes inv: "io_inv s" and p: "p < next_ctx s" and e: "event = READ \<or> event = WRITE"
    and res: "cancelEvent_at p (int p) event rt s = Inr (r, s')"
  shows "io_inv s'"
proof (cases "events (fdctx s p) AND event = 0 \<or> rt \<noteq> 0")
  case True
  with res inv show ?thesis
    unfolding cancelEvent_at_result [OF io_inv_D(5) [OF inv p] e] Let_def
    by (auto intro!: io_inv_epoll_failed [OF inv p] told_failed [OF _ io_inv_D(5) [OF inv p] e] split: if_splits)
next
  case False
  with res show ?thesis
    unfolding cancelEvent_at_result [OF io_inv_D(5) [OF inv p] e] Let_def
    by (intro io_inv_remove [OF inv p e]) (auto simp: epoll_ctl_def)
qed

text \<open>Triggering a set of registered events of a context, reading first.\<close>

definition fire_ctx :: "u32 \<Rightarrow> 'c fd_context \<Rightarrow> 'c fd_context" where
  "fire_ctx r c = c\<lparr>read_ctx := (if r AND READ \<noteq> 0 then no_event else read_ctx c),
     write_ctx := (if r AND WRITE \<noteq> 0 then no_event else write_ctx c), events := events c AND NOT r\<rparr>"

definition hand_all :: "u32 \<Rightarrow> 'c fd_context \<Rightarrow> (nat \<Rightarrow> 'c callback scheduler) \<Rightarrow> nat \<Rightarrow> 'c callback scheduler" where
  "hand_all r c ks =
     (let ks1 = (if r AND READ \<noteq> 0 then hand_over (read_ctx c) ks else ks)
      in if r AND WRITE \<noteq> 0 then hand_over (write_ctx c) ks1 else ks1)"

definition fired :: "nat \<Rightarrow> u32 \<Rightarrow> 'c io_manager \<Rightarrow> 'c io_manager" where
  "fired p r s = s\<lparr>fdctx := (fdctx s)(p := fire_ctx r (fdctx s p)),
     m_pendingEventCount := m_pendingEventCount s - of_nat (event_count r),
     schedulers := hand_all r (fdctx s p) (schedulers s)\<rparr>"

lemma trigger_if_False [simp]: "trigger_if False p event s = Inr s"
  by (simp add: trigger_if_def)

lemma trigger_if_result:
  assumes "ctx_ok (fdctx s p)" "event = READ \<or> event = WRITE" "cond \<Longrightarrow> events (fdctx s p) AND event \<noteq> 0"
  shows "trigger_if cond p event s = Inr (if cond then
    (triggered p event s)\<lparr>m_pendingEventCount := m_pendingEventCount s - 1\<rparr> else s)"
  using assms by (simp add: trigger_if_def trigger_result)

definition trigger_both :: "nat \<Rightarrow> u32 \<Rightarrow> 'c io_manager \<Rightarrow> 'c io_manager" where
  "trigger_both p r s =
     (let s1 = (if r AND READ \<noteq> 0
            then (triggered p READ s)\<lparr>m_pendingEventCount := m_pendingEventCount s - 1\<rparr> else s)
      in if r AND WRITE \<noteq> 0
         then (triggered p WRITE s1)\<lparr>m_pendingEventCount := m_pendingEventCount s1 - 1\<rparr> else s1)"

lemma trigger_both_result:
  assumes ok: "ctx_ok (fdctx s p)" and sub: "r AND READ \<noteq> 0 \<Longrightarrow> events (fdctx s p) AND READ \<noteq> 0"
    "r AND WRITE \<noteq> 0 \<Longrightarrow> events (fdctx s p) AND WRITE \<noteq> 0"
  shows "result_bind (trigger_if (r AND READ \<noteq> 0) p READ s) (trigger_if (r AND WRITE \<noteq> 0) p WRITE) =
    Inr (trigger_both p r s)"
proof -
  let ?s1 = "if r AND READ \<noteq> 0
    then (triggered p READ s)\<lparr>m_pendingEventCount := m_pendingEventCount s - 1\<rparr> else s"
  have 1: "trigger_if (r AND READ \<noteq> 0) p READ s = Inr ?s1"
    by (rule trigger_if_result [OF ok]) (use sub in auto)
  have ok1: "ctx_ok (fdctx ?s1 p)" using ok ctx_ok_less [OF ok, of READ] by simp
  have "events (fdctx ?s1 p) AND WRITE = events (fdctx s p) AND WRITE"
    using ok by (elim ctx_okE) (simp_all add: event_defs)
  then have "trigger_if (r AND WRITE \<noteq> 0) p WRITE ?s1 = Inr (if r AND WRITE \<noteq> 0
      then (triggered p WRITE ?s1)\<lparr>m_pendingEventCount := m_pendingEventCount ?s1 - 1\<rparr> else ?s1)"
    by (intro trigger_if_result [OF ok1]) (use sub in auto)
  then show ?thesis unfolding 1 trigger_both_def Let_def by simp
qed

lemma fire_ctx_single:
  "event = READ \<or> event = WRITE \<Longrightarrow>
   resetEventContext event (c\<lparr>events := events c AND NOT event\<rparr>) = fire_ctx event c"
  by (elim disjE) (auto intro!: fd_context.equality simp: fire_ctx_def event_defs)

lemma fire_ctx_both: "ctx_ok c \<Longrightarrow> fire_ctx WRITE (fire_ctx READ c) = fire_ctx 5 c"
  by (elim ctx_okE) (auto intro!: fd_context.equality simp: fire_ctx_def event_defs)

lemma fire_ctx_none: "fire_ctx 0 c = c"
  by (simp add: fire_ctx_def)

lemma waiting_fire [simp]: "write_ctx (fire_ctx READ c) = write_ctx c" "waiting WRITE (fire_ctx READ c) = write_ctx c" "waiting READ c = read_ctx c"
  "waiting WRITE c = write_ctx c"
  by (simp_all add: waiting_def fire_ctx_def event_defs)

lemma trigger_both_fired:
  assumes ok: "ctx_ok (fdctx s p)" and r: "r = 0 \<or> r = 1 \<or> r = 4 \<or> r = 5"
  shows "trigger_both p r s = fired p r s"
proof -
  have single: "resetEventContext READ (c\<lparr>events := events c AND NOT READ\<rparr>) = fire_ctx READ c"
    "resetEventContext WRITE (c\<lparr>events := events c AND NOT WRITE\<rparr>) = fire_ctx WRITE c" for c :: "'a fd_context"
    by (simp_all add: fire_ctx_single)
  from r show ?thesis
  proof (elim disjE)
    assume "r = 0"
    then show ?thesis by (simp add: trigger_both_def fired_def fire_ctx_none hand_all_def event_count_def)
  next
    assume r: "r = 1"
    then have "r AND READ \<noteq> 0" "r AND WRITE = 0" "r = READ" "event_count r = 1"
      by (simp_all add: event_defs event_count_def)
    then show ?thesis
      by (auto intro!: io_manager.equality simp: trigger_both_def fired_def hand_all_def single Let_def)
  next
    assume r: "r = 4"
    then have "r AND READ = 0" "r AND WRITE \<noteq> 0" "r = WRITE" "event_count r = 1"
      by (simp_all add: event_defs event_count_def)
    then show ?thesis
      by (auto intro!: io_manager.equality simp: trigger_both_def fired_def hand_all_def single Let_def)
  next
    assume r: "r = 5"
    then have "r AND READ \<noteq> 0" "r AND WRITE \<noteq> 0" "event_count r = 2"
      by (simp_all add: event_defs event_count_def)
    with r fire_ctx_both [OF ok] show ?thesis
      by (auto intro!: io_manager.equality simp: trigger_both_def fired_def hand_all_def single Let_def)
  qed
qed

lemma real_events_values:
  "real_events e ev = 0 \<or> real_events e ev = 1 \<or> real_events e ev = 4 \<or> real_events e ev = 5"
  by (simp add: real_events_def Let_def event_defs)

lemma cancelAll_at_result:
  assumes ok: "ctx_ok (fdctx s p)"
  shows "cancelAll_at p fd rt s =
    (let e = events (fdctx s p); s1 = epoll_ctl EPOLL_CTL_DEL fd 0 rt s in
     if e = 0 then Inr (False, s)
     else if rt \<noteq> 0 then Inr (True, s1)
     else Inr (True, fired p e s1))"
proof (cases "events (fdctx s p) = 0 \<or> rt \<noteq> 0")
  case True
  then show ?thesis by (auto simp: cancelAll_at_def Let_def)
next
  case False
  define e where "e = events (fdctx s p)"
  from False have rt: "rt = 0" by simp
  define s1 where "s1 = epoll_ctl EPOLL_CTL_DEL fd 0 0 s"
  have e1: "events (fdctx s1 p) = e" "ctx_ok (fdctx s1 p)" using ok by (simp_all add: s1_def e_def epoll_ctl_def)
  define s2 where "s2 = (if e AND READ \<noteq> 0
    then (triggered p READ s1)\<lparr>m_pendingEventCount := m_pendingEventCount s1 - 1\<rparr> else s1)"
  have 1: "trigger_if (e AND READ \<noteq> 0) p READ s1 = Inr s2"
    unfolding s2_def by (rule trigger_if_result [OF e1(2)]) (use e1 in auto)
  have w: "events (fdctx s2 p) AND WRITE = e AND WRITE"
    unfolding s2_def using e1 by (elim ctx_okE) (auto simp: event_defs)
  have rv: "e = 0 \<or> e = 1 \<or> e = 4 \<or> e = 5" using ok by (simp add: ctx_ok_def e_def)
  have both: "result_bind (trigger_if (e AND READ \<noteq> 0) p READ s1) (trigger_if (e AND WRITE \<noteq> 0) p WRITE) =
      Inr (fired p e s1)"
    using trigger_both_result [OF e1(2), of e] trigger_both_fired [OF e1(2) rv] e1(1) by simp
  have "events (fdctx (fired p e s1) p) = 0"
    using rv e1(1) by (elim disjE) (simp_all add: fired_def fire_ctx_def event_defs)
  with both have "result_bind (trigger_if (events (fdctx s2 p) AND WRITE \<noteq> 0) p WRITE s2)
      (\<lambda>s3. if events (fdctx s3 p) \<noteq> 0 then Inl Assert_Failed else Inr (True, s3)) = Inr (True, fired p e s1)"
    by (simp add: 1 w)
  with False show ?thesis
    unfolding cancelAll_at_def Let_def rt e_def [symmetric] s1_def [symmetric] e1(1) 1 by simp
qed

lemma idle_event_result:
  assumes ok: "ctx_ok (fdctx s p)"
  shows "idle_event p ev rt2 s =
    (let e = events (fdctx s p); real = real_events e ev;
         s1 = epoll_ctl (remove_op (e AND NOT real)) (ctx_fd (fdctx s p)) (EPOLLET OR (e AND NOT real)) rt2 s in
     if e AND real = 0 then Inr s
     else if rt2 \<noteq> 0 then Inr s1
     else if real AND NOT e = 0 then Inr (fired p real s1)
     else Inl Assert_Failed)"
proof (cases "events (fdctx s p) AND real_events (events (fdctx s p)) ev = 0 \<or> rt2 \<noteq> 0")
  case True
  then show ?thesis by (auto simp: idle_event_def Let_def NONE_def)
next
  case False
  define r where "r = real_events (events (fdctx s p)) ev"
  have rv: "r = 0 \<or> r = 1 \<or> r = 4 \<or> r = 5" unfolding r_def by (rule real_events_values)
  define s1 where "s1 = epoll_ctl (remove_op (events (fdctx s p) AND NOT r)) (ctx_fd (fdctx s p))
    (EPOLLET OR (events (fdctx s p) AND NOT r)) 0 s"
  from False have rt: "rt2 = 0" by simp
  have e1: "fdctx s1 p = fdctx s p" by (simp add: s1_def epoll_ctl_def)
  have ok1: "ctx_ok (fdctx s1 p)" using ok e1 by simp
  have unf: "idle_event p ev 0 s =
      result_bind (trigger_if (r AND READ \<noteq> 0) p READ s1) (trigger_if (r AND WRITE \<noteq> 0) p WRITE)"
    using False unfolding idle_event_def Let_def NONE_def r_def [symmetric] rt s1_def [symmetric] by simp
  show ?thesis
  proof (cases "r AND NOT (events (fdctx s p)) = 0")
    case True
    have "r AND READ \<noteq> 0 \<Longrightarrow> events (fdctx s1 p) AND READ \<noteq> 0"
      "r AND WRITE \<noteq> 0 \<Longrightarrow> events (fdctx s1 p) AND WRITE \<noteq> 0"
      using True rv ok unfolding e1 by (auto simp: ctx_ok_def event_defs)
    from trigger_both_result [OF ok1, of r, OF this] trigger_both_fired [OF ok1 rv] True False show ?thesis
      unfolding unf Let_def r_def [symmetric] rt s1_def [symmetric] by simp
  next
    case no: False
    have "trigger_if (r AND WRITE \<noteq> 0) p WRITE s2 = Inl Assert_Failed"
      if "r AND WRITE \<noteq> 0" "events (fdctx s2 p) AND WRITE = 0" for s2 :: "'a io_manager"
      using that by (simp add: trigger_if_def triggerEvent_def)
    moreover have "r = 5 \<and> (events (fdctx s p) = 1 \<or> events (fdctx s p) = 4)"
      using no False rv ok unfolding r_def [symmetric] by (auto simp: ctx_ok_def)
    moreover have "trigger_if True p READ s1 =
        Inr ((triggered p READ s1)\<lparr>m_pendingEventCount := m_pendingEventCount s1 - 1\<rparr>)"
      if "events (fdctx s p) = 1"
      using trigger_if_result [OF ok1, of READ True] that by (simp add: e1 event_defs)
    moreover have "trigger_if True p READ s1 = Inl Assert_Failed" if "events (fdctx s p) = 4"
      using that by (simp add: trigger_if_def triggerEvent_def e1 event_defs)
    ultimately have "result_bind (trigger_if (r AND READ \<noteq> 0) p READ s1) (trigger_if (r AND WRITE \<noteq> 0) p WRITE) =
        Inl Assert_Failed"
      by (auto simp: event_defs e1)
    with no False show ?thesis unfolding unf Let_def r_def [symmetric] rt s1_def [symmetric] by simp
  qed
qed

lemma fired_simps [simp]:
  "m_fdContexts (fired p r s) = m_fdContexts s" "next_ctx (fired p r s) = next_ctx s"
  "ep_log (fired p r s) = ep_log s" "fdctx (fired p r s) = (fdctx s)(p := fire_ctx r (fdctx s p))"
  "m_pendingEventCount (fired p r s) = m_pendingEventCount s - of_nat (event_count r)"
  by (simp_all add: fired_def)

lemma epoll_ctl_simps [simp]:
  "m_fdContexts (epoll_ctl op fd ev rt s) = m_fdContexts s" "next_ctx (epoll_ctl op fd ev rt s) = next_ctx s"
  "fdctx (epoll_ctl op fd ev rt s) = fdctx s" "schedulers (epoll_ctl op fd ev rt s) = schedulers s"
  "m_pendingEventCount (epoll_ctl op fd ev rt s) = m_pendingEventCount s"
  "ep_log (epoll_ctl op fd ev rt s) = ep_log s @ [(op, fd, ev, rt)]"
  by (simp_all add: epoll_ctl_def)

lemma fire_ctx_sel [simp]:
  "events (fire_ctx r c) = events c AND NOT r" "ctx_fd (fire_ctx r c) = ctx_fd c"
  by (simp_all add: fire_ctx_def)

lemma ctx_ok_fire: "ctx_ok c \<Longrightarrow> r = 0 \<or> r = 1 \<or> r = 4 \<or> r = 5 \<Longrightarrow> ctx_ok (fire_ctx r c)"
  by (elim ctx_okE disjE) (simp_all add: ctx_ok_def fire_ctx_def event_defs)

lemma event_count_fire:
  assumes "ctx_ok c" "r = 0 \<or> r = 1 \<or> r = 4 \<or> r = 5" "r AND NOT (events c) = 0"
  shows "event_count (events c) = event_count (events c AND NOT r) + event_count r"
  using assms by (elim ctx_okE disjE) (simp_all add: event_count_def)

lemma io_inv_fired:
  assumes inv: "io_inv s" and p: "p < next_ctx s" and r: "r = 0 \<or> r = 1 \<or> r = 4 \<or> r = 5"
    and sub: "r AND NOT (events (fdctx s p)) = 0"
    and told: "epoll_told p (events (fdctx s p)) (events (fdctx s p) AND NOT r) [(op, int p, ev, 0)]"
  shows "io_inv (fired p r (epoll_ctl op (int p) ev 0 s))"
  by (rule io_inv_upd [OF inv p, where c = "fire_ctx r (fdctx s p)" and calls = "[(op, int p, ev, 0)]"])
    (use told io_inv_D(4,5) [OF inv p] ctx_ok_fire [OF _ r]
      event_count_fire [OF io_inv_D(5) [OF inv p] r sub] in simp_all)

lemma io_inv_cancelAll_at:
  assumes inv: "io_inv s" and p: "p < next_ctx s" and res: "cancelAll_at p (int p) rt s = Inr (r, s')"
  shows "io_inv s'"
proof -
  note ok = io_inv_D(5) [OF inv p]
  let ?e = "events (fdctx s p)"
  have "io_inv (epoll_ctl EPOLL_CTL_DEL (int p) 0 rt s)" if "?e \<noteq> 0" "rt \<noteq> 0"
    by (rule io_inv_epoll_failed [OF inv p]) (simp add: epoll_told_def that)
  moreover have "io_inv (fired p ?e (epoll_ctl EPOLL_CTL_DEL (int p) 0 0 s))" if "?e \<noteq> 0"
    by (rule io_inv_fired [OF inv p]) (use ok that in \<open>auto simp: ctx_ok_def epoll_told_def\<close>)
  ultimately show ?thesis
    using res inv unfolding cancelAll_at_result [OF ok] Let_def by (auto split: if_splits)
qed

lemma told_idle:
  assumes "ctx_ok c" "r = 0 \<or> r = 1 \<or> r = 4 \<or> r = 5" "events c AND r \<noteq> 0"
    and "e' = (if rt = 0 then events c AND NOT r else events c)"
  shows "epoll_told p (events c) e'
    [(remove_op (events c AND NOT r), int p, EPOLLET OR (events c AND NOT r), rt)]"
  using assms by (elim ctx_okE disjE) (auto simp: epoll_told_def remove_op_def)

lemma io_inv_idle_event:
  assumes inv: "io_inv s" and p: "p < next_ctx s" and res: "idle_event p ev rt s = Inr s'"
  shows "io_inv s'"
proof -
  note ok = io_inv_D(5) [OF inv p]
  define e where "e = events (fdctx s p)"
  define r where "r = real_events e ev"
  have rv: "r = 0 \<or> r = 1 \<or> r = 4 \<or> r = 5" unfolding r_def by (rule real_events_values)
  have failed: "io_inv (epoll_ctl (remove_op (e AND NOT r)) (int p) (EPOLLET OR (e AND NOT r)) rt s)"
    if "e AND r \<noteq> 0" "rt \<noteq> 0"
    by (rule io_inv_epoll_failed [OF inv p])
      (use told_idle [OF ok rv, of "events (fdctx s p)" rt] that in \<open>simp add: e_def\<close>)
  have fired: "io_inv (fired p r (epoll_ctl (remove_op (e AND NOT r)) (int p) (EPOLLET OR (e AND NOT r)) 0 s))"
    if "e AND r \<noteq> 0" "r AND NOT e = 0"
    by (rule io_inv_fired [OF inv p rv])
      (use told_idle [OF ok rv, of "events (fdctx s p) AND NOT r" 0] that in \<open>simp_all add: e_def\<close>)
  show ?thesis
    using res inv failed fired
    unfolding idle_event_result [OF ok] Let_def io_inv_D(4) [OF inv p] e_def [symmetric] r_def [symmetric]
    by (auto split: if_splits)
qed

text \<open>A report of registered events, errors and hang-ups only.\<close>

lemma and_bit_zero:
  "(x :: u32) AND 1 = 0 \<longleftrightarrow> \<not> bit x 0" "x AND 4 = 0 \<longleftrightarrow> \<not> bit x 2"
  using and_exp_eq_0_iff_not_bit [of x 0] and_exp_eq_0_iff_not_bit [of x 2] by simp_all

lemma real_events_sub:
  assumes e: "e = 0 \<or> e = 1 \<or> e = 4 \<or> e = 5" and sub: "ev AND (EPOLLIN OR EPOLLOUT) AND NOT e = 0"
  shows "real_events e ev AND NOT e = 0"
proof -
  have "\<not> bit (ev AND (EPOLLIN OR EPOLLOUT) AND NOT e) n" for n using sub by simp
  from this [of 0] this [of 2] have b: "bit ev 0 \<Longrightarrow> bit e 0" "bit ev 2 \<Longrightarrow> bit e 2"
    by (simp_all add: bit_simps EPOLLIN_def EPOLLOUT_def)
  have mask: "(EPOLLIN OR EPOLLOUT) = 5" by (simp add: event_defs)
  have five: "bit (5 :: u32) 0" "bit (5 :: u32) 2" by simp_all
  define ev' where "ev' = (if ev AND (EPOLLERR OR EPOLLHUP) \<noteq> 0 then ev OR (5 AND e) else ev)"
  have b': "bit ev' 0 \<Longrightarrow> bit e 0" "bit ev' 2 \<Longrightarrow> bit e 2"
    using b by (auto simp: ev'_def bit_or_iff bit_and_iff split: if_splits)
  have "real_events e ev = (if bit ev' 0 then 1 else 0) OR (if bit ev' 2 then 4 else 0)"
    unfolding real_events_def Let_def mask ev'_def [symmetric]
    by (simp add: EPOLLIN_def EPOLLOUT_def READ_def WRITE_def NONE_def and_bit_zero)
  with e b' show ?thesis by (elim disjE) auto
qed

section \<open>Reachable states\<close>

text \<open>
  The threads' steps. An event is added in two, the lookup and the registration; \<open>grow\<close> is the
  second half of the lookup when the table is still too short for the descriptor (the case in which
  another thread has grown it further meanwhile is \<open>addEvent_resize_race\<close> below). The rule \<open>other\<close>
  lets schedulers, timers and the pipe change in any way.
\<close>

inductive io_step :: "'c io_manager \<Rightarrow> 'c io_manager \<Rightarrow> bool" where
  grow: "int (length (m_fdContexts s)) \<le> fd \<Longrightarrow> fd < 2 ^ 31 \<Longrightarrow> addEvent_resize fd s = Inr (p, s') \<Longrightarrow> io_step s s'"
| add: "ctx_at fd s = Inr p \<Longrightarrow> event = READ \<or> event = WRITE \<Longrightarrow> cb \<noteq> None \<or> st = RUNNING \<Longrightarrow>
    addEvent_at p fd event cb rt (Some k) fiber st s = Inr (r, s') \<Longrightarrow> io_step s s'"
| del: "event = READ \<or> event = WRITE \<Longrightarrow> delEvent fd event rt s = Inr (b, s') \<Longrightarrow> io_step s s'"
| cancel: "event = READ \<or> event = WRITE \<Longrightarrow> cancelEvent fd event rt s = Inr (b, s') \<Longrightarrow> io_step s s'"
| cancel_all: "cancelAll fd rt s = Inr (b, s') \<Longrightarrow> io_step s s'"
| ready: "p \<in> set (m_fdContexts s) \<Longrightarrow> idle_event p ev rt s = Inr s' \<Longrightarrow> io_step s s'"
| other: "io_step s (s\<lparr>schedulers := X, timers := Y, pipe_writes := Z\<rparr>)"

inductive io_reach :: "'c io_manager \<Rightarrow> bool" where
  ctor: "io_ctor threads use_caller w now epfd pipe_rt fcntl_rt ctl_rt ids = Inr s \<Longrightarrow> io_reach s"
| step: "io_reach s \<Longrightarrow> io_step s s' \<Longrightarrow> io_reach s'"

lemma ctx_at_inv: "io_inv s \<Longrightarrow> ctx_at fd s = Inr p \<longleftrightarrow> 0 \<le> fd \<and> p < next_ctx s \<and> fd = int p"
  by (auto simp: ctx_at_def vec_at_Inr_iff io_inv_D(1))

lemma next_ctx_epoll [simp]: "next_ctx (upd_ctx p f s) = next_ctx s"
  by (simp add: upd_ctx_def)

lemma trigger_next: "triggerEvent p event s = Inr s' \<Longrightarrow> next_ctx s' = next_ctx s"
  by (auto simp: triggerEvent_def Let_def result_bind_Inr_iff split: if_splits option.splits)

lemma trigger_if_next: "trigger_if c p event s = Inr s' \<Longrightarrow> next_ctx s' = next_ctx s"
  by (auto simp: trigger_if_def result_bind_Inr_iff dest: trigger_next split: if_splits)

lemma ops_next:
  "addEvent_at p fd event cb rt sched fiber st s = Inr (r, s') \<Longrightarrow> next_ctx s' = next_ctx s"
  "delEvent_at p fd event rt s = Inr (b, s') \<Longrightarrow> next_ctx s' = next_ctx s"
  "cancelEvent_at p fd event rt s = Inr (b, s') \<Longrightarrow> next_ctx s' = next_ctx s"
  "cancelAll_at p fd rt s = Inr (b, s') \<Longrightarrow> next_ctx s' = next_ctx s"
  "idle_event p ev rt s = Inr s' \<Longrightarrow> next_ctx s' = next_ctx s"
  by (auto simp: addEvent_at_def delEvent_at_def cancelEvent_at_def cancelAll_at_def idle_event_def Let_def
      result_bind_Inr_iff dest!: trigger_next trigger_if_next split: if_splits)

lemma io_inv_ctor:
  assumes "io_ctor threads use_caller w now epfd pipe_rt fcntl_rt ctl_rt ids = Inr s"
  shows "io_inv s" "next_ctx s = 32"
proof -
  obtain k k' where s: "s = (contextResize 32 \<lparr>m_fdContexts = [], fdctx = (\<lambda>_. new_context 0), next_ctx = 0,
      m_pendingEventCount = 0, ep_log = [], schedulers = (\<lambda>_. k), self = 0,
      timers = manager_ctor now, pipe_writes = 0\<rparr>)\<lparr>schedulers := (\<lambda>_. k')\<rparr>"
    using assms by (auto simp: io_ctor_def result_bind_Inr_iff Let_def split: if_splits)
  let ?s = "\<lparr>m_fdContexts = [], fdctx = (\<lambda>_. new_context 0), next_ctx = 0,
      m_pendingEventCount = 0, ep_log = [], schedulers = (\<lambda>_. k), self = 0,
      timers = manager_ctor now, pipe_writes = 0\<rparr>"
  have "io_inv ?s" by (simp add: io_inv_def interest_def epoll_calls_legal_def registered_def)
  from io_inv_resize [OF this, of 32] have i: "io_inv (contextResize 32 ?s)" "next_ctx (contextResize 32 ?s) = 32"
    by simp_all
  from io_inv_other [OF i(1), where X = "\<lambda>_. k'" and Y = "timers (contextResize 32 ?s)"
      and Z = "pipe_writes (contextResize 32 ?s)"]
  show "io_inv s" by (simp add: s)
  show "next_ctx s = 32" by (simp add: s i(2))
qed

lemma addEvent_resize_inv:
  assumes inv: "io_inv s" and fd: "int (length (m_fdContexts s)) \<le> fd" "fd < 2 ^ 31" and pos: "2 \<le> next_ctx s"
  shows "addEvent_resize fd s = Inr (nat fd, contextResize (nat (fd * 3 div 2)) s)"
    and "io_inv (contextResize (nat (fd * 3 div 2)) s)"
    and "next_ctx s \<le> next_ctx (contextResize (nat (fd * 3 div 2)) s)"
    and "next_ctx (contextResize (nat (fd * 3 div 2)) s) \<le> 2 ^ 32"
    and "nat fd < next_ctx (contextResize (nat (fd * 3 div 2)) s)"
proof -
  have len: "length (m_fdContexts s) = next_ctx s" using io_inv_D(1) [OF inv] by simp
  have le: "length (m_fdContexts s) \<le> nat (fd * 3 div 2)" using fd(1) by linarith
  note r = io_inv_resize [OF inv le]
  show "io_inv (contextResize (nat (fd * 3 div 2)) s)" by (rule r)
  show lt: "nat fd < next_ctx (contextResize (nat (fd * 3 div 2)) s)"
    using fd(1) pos len unfolding r(2) by linarith
  show "next_ctx s \<le> next_ctx (contextResize (nat (fd * 3 div 2)) s)" using le len unfolding r(2) by simp
  show "next_ctx (contextResize (nat (fd * 3 div 2)) s) \<le> 2 ^ 32"
  proof -
    have "fd < 2147483648" using fd(2) by simp
    then have "nat (fd * 3 div 2) \<le> 4294967296" by linarith
    then show ?thesis unfolding r(2) by simp
  qed
  have "0 \<le> fd" using fd(1) by linarith
  with lt have "ctx_at fd (contextResize (nat (fd * 3 div 2)) s) = Inr (nat fd)"
    unfolding ctx_at_inv [OF r(1)] by simp
  then show "addEvent_resize fd s = Inr (nat fd, contextResize (nat (fd * 3 div 2)) s)"
    by (simp add: addEvent_resize_def Let_def)
qed

lemma io_inv_step:
  assumes inv: "io_inv s" and bnd: "2 \<le> next_ctx s" "next_ctx s \<le> 2 ^ 32" and st: "io_step s s'"
  shows "io_inv s' \<and> 2 \<le> next_ctx s' \<and> next_ctx s' \<le> 2 ^ 32"
  using st
proof cases
  case (grow fd p)
  from addEvent_resize_inv [OF inv grow(1,2) bnd(1)] grow(3) bnd show ?thesis by auto
next
  case (add fd p event cb st rt k fiber r)
  from add(1) have p: "p < next_ctx s" "fd = int p" by (simp_all add: ctx_at_inv [OF inv])
  show ?thesis
  proof (cases "cb = None \<longrightarrow> st = RUNNING")
    case True
    with io_inv_addEvent_at [OF inv p(1) add(2) True] add(4) p(2) ops_next(1) [OF add(4)] bnd
    show ?thesis by auto
  qed (use add(3) in auto)
next
  case (del event fd rt b)
  show ?thesis
  proof (cases "ctx_in_range fd s")
    case True
    with del(2) obtain p where "ctx_at fd s = Inr p" and res: "delEvent_at p fd event rt s = Inr (b, s')"
      by (auto simp: delEvent_def result_bind_Inr_iff)
    then have p: "p < next_ctx s" "fd = int p" by (simp_all add: ctx_at_inv [OF inv])
    from io_inv_delEvent_at [OF inv p(1) del(1) res [unfolded p(2)]] ops_next(2) [OF res] bnd
    show ?thesis by simp
  qed (use del inv bnd in \<open>simp add: delEvent_def\<close>)
next
  case (cancel event fd rt b)
  show ?thesis
  proof (cases "ctx_in_range fd s")
    case True
    with cancel(2) obtain p where "ctx_at fd s = Inr p" and res: "cancelEvent_at p fd event rt s = Inr (b, s')"
      by (auto simp: cancelEvent_def result_bind_Inr_iff)
    then have p: "p < next_ctx s" "fd = int p" by (simp_all add: ctx_at_inv [OF inv])
    from io_inv_cancelEvent_at [OF inv p(1) cancel(1) res [unfolded p(2)]] ops_next(3) [OF res] bnd
    show ?thesis by simp
  qed (use cancel inv bnd in \<open>simp add: cancelEvent_def\<close>)
next
  case (cancel_all fd rt b)
  show ?thesis
  proof (cases "ctx_in_range fd s")
    case True
    with cancel_all obtain p where "ctx_at fd s = Inr p" and res: "cancelAll_at p fd rt s = Inr (b, s')"
      by (auto simp: cancelAll_def result_bind_Inr_iff)
    then have p: "p < next_ctx s" "fd = int p" by (simp_all add: ctx_at_inv [OF inv])
    from io_inv_cancelAll_at [OF inv p(1) res [unfolded p(2)]] ops_next(4) [OF res] bnd show ?thesis by simp
  qed (use cancel_all inv bnd in \<open>simp add: cancelAll_def\<close>)
next
  case (ready p ev rt)
  from ready(1) have "p < next_ctx s" using io_inv_D(1) [OF inv] by simp
  from io_inv_idle_event [OF inv this ready(2)] ops_next(5) [OF ready(2)] bnd show ?thesis by simp
next
  case (other X Y Z)
  with io_inv_other [OF inv] bnd show ?thesis by simp
qed

lemma io_reach_inv: "io_reach s \<Longrightarrow> io_inv s \<and> 2 \<le> next_ctx s \<and> next_ctx s \<le> 2 ^ 32"
  by (induction rule: io_reach.induct) (auto dest: io_inv_ctor io_inv_step)

lemma registered_bound: "io_reach s \<Longrightarrow> registered s < 2 ^ 64"
proof -
  assume "io_reach s"
  have "registered s \<le> (\<Sum>p<next_ctx s. 2)"
    unfolding registered_def by (rule sum_mono) (simp add: event_count_def)
  also have "\<dots> = 2 * next_ctx s" by simp
  also have "\<dots> < 2 ^ 64" using io_reach_inv [OF \<open>io_reach s\<close>] by simp
  finally show ?thesis .
qed

text \<open>The lookup of \<^verbatim>\<open>addEvent\<close> in a reachable state.\<close>

lemma contextResize_grown:
  assumes inv: "io_inv s" and le: "length (m_fdContexts s) \<le> n"
  shows "fdctx (contextResize n s) q = (if next_ctx s \<le> q \<and> q < n then new_context (int q) else fdctx s q)"
    and "m_pendingEventCount (contextResize n s) = m_pendingEventCount s"
  using le io_inv_D(1) [OF inv] by (auto simp: contextResize_def Let_def)

lemma addEvent_find_reach:
  assumes reach: "io_reach s" and fd: "0 \<le> fd" "fd < 2 ^ 31"
  obtains s1 where "addEvent_find fd s = Inr (nat fd, s1)" "io_reach s1" "nat fd < next_ctx s1"
    "\<And>q. q < next_ctx s \<Longrightarrow> fdctx s1 q = fdctx s q" "m_pendingEventCount s1 = m_pendingEventCount s"
    "nat fd < next_ctx s \<Longrightarrow> s1 = s" "\<not> nat fd < next_ctx s \<Longrightarrow> events (fdctx s1 (nat fd)) = 0"
proof -
  have inv: "io_inv s" "2 \<le> next_ctx s" using io_reach_inv [OF reach] by blast+
  have len: "length (m_fdContexts s) = next_ctx s" using io_inv_D(1) [OF inv(1)] by simp
  show thesis
  proof (cases "ctx_in_range fd s")
    case True
    then have p: "nat fd < next_ctx s" using len fd(1) by (simp add: ctx_in_range_def)
    then have "ctx_at fd s = Inr (nat fd)" using ctx_at_inv [OF inv(1), of fd "nat fd"] fd(1) by simp
    with True have "addEvent_find fd s = Inr (nat fd, s)" by (simp add: addEvent_find_def)
    with that [of s] reach p show ?thesis by simp
  next
    case False
    then have le: "int (length (m_fdContexts s)) \<le> fd" by (simp add: ctx_in_range_def)
    then have le': "length (m_fdContexts s) \<le> nat (fd * 3 div 2)" by linarith
    have notin: "\<not> nat fd < next_ctx s" using le len by simp
    note rs = addEvent_resize_inv [OF inv(1) le fd(2) inv(2)]
    define s1 where "s1 = contextResize (nat (fd * 3 div 2)) s"
    note grown = contextResize_grown [OF inv(1) le', folded s1_def] and nx = io_inv_resize(2) [OF inv(1) le', folded s1_def]
    have "nat fd < nat (fd * 3 div 2)" using rs(5) nx by (simp add: s1_def)
    with grown(1) [of "nat fd"] notin have "events (fdctx s1 (nat fd)) = 0" by (simp add: new_context_def NONE_def)
    moreover have "addEvent_find fd s = Inr (nat fd, s1)" using False rs(1) by (simp add: addEvent_find_def s1_def)
    moreover have "io_reach s1"
      unfolding s1_def by (rule io_reach.step [OF reach io_step.grow [OF le fd(2) rs(1)]])
    ultimately show ?thesis using that [of s1] notin grown nx \<open>nat fd < nat (fd * 3 div 2)\<close> by simp
  qed
qed

section \<open>A reader waits\<close>

text \<open>A manager made by thread 7 alone, and fiber 9 of its scheduler waiting to read descriptor 5.\<close>

definition demo_io :: "nat io_manager" where
  "demo_io = (case io_ctor 1 True 7 0 3 0 0 0 [] of Inr s \<Rightarrow> s)"

definition demo_wait :: "nat io_manager" where
  "demo_wait = (case addEvent 5 READ None 0 (Some 0) 9 RUNNING demo_io of Inr (r, s) \<Rightarrow> s)"

lemma demo_io_reach: "io_reach demo_io"
proof -
  obtain s :: "nat io_manager" where s: "io_ctor 1 True 7 0 3 0 0 0 [] = Inr s"
    by (simp add: io_ctor_def scheduler_ctor_def start_def Let_def)
  from io_reach.ctor [OF s] s show ?thesis by (simp add: demo_io_def)
qed

lemma demo_io_state:
  "next_ctx demo_io = 32" "m_fdContexts demo_io = [0..<32]" "m_pendingEventCount demo_io = 0"
  "p < 32 \<Longrightarrow> fdctx demo_io p = new_context (int p)" "ep_log demo_io = []"
  by (simp_all add: demo_io_def io_ctor_def scheduler_ctor_def start_def contextResize_def Let_def)

lemma demo_ctx_at: "0 \<le> fd \<Longrightarrow> fd < 32 \<Longrightarrow> ctx_at fd demo_io = Inr (nat fd)"
  by (simp add: ctx_at_def demo_io_state)

lemma demo_wait_eq:
  "demo_wait = (epoll_ctl EPOLL_CTL_ADD 5 (EPOLLET OR READ) 0 demo_io)\<lparr>m_pendingEventCount := 1,
     fdctx := (fdctx demo_io)(5 := added_context READ None (Some 0) 9 (new_context 5))\<rparr>"
  "addEvent 5 READ None 0 (Some 0) 9 RUNNING demo_io = Inr (0, demo_wait)"
proof -
  have ok: "ctx_ok (fdctx demo_io 5)" by (simp add: demo_io_state new_context_def ctx_ok_def NONE_def)
  have e: "events (fdctx demo_io 5) = 0" by (simp add: demo_io_state new_context_def NONE_def)
  have "addEvent_at 5 5 READ None 0 (Some 0) 9 RUNNING demo_io =
    Inr (0, (epoll_ctl EPOLL_CTL_ADD 5 (EPOLLET OR READ) 0 demo_io)\<lparr>m_pendingEventCount := 1,
     fdctx := (fdctx demo_io)(5 := added_context READ None (Some 0) 9 (new_context 5))\<rparr>)"
    using e by (subst addEvent_at_result [OF ok]) (simp_all add: add_op_def demo_io_state Let_def)
  moreover have "addEvent_find 5 demo_io = Inr (5, demo_io)"
    by (simp add: addEvent_find_def ctx_in_range_def demo_ctx_at demo_io_state(2))
  ultimately show "demo_wait = (epoll_ctl EPOLL_CTL_ADD 5 (EPOLLET OR READ) 0 demo_io)\<lparr>m_pendingEventCount := 1,
     fdctx := (fdctx demo_io)(5 := added_context READ None (Some 0) 9 (new_context 5))\<rparr>"
    "addEvent 5 READ None 0 (Some 0) 9 RUNNING demo_io = Inr (0, demo_wait)"
    by (simp_all add: demo_wait_def addEvent_def)
qed

lemma demo_wait_state:
  "next_ctx demo_wait = 32" "m_fdContexts demo_wait = [0..<32]" "events (fdctx demo_wait 5) = READ"
  "read_ctx (fdctx demo_wait 5) = \<lparr>ev_scheduler = Some 0, ev_fiber = Some 9, ev_cb = None\<rparr>"
  "p < 32 \<Longrightarrow> p \<noteq> 5 \<Longrightarrow> fdctx demo_wait p = new_context (int p)"
  by (simp_all add: demo_wait_eq(1) demo_io_state added_context_def new_context_def no_event_def event_defs)

lemma demo_wait_reach: "io_reach demo_wait"
proof -
  have "addEvent_at 5 5 READ None 0 (Some 0) 9 RUNNING demo_io = Inr (0, demo_wait)"
    using demo_wait_eq(2)
    by (simp add: addEvent_def addEvent_find_def ctx_in_range_def demo_ctx_at demo_io_state(2))
  then show ?thesis
    by (intro io_reach.step [OF demo_io_reach io_step.add [where fd = 5 and p = 5]]) (simp_all add: demo_ctx_at)
qed

section \<open>Properties\<close>



text \<open>
  \<^verbatim>\<open>addEvent\<close> on a descriptor epoll accepts: it never faults, refuses an event that has a
  waiter, and otherwise leaves the caller's fiber, or the callback, waiting for exactly this event;
  the other contexts stay, and the pending counter counts the new event.
\<close>

theorem addEvent_registers_waiter:
  assumes "io_reach s" "0 \<le> fd" "fd < 2 ^ 31" "event = READ \<or> event = WRITE" "cb = None \<longrightarrow> st = RUNNING"
  shows "\<exists>p r s'. addEvent fd event cb 0 (Some k) fiber st s = Inr (r, s') \<and> io_reach s' \<and>
    ctx_at fd s' = Inr p \<and> events (fdctx s' p) AND event \<noteq> 0 \<and>
    (\<forall>q. q \<noteq> p \<and> q < next_ctx s \<longrightarrow> fdctx s' q = fdctx s q) \<and>
    (if p < next_ctx s \<and> events (fdctx s p) AND event \<noteq> 0 then r = - 1 \<and> s' = s
     else r = 0 \<and> m_pendingEventCount s' = m_pendingEventCount s + 1 \<and>
       waiting event (fdctx s' p) =
         \<lparr>ev_scheduler = Some k, ev_fiber = (if cb = None then Some fiber else None), ev_cb = cb\<rparr>)"
proof -
  have inv: "io_inv s" "2 \<le> next_ctx s" using io_reach_inv [OF assms(1)] by blast+
  let ?p = "nat fd"
  obtain s1 where find: "addEvent_find fd s = Inr (?p, s1)" and r1: "io_reach s1" and p1: "?p < next_ctx s1"
    and same: "\<And>q. q < next_ctx s \<Longrightarrow> fdctx s1 q = fdctx s q" "m_pendingEventCount s1 = m_pendingEventCount s"
    and old: "?p < next_ctx s \<Longrightarrow> s1 = s" and new: "\<not> ?p < next_ctx s \<Longrightarrow> events (fdctx s1 ?p) = 0"
    by (rule addEvent_find_reach [OF assms(1-3)]) (rule that; blast)
  have inv1: "io_inv s1" using io_reach_inv [OF r1] by blast
  have at: "ctx_at fd s1 = Inr ?p" using ctx_at_inv [OF inv1, of fd ?p] p1 assms(2) by simp
  note res = addEvent_at_result [OF io_inv_D(5) [OF inv1 p1] assms(4,5), of fd 0 "Some k" fiber]
  obtain r s' where full: "addEvent fd event cb 0 (Some k) fiber st s = Inr (r, s')"
    and at': "addEvent_at ?p fd event cb 0 (Some k) fiber st s1 = Inr (r, s')"
    using find res by (simp add: addEvent_def Let_def split: if_splits)
  have reach': "io_reach s'" by (rule io_reach.step [OF r1 io_step.add [OF at assms(4) _ at']]) (use assms(5) in auto)
  show ?thesis
  proof (cases "events (fdctx s1 ?p) AND event \<noteq> 0")
    case True
    then have p: "?p < next_ctx s" using new by fastforce
    with True at' res old have "r = - 1" "s' = s" by (auto simp: Let_def)
    with full True p old at reach' show ?thesis by auto
  next
    case False
    with at' res have "r = 0" and s': "s' = (epoll_ctl (add_op (events (fdctx s1 ?p))) fd
        (EPOLLET OR events (fdctx s1 ?p) OR event) 0 s1)\<lparr>m_pendingEventCount := m_pendingEventCount s1 + 1,
        fdctx := (fdctx s1)(?p := added_context event cb (Some k) fiber (fdctx s1 ?p))\<rparr>"
      by (simp_all add: Let_def)
    have "events (fdctx s' ?p) AND event \<noteq> 0" "ctx_at fd s' = Inr ?p"
      using assms(4) at
      by (auto simp: s' added_context_def ctx_at_def vec_at_def word_ao_dist event_defs split: if_splits)
    moreover have "waiting event (fdctx s' ?p) =
         \<lparr>ev_scheduler = Some k, ev_fiber = (if cb = None then Some fiber else None), ev_cb = cb\<rparr>"
      using assms(4) by (auto simp: s' waiting_def added_context_def no_event_def event_defs)
    ultimately show ?thesis using full reach' \<open>r = 0\<close> same False old
      by (intro exI [of _ ?p] exI [of _ r] exI [of _ s']) (auto simp: s')
  qed
qed

theorem addEvent_registers_waiter_witness:
  "\<exists>s'. addEvent 40 WRITE None 0 (Some 0) 9 RUNNING demo_wait = Inr (0, s') \<and>
     waiting WRITE (fdctx s' 40) = \<lparr>ev_scheduler = Some 0, ev_fiber = Some 9, ev_cb = None\<rparr>"
proof -
  have h: "(0 :: int) \<le> 40" "(40 :: int) < 2 ^ 31" "WRITE = READ \<or> WRITE = WRITE"
    "(None :: nat callback option) = None \<longrightarrow> RUNNING = RUNNING" by simp_all
  from addEvent_registers_waiter [OF demo_wait_reach h] obtain p r s' where
    a: "addEvent 40 WRITE None 0 (Some 0) 9 RUNNING demo_wait = Inr (r, s')" "io_reach s'" "ctx_at 40 s' = Inr p"
    and b: "if p < next_ctx demo_wait \<and> events (fdctx demo_wait p) AND WRITE \<noteq> 0 then r = - 1 \<and> s' = demo_wait
     else r = 0 \<and> m_pendingEventCount s' = m_pendingEventCount demo_wait + 1 \<and> waiting WRITE (fdctx s' p) =
         \<lparr>ev_scheduler = Some 0, ev_fiber = (if (None :: nat callback option) = None then Some 9 else None), ev_cb = None\<rparr>"
    by blast
  have "p = 40" using ctx_at_inv [of s' 40 p] io_reach_inv [OF a(2)] a(3) by simp
  with a(1) b show ?thesis by (auto simp: demo_wait_state(1))
qed

text \<open>The branches of \<^verbatim>\<open>cancelEvent\<close>.\<close>

lemma cancelEvent_cases:
  assumes "io_reach s" "ctx_at fd s = Inr p" "event = READ \<or> event = WRITE"
  shows "events (fdctx s p) AND event = 0 \<longrightarrow> cancelEvent fd event rt s = Inr (False, s)"
    and "events (fdctx s p) AND event \<noteq> 0 \<longrightarrow> (\<exists>s'. cancelEvent fd event rt s = Inr (True, s') \<and>
       (\<forall>q. q \<noteq> p \<longrightarrow> fdctx s' q = fdctx s q) \<and>
       (if rt \<noteq> 0 then fdctx s' p = fdctx s p \<and> schedulers s' = schedulers s
        else schedulers s' = hand_over (waiting event (fdctx s p)) (schedulers s) \<and>
          events (fdctx s' p) = events (fdctx s p) AND NOT event \<and>
          m_pendingEventCount s' = m_pendingEventCount s - 1 \<and>
          cancelEvent fd event rt s' = Inr (False, s')))"
proof -
  have inv: "io_inv s" using io_reach_inv [OF assms(1)] by blast
  have p: "p < next_ctx s" "fd = int p" using ctx_at_inv [OF inv] assms(2) by blast+
  have rng: "ctx_in_range fd s'" "ctx_at fd s' = Inr p" if "m_fdContexts s' = m_fdContexts s" for s' :: "'a io_manager"
    using assms(2) p that io_inv_D(1) [OF inv] by (simp_all add: ctx_in_range_def ctx_at_def)
  note res = cancelEvent_at_result [OF io_inv_D(5) [OF inv p(1)] assms(3), of fd rt]
  show "events (fdctx s p) AND event = 0 \<longrightarrow> cancelEvent fd event rt s = Inr (False, s)"
    using res rng [of s] by (simp add: cancelEvent_def Let_def)
  have off: "(events (fdctx s p) AND NOT event) AND event = 0"
    using io_inv_D(5) [OF inv p(1)] assms(3) by (elim ctx_okE disjE) (simp_all add: event_defs)
  show "events (fdctx s p) AND event \<noteq> 0 \<longrightarrow> (\<exists>s'. cancelEvent fd event rt s = Inr (True, s') \<and>
       (\<forall>q. q \<noteq> p \<longrightarrow> fdctx s' q = fdctx s q) \<and>
       (if rt \<noteq> 0 then fdctx s' p = fdctx s p \<and> schedulers s' = schedulers s
        else schedulers s' = hand_over (waiting event (fdctx s p)) (schedulers s) \<and>
          events (fdctx s' p) = events (fdctx s p) AND NOT event \<and>
          m_pendingEventCount s' = m_pendingEventCount s - 1 \<and>
          cancelEvent fd event rt s' = Inr (False, s')))"
  proof (cases "rt = 0")
    case True
    let ?s' = "triggered p event ((epoll_ctl (remove_op (events (fdctx s p) AND NOT event)) fd
      (EPOLLET OR (events (fdctx s p) AND NOT event)) 0 s)\<lparr>m_pendingEventCount := m_pendingEventCount s - 1\<rparr>)"
    have "cancelEvent fd event 0 ?s' = Inr (False, ?s')"
      using rng [of ?s'] off by (simp add: cancelEvent_def cancelEvent_at_def Let_def)
    with res rng [of s] True show ?thesis by (auto simp: cancelEvent_def Let_def)
  next
    case False
    with res rng [of s] show ?thesis by (auto simp: cancelEvent_def Let_def)
  qed
qed

text \<open>
  \<^verbatim>\<open>cancelEvent\<close> wakes a waiter exactly once: when the event has a waiter and epoll accepts the
  change, the waiter's task goes to the scheduler it registered from, the event is gone (the other
  event of the descriptor and all other contexts stay), and a second call returns false. Without a
  waiter nothing changes. When epoll refuses, nothing is woken, and yet the call returns true: the
  \<^verbatim>\<open>return -1\<close> of a function of type \<^verbatim>\<open>bool\<close>.
\<close>

theorem cancelEvent_wakes_once:
  assumes "io_reach s" "ctx_at fd s = Inr p" "event = READ \<or> event = WRITE"
  shows "(events (fdctx s p) AND event = 0 \<longrightarrow> cancelEvent fd event rt s = Inr (False, s)) \<and>
    (events (fdctx s p) AND event \<noteq> 0 \<longrightarrow> (\<exists>s'. cancelEvent fd event rt s = Inr (True, s') \<and>
       (\<forall>q. q \<noteq> p \<longrightarrow> fdctx s' q = fdctx s q) \<and>
       (if rt \<noteq> 0 then fdctx s' p = fdctx s p \<and> schedulers s' = schedulers s
        else schedulers s' = hand_over (waiting event (fdctx s p)) (schedulers s) \<and>
          events (fdctx s' p) = events (fdctx s p) AND NOT event \<and>
          m_pendingEventCount s' = m_pendingEventCount s - 1 \<and>
          cancelEvent fd event rt s' = Inr (False, s'))))"
  using cancelEvent_cases [OF assms] by (intro conjI)

theorem cancelEvent_wakes_once_witness:
  "\<exists>s'. cancelEvent 5 READ 0 demo_wait = Inr (True, s') \<and>
     schedulers s' = hand_over \<lparr>ev_scheduler = Some 0, ev_fiber = Some 9, ev_cb = None\<rparr> (schedulers demo_wait) \<and>
     cancelEvent 5 WRITE 0 demo_wait = Inr (False, demo_wait)"
proof -
  have at: "ctx_at 5 demo_wait = Inr 5" by (simp add: ctx_at_def demo_wait_state(2))
  have e: "events (fdctx demo_wait 5) AND READ \<noteq> 0" "events (fdctx demo_wait 5) AND WRITE = 0"
    by (simp_all add: demo_wait_state(3) event_defs)
  have w: "waiting READ (fdctx demo_wait 5) = \<lparr>ev_scheduler = Some 0, ev_fiber = Some 9, ev_cb = None\<rparr>"
    by (simp add: demo_wait_state(4))
  from cancelEvent_wakes_once [OF demo_wait_reach at, of READ 0] e(1) w
    cancelEvent_wakes_once [OF demo_wait_reach at, of WRITE 0] e(2)
  show ?thesis by auto
qed

text \<open>
  One ready descriptor in \<^verbatim>\<open>idle\<close>, with epoll accepting the change: the waiters of the events
  that happened are handed over, reading first, each once, their events are taken out and the
  others stay armed. It faults exactly when an event is reported that has no waiter any more beside
  one that has: \<^verbatim>\<open>real_events\<close> is not restricted to the registered events, so the \<^verbatim>\<open>assert\<close> of
  \<^verbatim>\<open>triggerEvent\<close> fails. This cannot happen as long as the report holds only registered events
  besides errors and hang-ups.
\<close>

theorem idle_event_wakes_ready:
  assumes "io_reach s" "p \<in> set (m_fdContexts s)"
  shows "let e = events (fdctx s p); real = real_events e ev in
    (e AND real = 0 \<longrightarrow> idle_event p ev 0 s = Inr s) \<and>
    (e AND real \<noteq> 0 \<and> real AND NOT e \<noteq> 0 \<longrightarrow> idle_event p ev 0 s = Inl Assert_Failed) \<and>
    (e AND real \<noteq> 0 \<and> real AND NOT e = 0 \<longrightarrow> (\<exists>s'. idle_event p ev 0 s = Inr s' \<and> io_reach s' \<and>
       fdctx s' = (fdctx s)(p := fire_ctx real (fdctx s p)) \<and>
       schedulers s' = hand_all real (fdctx s p) (schedulers s) \<and>
       m_pendingEventCount s' = m_pendingEventCount s - of_nat (event_count real))) \<and>
    (ev AND (EPOLLIN OR EPOLLOUT) AND NOT e = 0 \<longrightarrow> real AND NOT e = 0)"
proof -
  have inv: "io_inv s" using io_reach_inv [OF assms(1)] by blast
  have p: "p < next_ctx s" using assms(2) io_inv_D(1) [OF inv] by simp
  note ok = io_inv_D(5) [OF inv p]
  define e where "e = events (fdctx s p)"
  define real where "real = real_events e ev"
  note res = idle_event_result [OF ok, of ev 0, unfolded Let_def, folded e_def, folded real_def]
  let ?s' = "fired p real (epoll_ctl (remove_op (e AND NOT real)) (ctx_fd (fdctx s p)) (EPOLLET OR (e AND NOT real)) 0 s)"
  have fire: "idle_event p ev 0 s = Inr ?s'" if "e AND real \<noteq> 0" "real AND NOT e = 0"
    using that by (simp add: res)
  have "io_reach ?s'" if "e AND real \<noteq> 0" "real AND NOT e = 0"
    by (rule io_reach.step [OF assms(1) io_step.ready [OF assms(2) fire [OF that]]])
  moreover have "schedulers ?s' = hand_all real (fdctx s p) (schedulers s)" by (simp add: fired_def)
  moreover have "real AND NOT e = 0" if "ev AND (EPOLLIN OR EPOLLOUT) AND NOT e = 0"
    unfolding real_def by (rule real_events_sub [OF _ that]) (use ok in \<open>simp add: ctx_ok_def e_def\<close>)
  ultimately show ?thesis
    unfolding Let_def e_def [symmetric] real_def [symmetric] using fire by (auto simp: res)
qed

theorem idle_event_wakes_ready_witness:
  "\<exists>s'. idle_event 5 (EPOLLIN OR EPOLLHUP) 0 demo_wait = Inr s' \<and>
     schedulers s' = hand_over \<lparr>ev_scheduler = Some 0, ev_fiber = Some 9, ev_cb = None\<rparr> (schedulers demo_wait) \<and>
     idle_event 5 (EPOLLIN OR EPOLLOUT) 0 demo_wait = Inl Assert_Failed"
proof -
  have p: "5 \<in> set (m_fdContexts demo_wait)" by (simp add: demo_wait_state(2))
  have r: "real_events READ (EPOLLIN OR EPOLLHUP) = READ" "real_events READ (EPOLLIN OR EPOLLOUT) = 5"
    by (simp_all add: real_events_def event_defs)
  note th = idle_event_wakes_ready [OF demo_wait_reach p, unfolded Let_def demo_wait_state(3)]
  have "hand_all READ (fdctx demo_wait 5) (schedulers demo_wait) =
      hand_over \<lparr>ev_scheduler = Some 0, ev_fiber = Some 9, ev_cb = None\<rparr> (schedulers demo_wait)"
    by (simp add: hand_all_def demo_wait_state(4) event_defs)
  with th [of "EPOLLIN OR EPOLLHUP", unfolded r] th [of "EPOLLIN OR EPOLLOUT", unfolded r]
  show ?thesis by (auto simp: event_defs)
qed

text \<open>
  C39. Two threads adding events race on the table: both find it too short, the one with the larger
  descriptor grows it and registers its event, and the other, which does not look again, resizes it
  to its own smaller size. The registered event, which epoll knows and the pending counter counts,
  can then neither be deleted nor cancelled.
\<close>

theorem addEvent_resize_race:
  assumes "io_reach s" "int (length (m_fdContexts s)) \<le> fd2" "fd2 * 3 div 2 \<le> fd1" "fd1 < 2 ^ 31"
  shows "\<exists>p s1 s2 q s3. addEvent_resize fd1 s = Inr (p, s1) \<and>
    addEvent_at p fd1 READ None 0 (Some k) fiber RUNNING s1 = Inr (0, s2) \<and>
    addEvent_resize fd2 s2 = Inr (q, s3) \<and>
    events (fdctx s3 p) AND READ \<noteq> 0 \<and> interest s3 fd1 \<noteq> None \<and>
    m_pendingEventCount s3 = m_pendingEventCount s + 1 \<and>
    (\<forall>event rt. delEvent fd1 event rt s3 = Inr (False, s3) \<and> cancelEvent fd1 event rt s3 = Inr (False, s3) \<and>
       cancelAll fd1 rt s3 = Inr (False, s3))"
proof -
  have inv: "io_inv s" "2 \<le> next_ctx s" using io_reach_inv [OF assms(1)] by blast+
  have len: "length (m_fdContexts s) = next_ctx s" using io_inv_D(1) [OF inv(1)] by simp
  have le1: "int (length (m_fdContexts s)) \<le> fd1" using assms(2,3) by linarith
  note rs = addEvent_resize_inv [OF inv(1) le1 assms(4) inv(2)]
  define s1 where "s1 = contextResize (nat (fd1 * 3 div 2)) s"
  have inv1: "io_inv s1" and p: "nat fd1 < next_ctx s1" using rs by (simp_all add: s1_def)
  have le': "length (m_fdContexts s) \<le> nat (fd1 * 3 div 2)" using le1 by linarith
  have n1: "next_ctx s1 = nat (fd1 * 3 div 2)" unfolding s1_def by (rule io_inv_resize(2) [OF inv(1) le'])
  have "\<not> nat fd1 < next_ctx s" using le1 len by simp
  then have c1: "fdctx s1 (nat fd1) = new_context fd1" and pend1: "m_pendingEventCount s1 = m_pendingEventCount s"
    using contextResize_grown [OF inv(1) le'] p n1 le1 by (simp_all add: s1_def)
  define s2 where "s2 = (epoll_ctl EPOLL_CTL_ADD fd1 (EPOLLET OR READ) 0 s1)\<lparr>m_pendingEventCount := m_pendingEventCount s + 1,
       fdctx := (fdctx s1)(nat fd1 := added_context READ None (Some k) fiber (new_context fd1))\<rparr>"
  have add: "addEvent_at (nat fd1) fd1 READ None 0 (Some k) fiber RUNNING s1 = Inr (0, s2)"
    by (subst addEvent_at_result [OF io_inv_D(5) [OF inv1 p]])
      (simp_all add: c1 s2_def new_context_def NONE_def add_op_def pend1)
  have m2: "m_fdContexts s2 = [0..<next_ctx s1]" using io_inv_D(1) [OF inv1] by (simp add: s2_def)
  define n where "n = nat (fd2 * 3 div 2)"
  define s3 where "s3 = contextResize n s2"
  have n: "n \<le> nat fd1" "n \<le> next_ctx s1" using assms(3) p by (simp_all add: n_def)
  have s3: "m_fdContexts s3 = [0..<n]" "fdctx s3 = fdctx s2" "ep_log s3 = ep_log s2"
    "m_pendingEventCount s3 = m_pendingEventCount s2"
    using n m2 by (auto simp: s3_def contextResize_def Let_def take_upt intro!: ext)
  have "2 \<le> fd2" using inv(2) assms(2) len by linarith
  then have "nat fd2 < n" "0 \<le> fd2" by (simp_all add: n_def) linarith
  then have rs2: "addEvent_resize fd2 s2 = Inr (nat fd2, s3)"
    by (simp add: addEvent_resize_def Let_def ctx_at_def s3 flip: n_def s3_def)
  have out: "\<not> ctx_in_range fd1 s3" using n(1) le1 by (simp add: ctx_in_range_def s3)
  have "events (fdctx s3 (nat fd1)) AND READ \<noteq> 0"
    by (simp add: s3 s2_def added_context_def new_context_def event_defs)
  moreover have "interest s3 fd1 \<noteq> None" by (simp add: interest_def s3 s2_def)
  ultimately show ?thesis using rs(1) add rs2 out
    by (intro exI [of _ "nat fd1"] exI [of _ s1] exI [of _ s2] exI [of _ "nat fd2"] exI [of _ s3])
      (simp add: s1_def delEvent_def cancelEvent_def cancelAll_def s3 s2_def)
qed

theorem addEvent_resize_race_witness:
  "\<exists>s3 :: nat io_manager. events (fdctx s3 100) AND READ \<noteq> 0 \<and> cancelEvent 100 READ 0 s3 = Inr (False, s3)"
proof -
  have h: "int (length (m_fdContexts demo_wait)) \<le> 40" "40 * 3 div 2 \<le> (100 :: int)" "(100 :: int) < 2 ^ 31"
    by (simp_all add: demo_wait_state(2))
  obtain p s1 and s3 :: "nat io_manager" where
    r: "addEvent_resize 100 demo_wait = Inr (p, s1)" and e: "events (fdctx s3 p) AND READ \<noteq> 0"
    "\<forall>event rt. delEvent 100 event rt s3 = Inr (False, s3) \<and> cancelEvent 100 event rt s3 = Inr (False, s3) \<and>
       cancelAll 100 rt s3 = Inr (False, s3)"
    using addEvent_resize_race [OF demo_wait_reach h, of 0 9] by (elim exE conjE) (rule that; assumption)
  have "ctx_at 100 s1 = Inr p" using r by (auto simp: addEvent_resize_def Let_def result_bind_Inr_iff)
  then have "p = 100" using r
    by (auto simp: addEvent_resize_def Let_def ctx_at_def vec_at_Inr_iff contextResize_def demo_wait_state nth_append)
  with e show ?thesis by auto
qed

text \<open>
  \<^verbatim>\<open>IOManager::stopping()\<close>: with deadlines the clock can represent, it holds exactly when no
  timer is queued, no descriptor has a waiter for any event, and \<^verbatim>\<open>Scheduler::stopping()\<close> holds; its
  only effect is that the next timer inserted at the front may ask for a wake-up again.
\<close>

theorem io_stopping_iff_quiet:
  assumes "io_reach s" "tm_reach (timers s)" "\<forall>t \<in> set (m_timers (timers s)). deadline (timers s) t - now < 2 ^ 63"
  shows "(fst (io_stopping now s) \<longleftrightarrow> m_timers (timers s) = [] \<and>
      (\<forall>p \<in> set (m_fdContexts s). events (fdctx s p) = 0) \<and> stopping (schedulers s (self s))) \<and>
    snd (io_stopping now s) = s\<lparr>timers := (timers s)\<lparr>m_tickled := False\<rparr>\<rparr>"
proof -
  obtain r t where g: "getNextTimer now (timers s) = (r, t)" by fastforce
  note inv = io_reach_inv [OF assms(1)]
  have r: "r = - 1 \<longleftrightarrow> m_timers (timers s) = []"
    using getNextTimer_facts [OF tm_reach_inv [OF assms(2)] assms(3) g] by blast
  have "m_pendingEventCount s = 0 \<longleftrightarrow> registered s = 0"
    using registered_bound [OF assms(1)] inv
    by (auto simp: io_inv_D(3) word_of_nat_eq_0_iff dest: nat_dvd_not_less)
  also have "\<dots> \<longleftrightarrow> (\<forall>p < next_ctx s. events (fdctx s p) = 0)"
  proof -
    have "event_count (events (fdctx s p)) = 0 \<longleftrightarrow> events (fdctx s p) = 0" if "p < next_ctx s" for p
      using io_inv_D(5) [of s p] inv that by (auto simp: ctx_ok_def event_count_def)
    then show ?thesis by (auto simp: registered_def)
  qed
  finally have p: "m_pendingEventCount s = 0 \<longleftrightarrow> (\<forall>p \<in> set (m_fdContexts s). events (fdctx s p) = 0)"
    using io_inv_D(1) [of s] inv by auto
  have t: "t = (timers s)\<lparr>m_tickled := False\<rparr>"
    using g by (auto simp: getNextTimer_def Let_def split: list.splits if_splits)
  show ?thesis using r p t by (simp add: io_stopping_def g)
qed

lemma demo_wait_timers: "timers demo_wait = manager_ctor 0"
  by (simp add: demo_wait_eq(1) demo_io_def io_ctor_def scheduler_ctor_def start_def contextResize_def
      epoll_ctl_def Let_def)

theorem io_stopping_iff_quiet_witness:
  "\<not> fst (io_stopping 0 demo_wait)"
proof -
  have t: "tm_reach (timers demo_wait)" "\<forall>t \<in> set (m_timers (timers demo_wait)). deadline (timers demo_wait) t - 0 < 2 ^ 63"
    by (simp_all add: demo_wait_timers tm_ctor) (simp add: manager_ctor_def)
  have "5 \<in> set (m_fdContexts demo_wait)" "events (fdctx demo_wait 5) \<noteq> 0"
    by (simp_all add: demo_wait_state READ_def)
  with io_stopping_iff_quiet [OF demo_wait_reach t] show ?thesis by blast
qed

text \<open>
  The idle thread sleeps neither for ever nor past a timer: the timeout given to
  \<^verbatim>\<open>epoll_wait\<close> is between 0 and 5000 milliseconds and never reaches beyond a queued deadline.
\<close>

theorem idle_timeout_bounded:
  assumes "tm_reach (timers s)" "\<forall>t \<in> set (m_timers (timers s)). deadline (timers s) t - now < 2 ^ 63"
    and "idle_timeout now s = (ms, s')"
  shows "0 \<le> ms \<and> ms \<le> 5000 \<and>
    (\<forall>t \<in> set (m_timers (timers s)). now + ms * 1000000 \<le> max now (deadline (timers s) t))"
proof -
  obtain r t where g: "getNextTimer now (timers s) = (r, t)" by fastforce
  note G = getNextTimer_facts [OF tm_reach_inv [OF assms(1)] assms(2) g]
  let ?m = "min r 5000"
  have u: "uint ?m \<le> 5000" "uint ?m \<le> uint r"
    by (simp_all add: min_def word_le_def)
  have ge: "- 2147483648 \<le> uint ?m" by (rule order_trans [of _ 0]) simp_all
  have ms: "ms = sint (ucast ?m :: u32)" using assms(3) g by (simp add: idle_timeout_def)
  have "uint (ucast ?m :: u32) = uint ?m"
    unfolding unsigned_ucast_eq using u(1) by (simp add: take_bit_int_eq_self)
  then have "ms = uint ?m"
    unfolding ms sint_uint
    by (simp, intro signed_take_bit_int_eq_self) (use u(1) ge in simp_all)
  moreover have "now + uint ?m * 1000000 \<le> max now (deadline (timers s) t)" if "t \<in> set (m_timers (timers s))" for t
  proof -
    have "now + uint r * 1000000 \<le> max now (deadline (timers s) t)" using G that by blast
    with u(2) show ?thesis by linarith
  qed
  ultimately show ?thesis using u(1) by simp
qed

theorem idle_timeout_bounded_witness:
  "\<exists>ms s'. idle_timeout 0 demo_wait = (ms, s') \<and> 0 \<le> ms \<and> ms \<le> 5000"
proof -
  have t: "tm_reach (timers demo_wait)" "\<forall>t \<in> set (m_timers (timers demo_wait)). deadline (timers demo_wait) t - 0 < 2 ^ 63"
    by (simp_all add: demo_wait_timers tm_ctor) (simp add: manager_ctor_def)
  obtain ms s' where i: "idle_timeout 0 demo_wait = (ms, s')" by fastforce
  from idle_timeout_bounded [OF t i] i show ?thesis by blast
qed

end
