(* ===== verification/Fd_Manager.thy ===== *)
theory Fd_Manager
  imports Prelude
begin

text \<open>
  What the hooks know of a descriptor: \<^verbatim>\<open>FdCtx\<close> and \<^verbatim>\<open>FdManager\<close> of
  \<^verbatim>\<open>src/CoroutineLibrary/fd_manager.h\<close> and \<^verbatim>\<open>fd_manager.cpp\<close>. The contexts are objects behind shared
  pointers, so the table holds identities. What \<^verbatim>\<open>fstat\<close> says of a descriptor (\<open>None\<close> for a failure,
  else whether it is a socket) and its status flags are arguments.
\<close>

section \<open>State\<close>

definition O_NONBLOCK :: u32 where "O_NONBLOCK = 2048"

record fd_ctx =
  m_isInit :: bool
  m_isSocket :: bool
  m_sysNonblock :: bool
  m_userNonblock :: bool
  m_isClosed :: bool
  m_fd :: int
  m_recvTimeout :: u64
  m_sendTimeout :: u64

record fd_manager =
  m_datas :: "nat option list"
  fd_obj :: "nat \<Rightarrow> fd_ctx"
  next_obj :: nat

datatype timeout_type = SO_RCVTIMEO | SO_SNDTIMEO

section \<open>Operations\<close>

text \<open>\<^verbatim>\<open>FdCtx::init\<close>; the last result is the argument of \<^verbatim>\<open>F_SETFL\<close>, when that call is made.\<close>

definition fd_init :: "bool option \<Rightarrow> u32 \<Rightarrow> fd_ctx \<Rightarrow> bool \<times> fd_ctx \<times> u32 option" where
  "fd_init st flags c =
     (if m_isInit c then (True, c, None)
      else
        let c1 = (case st of
              None \<Rightarrow> c\<lparr>m_isInit := False, m_isSocket := False\<rparr>
            | Some is_sock \<Rightarrow> c\<lparr>m_isInit := True, m_isSocket := is_sock\<rparr>);
            set_call = (if m_isSocket c1 \<and> flags AND O_NONBLOCK = 0 then Some (flags OR O_NONBLOCK) else None);
            c2 = (if m_isSocket c1 then c1\<lparr>m_sysNonblock := True\<rparr> else c1\<lparr>m_sysNonblock := False\<rparr>)
        in (m_isInit c2, c2, set_call))"

definition fd_ctx_ctor :: "int \<Rightarrow> bool option \<Rightarrow> u32 \<Rightarrow> fd_ctx \<times> u32 option" where
  "fd_ctx_ctor fd st flags =
     snd (fd_init st flags \<lparr>m_isInit = False, m_isSocket = False, m_sysNonblock = False, m_userNonblock = False,
       m_isClosed = False, m_fd = fd, m_recvTimeout = - 1, m_sendTimeout = - 1\<rparr>)"

definition setTimeout :: "timeout_type \<Rightarrow> u64 \<Rightarrow> fd_ctx \<Rightarrow> fd_ctx" where
  "setTimeout type v c = (if type = SO_RCVTIMEO then c\<lparr>m_recvTimeout := v\<rparr> else c\<lparr>m_sendTimeout := v\<rparr>)"

definition getTimeout :: "timeout_type \<Rightarrow> fd_ctx \<Rightarrow> u64" where
  "getTimeout type c = (if type = SO_RCVTIMEO then m_recvTimeout c else m_sendTimeout c)"

definition fd_manager_ctor :: "fd_manager" where
  "fd_manager_ctor = \<lparr>m_datas = vec_resize 64 None [],
     fd_obj = (\<lambda>_. fst (fd_ctx_ctor 0 None 0)), next_obj = 0\<rparr>"

text \<open>\<^verbatim>\<open>m_datas.size() <= fd\<close> compares unsigned: a negative \<^verbatim>\<open>fd\<close> is a huge index.\<close>

definition size_le :: "fd_manager \<Rightarrow> int \<Rightarrow> bool" where
  "size_le s fd \<longleftrightarrow> fd < 0 \<or> int (length (m_datas s)) \<le> fd"

text \<open>\<^verbatim>\<open>get\<close> under the shared lock: the answer, or \<open>None\<close> when a context is to be made.\<close>

definition get_read :: "int \<Rightarrow> bool \<Rightarrow> fd_manager \<Rightarrow> nat option option" where
  "get_read fd auto_create s =
     (if fd = - 1 then Some None
      else if size_le s fd then (if \<not> auto_create then Some None else None)
      else if m_datas s ! nat fd \<noteq> None \<or> \<not> auto_create then Some (m_datas s ! nat fd)
      else None)"

text \<open>
  The rest of \<^verbatim>\<open>get\<close>, under the exclusive lock. For a negative descriptor the new size is a
  negative \<^verbatim>\<open>double\<close> turned into a \<^verbatim>\<open>size_t\<close>, which is undefined.
\<close>

definition get_create :: "int \<Rightarrow> bool option \<Rightarrow> u32 \<Rightarrow> fd_manager \<Rightarrow> (nat \<times> fd_manager) result" where
  "get_create fd st flags s =
     (if fd < 0 then Inl Undefined_Behaviour
      else
        let ds = (if size_le s fd then vec_resize (nat (fd * 3 div 2)) None (m_datas s) else m_datas s);
            p = next_obj s
        in result_bind (vec_put ds (nat fd) (Some p)) (\<lambda>ds'.
             Inr (p, s\<lparr>m_datas := ds', fd_obj := (fd_obj s)(p := fst (fd_ctx_ctor fd st flags)), next_obj := Suc p\<rparr>)))"

definition fd_get :: "int \<Rightarrow> bool \<Rightarrow> bool option \<Rightarrow> u32 \<Rightarrow> fd_manager \<Rightarrow> (nat option \<times> fd_manager) result" where
  "fd_get fd auto_create st flags s =
     (case get_read fd auto_create s of
        Some r \<Rightarrow> Inr (r, s)
      | None \<Rightarrow> result_bind (get_create fd st flags s) (\<lambda>(p, s1). Inr (Some p, s1)))"

definition fd_del :: "int \<Rightarrow> fd_manager \<Rightarrow> fd_manager" where
  "fd_del fd s = (if size_le s fd then s else s\<lparr>m_datas := (m_datas s)[nat fd := None]\<rparr>)"

text \<open>\<^verbatim>\<open>Singleton<FdManager>\<close>, under its own mutex.\<close>

definition GetInstance :: "fd_manager option \<Rightarrow> fd_manager \<times> fd_manager option" where
  "GetInstance inst = (case inst of Some m \<Rightarrow> (m, inst) | None \<Rightarrow> (fd_manager_ctor, Some fd_manager_ctor))"

definition DestroyInstance :: "fd_manager option \<Rightarrow> fd_manager option" where
  "DestroyInstance inst = None"

text \<open>What the callers see of descriptor \<open>fd\<close>.\<close>

definition lookup_fd :: "fd_manager \<Rightarrow> int \<Rightarrow> fd_ctx option" where
  "lookup_fd s fd = (if size_le s fd then None else map_option (fd_obj s) (m_datas s ! nat fd))"

section \<open>The invariant\<close>

text \<open>
  The table never gets shorter than 64 entries; the context in slot \<open>i\<close> is one made for
  descriptor \<open>i\<close>, no context is in two slots, and a context's system flag says whether it is a socket.
\<close>

definition fdm_inv :: "fd_manager \<Rightarrow> bool" where
  "fdm_inv s \<longleftrightarrow> 64 \<le> length (m_datas s) \<and>
     (\<forall>i < length (m_datas s). \<forall>p. m_datas s ! i = Some p \<longrightarrow>
        p < next_obj s \<and> m_fd (fd_obj s p) = int i \<and> m_sysNonblock (fd_obj s p) = m_isSocket (fd_obj s p))"

lemma fd_ctx_ctor_sel [simp]:
  "m_fd (fst (fd_ctx_ctor fd st flags)) = fd"
  "m_sysNonblock (fst (fd_ctx_ctor fd st flags)) = m_isSocket (fst (fd_ctx_ctor fd st flags))"
  "m_isSocket (fst (fd_ctx_ctor fd st flags)) = (st = Some True)"
  "m_isClosed (fst (fd_ctx_ctor fd st flags)) = False"
  "m_userNonblock (fst (fd_ctx_ctor fd st flags)) = False"
  by (auto simp: fd_ctx_ctor_def fd_init_def Let_def split: option.splits)

lemma fdm_inv_ctor: "fdm_inv fd_manager_ctor"
  by (simp add: fdm_inv_def fd_manager_ctor_def nth_vec_resize)

lemma fdm_inv_del:
  assumes "fdm_inv s"
  shows "fdm_inv (fd_del fd s)"
proof (cases "size_le s fd")
  case False
  then have "nat fd < length (m_datas s)" by (auto simp: size_le_def)
  with assms False show ?thesis by (auto simp: fdm_inv_def fd_del_def nth_list_update split: if_splits)
qed (use assms in \<open>simp add: fd_del_def\<close>)

text \<open>A context is made without a fault for every non-negative descriptor.\<close>

lemma get_create_result:
  assumes inv: "fdm_inv s" and fd: "0 \<le> fd"
  obtains s' where "get_create fd st flags s = Inr (next_obj s, s')" "fdm_inv s'" "\<not> size_le s' fd"
    "m_datas s' ! nat fd = Some (next_obj s)" "fd_obj s' = (fd_obj s)(next_obj s := fst (fd_ctx_ctor fd st flags))"
    "\<And>i. i < length (m_datas s) \<Longrightarrow> i \<noteq> nat fd \<Longrightarrow> m_datas s' ! i = m_datas s ! i"
    "length (m_datas s) \<le> length (m_datas s')"
    "\<And>i. length (m_datas s) \<le> i \<Longrightarrow> i < length (m_datas s') \<Longrightarrow> i \<noteq> nat fd \<Longrightarrow> m_datas s' ! i = None"
    "next_obj s' = Suc (next_obj s)"
proof -
  define ds where "ds = (if size_le s fd then vec_resize (nat (fd * 3 div 2)) None (m_datas s) else m_datas s)"
  have len: "64 \<le> length (m_datas s)" using inv by (simp add: fdm_inv_def)
  have grow: "nat fd < length ds \<and> length (m_datas s) \<le> length ds"
  proof (cases "size_le s fd")
    case True
    then have "int (length (m_datas s)) \<le> fd" using fd by (simp add: size_le_def)
    with len have "64 \<le> fd" by linarith
    then have "nat fd < nat (fd * 3 div 2)" by linarith
    moreover have "length (m_datas s) \<le> nat fd" using \<open>int (length (m_datas s)) \<le> fd\<close> by linarith
    ultimately show ?thesis using True by (simp add: ds_def)
  qed (use fd in \<open>auto simp: ds_def size_le_def\<close>)
  have nth: "ds ! i = (if i < length (m_datas s) then m_datas s ! i else None)" if "i < length ds" for i
    using that by (auto simp: ds_def nth_vec_resize split: if_splits)
  define s' where "s' = s\<lparr>m_datas := ds[nat fd := Some (next_obj s)],
    fd_obj := (fd_obj s)(next_obj s := fst (fd_ctx_ctor fd st flags)), next_obj := Suc (next_obj s)\<rparr>"
  have "get_create fd st flags s = Inr (next_obj s, s')"
    using fd grow by (simp add: get_create_def Let_def s'_def ds_def)
  moreover have "fdm_inv s'"
    unfolding fdm_inv_def
  proof (intro conjI allI impI)
    show "64 \<le> length (m_datas s')" using len grow by (simp add: s'_def)
    fix i p assume i: "i < length (m_datas s')" "m_datas s' ! i = Some p"
    have "p < Suc (next_obj s) \<and> m_fd (fd_obj s' p) = int i \<and> m_sysNonblock (fd_obj s' p) = m_isSocket (fd_obj s' p)"
    proof (cases "i = nat fd")
      case True
      with i fd grow show ?thesis by (simp add: s'_def)
    next
      case False
      with i have "ds ! i = Some p" "i < length ds" by (simp_all add: s'_def)
      with nth have "m_datas s ! i = Some p" "i < length (m_datas s)" by (auto split: if_splits)
      with inv have "p < next_obj s \<and> m_fd (fd_obj s p) = int i \<and> m_sysNonblock (fd_obj s p) = m_isSocket (fd_obj s p)"
        unfolding fdm_inv_def by blast
      then show ?thesis by (simp add: s'_def)
    qed
    then show "p < next_obj s'" "m_fd (fd_obj s' p) = int i"
      "m_sysNonblock (fd_obj s' p) = m_isSocket (fd_obj s' p)" by (simp_all add: s'_def)
  qed
  ultimately show thesis
    by (rule that) (use grow fd nth in \<open>auto simp: s'_def size_le_def\<close>)
qed

lemma get_create_lookup:
  assumes inv: "fdm_inv s" and fd: "0 \<le> fd"
  obtains s' where "get_create fd st flags s = Inr (next_obj s, s')" "\<not> size_le s' fd"
    "m_datas s' ! nat fd = Some (next_obj s)" "m_fd (fd_obj s' (next_obj s)) = fd"
    "\<And>fd'. lookup_fd s' fd' = (if fd' = fd then Some (fst (fd_ctx_ctor fd st flags)) else lookup_fd s fd')"
proof (rule get_create_result [OF inv fd, of st flags])
  fix s' assume s': "get_create fd st flags s = Inr (next_obj s, s')" "fdm_inv s'" "\<not> size_le s' fd"
    "m_datas s' ! nat fd = Some (next_obj s)" "fd_obj s' = (fd_obj s)(next_obj s := fst (fd_ctx_ctor fd st flags))"
    "\<And>i. i < length (m_datas s) \<Longrightarrow> i \<noteq> nat fd \<Longrightarrow> m_datas s' ! i = m_datas s ! i"
    "length (m_datas s) \<le> length (m_datas s')"
    "\<And>i. length (m_datas s) \<le> i \<Longrightarrow> i < length (m_datas s') \<Longrightarrow> i \<noteq> nat fd \<Longrightarrow> m_datas s' ! i = None"
  have "lookup_fd s' fd' = lookup_fd s fd'" if ne: "fd' \<noteq> fd" for fd'
  proof (cases "fd' < 0")
    case True
    then show ?thesis by (simp add: lookup_fd_def size_le_def)
  next
    case pos: False
    then have i: "nat fd' \<noteq> nat fd" using ne fd by linarith
    have "p \<noteq> next_obj s" if "nat fd' < length (m_datas s)" "m_datas s ! nat fd' = Some p" for p
      using inv that unfolding fdm_inv_def by blast
    then show ?thesis using pos i s'(5,7) s'(6,8) [of "nat fd'"]
      by (cases "nat fd' < length (m_datas s)"; cases "m_datas s ! nat fd'")
        (auto simp: lookup_fd_def size_le_def)
  qed
  moreover have "lookup_fd s' fd = Some (fst (fd_ctx_ctor fd st flags))" using s'(3-5) by (simp add: lookup_fd_def)
  moreover have "m_fd (fd_obj s' (next_obj s)) = fd" using s'(5) by simp
  ultimately show thesis using s'(1,3,4) that [of s'] by simp
qed

lemma fdm_inv_get:
  assumes "fdm_inv s" "fd_get fd auto_create st flags s = Inr (r, s')"
  shows "fdm_inv s'"
proof (cases "get_read fd auto_create s")
  case None
  then have "0 \<le> fd" using assms(2) by (cases "fd < 0") (simp_all add: fd_get_def get_create_def)
  with None assms show ?thesis
    by (elim get_create_result [OF assms(1), of fd st flags]) (auto simp: fd_get_def)
qed (use assms in \<open>simp add: fd_get_def\<close>)

text \<open>The states the program reaches; the hooks also set the flags and timeouts of a context.\<close>

inductive fdm_reach :: "fd_manager \<Rightarrow> bool" where
  ctor: "fdm_reach fd_manager_ctor"
| get: "fdm_reach s \<Longrightarrow> fd_get fd auto_create st flags s = Inr (r, s') \<Longrightarrow> fdm_reach s'"
| del: "fdm_reach s \<Longrightarrow> fdm_reach (fd_del fd s)"
| user_flag: "fdm_reach s \<Longrightarrow> fdm_reach (s\<lparr>fd_obj := (fd_obj s)(p := (fd_obj s p)\<lparr>m_userNonblock := b\<rparr>)\<rparr>)"
| timeouts: "fdm_reach s \<Longrightarrow> fdm_reach (s\<lparr>fd_obj := (fd_obj s)(p := setTimeout ty v (fd_obj s p))\<rparr>)"

lemma fdm_reach_inv: "fdm_reach s \<Longrightarrow> fdm_inv s"
proof (induction rule: fdm_reach.induct)
  case (get s fd auto_create st flags r s')
  then show ?case by (blast intro: fdm_inv_get)
next
  case (user_flag s p b)
  then show ?case by (simp add: fdm_inv_def)
next
  case (timeouts s p ty v)
  then show ?case by (simp add: fdm_inv_def setTimeout_def)
qed (simp_all add: fdm_inv_ctor fdm_inv_del)

lemma setTimeout_getTimeout:
  "getTimeout ty (setTimeout ty' v c) = (if ty = ty' then v else getTimeout ty c)"
  by (cases ty; cases ty') (simp_all add: setTimeout_def getTimeout_def)

section \<open>Properties\<close>

text \<open>
  \<^verbatim>\<open>get\<close> with \<^verbatim>\<open>auto_create\<close> on any valid descriptor: it never faults, the context it returns is
  the one the next \<^verbatim>\<open>get\<close> returns, it is for this descriptor, and an existing one is kept with its
  timeouts and flags; no other descriptor's context changes; and after \<^verbatim>\<open>del\<close> there is none.
\<close>

theorem fd_get_creates_once:
  assumes "fdm_reach s" "0 \<le> fd"
  shows "\<exists>p s'. fd_get fd True st flags s = Inr (Some p, s') \<and>
    (\<forall>auto st' flags'. fd_get fd auto st' flags' s' = Inr (Some p, s')) \<and>
    lookup_fd s' fd = (case lookup_fd s fd of None \<Rightarrow> Some (fst (fd_ctx_ctor fd st flags)) | Some c \<Rightarrow> Some c) \<and>
    m_fd (fd_obj s' p) = fd \<and> (\<forall>fd'. fd' \<noteq> fd \<longrightarrow> lookup_fd s' fd' = lookup_fd s fd') \<and>
    lookup_fd (fd_del fd s') fd = None \<and> (\<forall>st' flags'. fd_get fd False st' flags' (fd_del fd s') = Inr (None, fd_del fd s'))"
proof -
  note inv = fdm_reach_inv [OF assms(1)]
  have after: "lookup_fd (fd_del fd t) fd = None"
    "fd_get fd False st' flags' (fd_del fd t) = Inr (None, fd_del fd t)" for t st' flags'
    using assms(2) by (auto simp: fd_del_def lookup_fd_def size_le_def fd_get_def get_read_def)
  show ?thesis
  proof (cases "\<not> size_le s fd \<and> m_datas s ! nat fd \<noteq> None")
    case True
    then obtain p where p: "m_datas s ! nat fd = Some p" by auto
    have "nat fd < length (m_datas s)" using True assms(2) by (auto simp: size_le_def)
    with inv p assms(2) have "m_fd (fd_obj s p) = fd" unfolding fdm_inv_def by fastforce
    with True p assms(2) after show ?thesis
      by (intro exI [of _ p] exI [of _ s]) (auto simp: fd_get_def get_read_def lookup_fd_def)
  next
    case False
    then have new: "get_read fd True s = None" using assms(2) by (auto simp: get_read_def)
    show ?thesis
    proof (rule get_create_lookup [OF inv assms(2), of st flags])
      fix s' assume s': "get_create fd st flags s = Inr (next_obj s, s')" "\<not> size_le s' fd"
        "m_datas s' ! nat fd = Some (next_obj s)" "m_fd (fd_obj s' (next_obj s)) = fd"
        "\<And>fd'. lookup_fd s' fd' = (if fd' = fd then Some (fst (fd_ctx_ctor fd st flags)) else lookup_fd s fd')"
      have "lookup_fd s fd = None" using False by (auto simp: lookup_fd_def)
      then show ?thesis using new s' after assms(2)
        by (intro exI [of _ "next_obj s"] exI [of _ s']) (auto simp: fd_get_def get_read_def)
    qed
  qed
qed

theorem fd_get_creates_once_witness:
  "\<exists>p s'. fd_get 100 True (Some True) 2 fd_manager_ctor = Inr (Some p, s') \<and>
     lookup_fd s' 100 = Some (fst (fd_ctx_ctor 100 (Some True) 2))"
proof -
  have "lookup_fd fd_manager_ctor 100 = None" by (simp add: lookup_fd_def size_le_def fd_manager_ctor_def)
  with fd_get_creates_once [OF fdm_reach.ctor, of 100 "Some True" 2] show ?thesis by auto
qed

end
