(* ===== verification/Hook.thy ===== *)
theory Hook
  imports IO_Manager Fd_Manager "HOL-Library.Signed_Division"
begin

text \<open>
  The hooked system calls of \<^verbatim>\<open>src/CoroutineLibrary/hook.cpp\<close>. The original functions (\<^verbatim>\<open>read_f\<close>,
  \<^verbatim>\<open>fcntl_f\<close>, ...) are the kernel's: what they answer is an argument, as a pair of return value
  and \<^verbatim>\<open>errno\<close>, or a list of such pairs when the code calls again. What a hook asks of the I/O
  manager while its fiber waits is the list of its actions; the timeout callback and \<^verbatim>\<open>close\<close> work
  on the state of \<open>IO_Manager\<close> and \<open>Fd_Manager\<close>.
\<close>

section \<open>Which calls are hooked\<close>

text \<open>
  \<^verbatim>\<open>t_hook_enable\<close> is thread-local. \<^verbatim>\<open>hook_init\<close> looks up the originals of \<^verbatim>\<open>HOOK_FUN\<close> once; \<open>dlsym\<close> is the
  dynamic linker's answer.
\<close>

definition t_hook_enable :: "nat \<Rightarrow> bool" where
  "t_hook_enable = (\<lambda>_. False)"

definition is_hook_enable :: "nat \<Rightarrow> (nat \<Rightarrow> bool) \<Rightarrow> bool" where
  "is_hook_enable t flags = flags t"

definition set_hook_enable :: "nat \<Rightarrow> bool \<Rightarrow> (nat \<Rightarrow> bool) \<Rightarrow> nat \<Rightarrow> bool" where
  "set_hook_enable t flag flags = flags(t := flag)"

definition HOOK_FUN :: "string list" where
  "HOOK_FUN = [''sleep'', ''usleep'', ''nanosleep'', ''socket'', ''connect'', ''accept'', ''read'', ''readv'', ''recv'',
     ''recvfrom'', ''recvmsg'', ''write'', ''writev'', ''send'', ''sendto'', ''sendmsg'', ''close'', ''fcntl'', ''ioctl'',
     ''getsockopt'', ''setsockopt'']"

definition hook_init :: "(string \<Rightarrow> nat) \<Rightarrow> bool \<times> (string \<rightharpoonup> nat) \<Rightarrow> bool \<times> (string \<rightharpoonup> nat)" where
  "hook_init dlsym s =
     (case s of (is_inited, orig) \<Rightarrow>
        if is_inited then s else (True, fold (\<lambda>name f. f(name \<mapsto> dlsym name)) HOOK_FUN orig))"

lemma hook_init_all:
  assumes "name \<in> set HOOK_FUN"
  shows "snd (hook_init dlsym (False, Map.empty)) name = Some (dlsym name)"
    and "hook_init dlsym' (hook_init dlsym (False, orig)) = hook_init dlsym (False, orig)"
proof -
  have "fold (\<lambda>name f. f(name \<mapsto> dlsym name)) names f x = (if x \<in> set names then Some (dlsym x) else f x)" for names f x
    by (induction names arbitrary: f) auto
  with assms show "snd (hook_init dlsym (False, Map.empty)) name = Some (dlsym name)" by (simp add: hook_init_def)
qed (simp add: hook_init_def)

section \<open>Reading and writing\<close>

datatype io_fun = IO_accept | IO_read | IO_readv | IO_recv | IO_recvfrom | IO_recvmsg
  | IO_write | IO_writev | IO_send | IO_sendto | IO_sendmsg

fun io_event :: "io_fun \<Rightarrow> u32" where
  "io_event IO_write = WRITE"
| "io_event IO_writev = WRITE"
| "io_event IO_send = WRITE"
| "io_event IO_sendto = WRITE"
| "io_event IO_sendmsg = WRITE"
| "io_event _ = READ"

fun io_timeout_so :: "io_fun \<Rightarrow> timeout_type" where
  "io_timeout_so IO_write = SO_SNDTIMEO"
| "io_timeout_so IO_writev = SO_SNDTIMEO"
| "io_timeout_so IO_send = SO_SNDTIMEO"
| "io_timeout_so IO_sendto = SO_SNDTIMEO"
| "io_timeout_so IO_sendmsg = SO_SNDTIMEO"
| "io_timeout_so _ = SO_RCVTIMEO"

text \<open>Setting up the conditional timer, registering the event, giving up the thread, cancelling the timer.\<close>

datatype io_action = Arm u64 | Register u32 | Suspend | Disarm

text \<open>How a call starts: straight to the kernel, refused, or managed with a timeout.\<close>

datatype io_mode = Direct | Refuse | Managed u64

definition do_io_mode :: "bool \<Rightarrow> fd_ctx option \<Rightarrow> timeout_type \<Rightarrow> io_mode" where
  "do_io_mode hook ctx timeout_so =
     (if \<not> hook then Direct
      else case ctx of
          None \<Rightarrow> Direct
        | Some c \<Rightarrow>
            if m_isClosed c then Refuse
            else if \<not> m_isSocket c \<or> m_userNonblock c then Direct
            else Managed (getTimeout timeout_so c))"

text \<open>The call and its repetition after \<^verbatim>\<open>EINTR\<close>; \<open>None\<close> when the kernel does not answer.\<close>

fun call_fun :: "(int \<times> int) list \<Rightarrow> ((int \<times> int) \<times> (int \<times> int) list) option" where
  "call_fun [] = None"
| "call_fun ((n, e) # as) = (if n = - 1 \<and> e = EINTR then call_fun as else Some ((n, e), as))"

text \<open>
  The loop from \<^verbatim>\<open>retry\<close> on. \<open>as\<close> are the answers of the original function; \<open>ws\<close> the waits: the
  answer of \<^verbatim>\<open>addEvent\<close> with its \<^verbatim>\<open>errno\<close>, and whether the timer had cancelled the wait when the fiber
  went on. \<open>iom\<close> says whether the thread has an I/O manager. \<open>None\<close> is a call that has not returned.
\<close>

fun do_io_loop :: "bool \<Rightarrow> u64 \<Rightarrow> u32 \<Rightarrow> (int \<times> int) list \<Rightarrow> (int \<times> int \<times> bool) list \<Rightarrow>
    ((int \<times> int) \<times> io_action list) result option" where
  "do_io_loop iom timeout event as ws =
     (case call_fun as of
        None \<Rightarrow> None
      | Some ((n, e), as') \<Rightarrow>
          if n = - 1 \<and> e = EAGAIN then
            if \<not> iom then Some (Inl Null_Deref)
            else (case ws of
                [] \<Rightarrow> None
              | (rt, e', timed_out) # ws' \<Rightarrow>
                  let arm = (if timeout \<noteq> - 1 then [Arm timeout] else []);
                      disarm = (if timeout \<noteq> - 1 then [Disarm] else [])
                  in if rt \<noteq> 0 then Some (Inr ((- 1, e'), arm @ [Register event] @ disarm))
                     else if timed_out
                       then Some (Inr ((- 1, ETIMEDOUT), arm @ [Register event, Suspend] @ disarm))
                     else (case do_io_loop iom timeout event as' ws' of
                         None \<Rightarrow> None
                       | Some r \<Rightarrow> Some (result_bind r (\<lambda>(x, tr).
                           Inr (x, arm @ [Register event, Suspend] @ disarm @ tr)))))
          else Some (Inr ((n, e), [])))"

declare do_io_loop.simps [simp del]

definition do_io :: "bool \<Rightarrow> bool \<Rightarrow> fd_ctx option \<Rightarrow> io_fun \<Rightarrow> (int \<times> int) list \<Rightarrow> (int \<times> int \<times> bool) list \<Rightarrow>
    ((int \<times> int) \<times> io_action list) result option" where
  "do_io hook iom ctx f as ws =
     (case do_io_mode hook ctx (io_timeout_so f) of
        Direct \<Rightarrow> (case as of [] \<Rightarrow> None | r # _ \<Rightarrow> Some (Inr (r, [])))
      | Refuse \<Rightarrow> Some (Inr ((- 1, EBADF), []))
      | Managed timeout \<Rightarrow> do_io_loop iom timeout (io_event f) as ws)"

text \<open>\<^verbatim>\<open>accept\<close> and \<^verbatim>\<open>socket\<close> make the context of the new descriptor (not under the hook alone: \<^verbatim>\<open>accept\<close> always does).\<close>

definition hook_accept :: "int \<Rightarrow> bool option \<Rightarrow> u32 \<Rightarrow> fd_manager \<Rightarrow> fd_manager result" where
  "hook_accept fd st flags m =
     (if 0 \<le> fd then result_bind (fd_get fd True st flags m) (\<lambda>(_, m1). Inr m1) else Inr m)"

definition hook_socket :: "bool \<Rightarrow> int \<Rightarrow> bool option \<Rightarrow> u32 \<Rightarrow> fd_manager \<Rightarrow> fd_manager result" where
  "hook_socket hook fd st flags m =
     (if \<not> hook then Inr m
      else if fd = - 1 then Inr m
      else result_bind (fd_get fd True st flags m) (\<lambda>(_, m1). Inr m1))"

text \<open>
  The callback of the conditional timer, run when it expires: \<open>alive\<close> says that the call has not
  returned yet, \<open>cancelled\<close> is the field of \<^verbatim>\<open>timer_info\<close>.
\<close>

definition timeout_cb :: "bool \<Rightarrow> int \<Rightarrow> u32 \<Rightarrow> int \<Rightarrow> int \<times> 'c io_manager \<Rightarrow> (int \<times> 'c io_manager) result" where
  "timeout_cb alive fd event rt s =
     (case s of (cancelled, io) \<Rightarrow>
        if \<not> alive \<or> cancelled \<noteq> 0 then Inr (cancelled, io)
        else result_bind (cancelEvent fd event rt io) (\<lambda>(_, io1). Inr (ETIMEDOUT, io1)))"

section \<open>Connecting\<close>

text \<open>
  \<^verbatim>\<open>connect_with_timeout\<close>: \<open>c\<close> is the answer of \<^verbatim>\<open>connect_f\<close>, \<open>w\<close> the wait as above, \<open>g\<close> the answer of
  \<^verbatim>\<open>getsockopt\<close> with its \<^verbatim>\<open>errno\<close> and the error of the socket.
\<close>

definition connect_with_timeout :: "bool \<Rightarrow> bool \<Rightarrow> fd_ctx option \<Rightarrow> u64 \<Rightarrow> int \<times> int \<Rightarrow> int \<times> bool \<Rightarrow>
    int \<times> int \<times> int \<Rightarrow> ((int \<times> int) \<times> io_action list) result" where
  "connect_with_timeout hook iom ctx timeout_ms c w g =
     (if \<not> hook then Inr (c, [])
      else case ctx of
        None \<Rightarrow> Inr ((- 1, EBADF), [])
      | Some x \<Rightarrow>
          if m_isClosed x then Inr ((- 1, EBADF), [])
          else if \<not> m_isSocket x then Inr (c, [])
          else if m_userNonblock x then Inr (c, [])
          else case c of (n, e) \<Rightarrow>
            if n = 0 then Inr ((0, e), [])
            else if n \<noteq> - 1 \<or> e \<noteq> EINPROGRESS then Inr ((n, e), [])
            else if \<not> iom then Inl Null_Deref
            else case w of (rt, timed_out) \<Rightarrow>
              let arm = (if timeout_ms \<noteq> - 1 then [Arm timeout_ms] else []);
                  disarm = (if timeout_ms \<noteq> - 1 then [Disarm] else []);
                  tr = arm @ [Register WRITE] @ (if rt = 0 then [Suspend] else []) @ disarm
              in if rt = 0 \<and> timed_out then Inr ((- 1, ETIMEDOUT), tr)
                 else case g of (rc, ge, err) \<Rightarrow>
                   if rc = - 1 then Inr ((- 1, ge), tr)
                   else if err = 0 then Inr ((0, e), tr)
                   else Inr ((- 1, err), tr))"

section \<open>Sleeping\<close>

text \<open>
  The milliseconds given to \<^verbatim>\<open>addTimer\<close>: \<^verbatim>\<open>seconds*1000\<close> is computed in \<^verbatim>\<open>unsigned int\<close>; \<^verbatim>\<open>nanosleep\<close>
  puts its \<^verbatim>\<open>long\<close> into an \<^verbatim>\<open>int\<close>, which is then converted to \<^verbatim>\<open>uint64_t\<close>.
\<close>

definition sleep_ms :: "u32 \<Rightarrow> u64" where
  "sleep_ms seconds = ucast (seconds * 1000)"

definition usleep_ms :: "u32 \<Rightarrow> u64" where
  "usleep_ms usec = ucast (usec div 1000)"

definition nanosleep_ms :: "int \<Rightarrow> int \<Rightarrow> u64 result" where
  "nanosleep_ms tv_sec tv_nsec =
     (let ms = tv_sec * 1000 + tv_nsec sdiv 1000 sdiv 1000 in
      if - (2 ^ 63) \<le> tv_sec * 1000 \<and> tv_sec * 1000 < 2 ^ 63 \<and> - (2 ^ 63) \<le> ms \<and> ms < 2 ^ 63
      then Inr (scast (of_int ms :: 32 word))
      else Inl Undefined_Behaviour)"

text \<open>
  The three calls under the hook: a timer whose callback reschedules the fiber (\<open>resched\<close>), then the
  fiber gives up the thread. \<open>None\<close>: the original function is called.
\<close>

definition hook_wait_ms :: "bool \<Rightarrow> int \<Rightarrow> u64 \<Rightarrow> 'c \<Rightarrow> 'c timer_manager \<Rightarrow> (nat \<times> bool \<times> 'c timer_manager) option" where
  "hook_wait_ms hook now ms resched t =
     (if \<not> hook then None else Some (addTimer now ms (Some (Call resched)) False t))"

definition hook_sleep :: "bool \<Rightarrow> int \<Rightarrow> u32 \<Rightarrow> 'c \<Rightarrow> 'c timer_manager \<Rightarrow> (nat \<times> bool \<times> 'c timer_manager) option" where
  "hook_sleep hook now seconds resched t = hook_wait_ms hook now (sleep_ms seconds) resched t"

definition hook_usleep :: "bool \<Rightarrow> int \<Rightarrow> u32 \<Rightarrow> 'c \<Rightarrow> 'c timer_manager \<Rightarrow> (nat \<times> bool \<times> 'c timer_manager) option" where
  "hook_usleep hook now usec resched t = hook_wait_ms hook now (usleep_ms usec) resched t"

definition hook_nanosleep :: "bool \<Rightarrow> int \<Rightarrow> int \<Rightarrow> int \<Rightarrow> 'c \<Rightarrow> 'c timer_manager \<Rightarrow>
    (nat \<times> bool \<times> 'c timer_manager) option result" where
  "hook_nanosleep hook now tv_sec tv_nsec resched t =
     (if \<not> hook then Inr None
      else result_bind (nanosleep_ms tv_sec tv_nsec) (\<lambda>ms. Inr (hook_wait_ms hook now ms resched t)))"

section \<open>Descriptor flags and options\<close>

datatype fcntl_cmd = F_SETFL | F_GETFL
  | F_DUPFD | F_DUPFD_CLOEXEC | F_SETFD | F_SETOWN | F_SETSIG | F_SETLEASE | F_NOTIFY | F_SETPIPE_SZ
  | F_GETFD | F_GETOWN | F_GETSIG | F_GETLEASE | F_GETPIPE_SZ
  | F_SETLK | F_SETLKW | F_GETLK | F_GETOWN_EX | F_SETOWN_EX | F_other int

text \<open>The third argument as the caller gave it and as \<^verbatim>\<open>fcntl_f\<close> gets it.\<close>

datatype fcntl_arg = No_Arg | Int_Arg u32 | Ptr_Arg nat

definition managed_socket :: "fd_ctx option \<Rightarrow> bool" where
  "managed_socket ctx \<longleftrightarrow> (case ctx of None \<Rightarrow> False | Some c \<Rightarrow> \<not> m_isClosed c \<and> m_isSocket c)"

definition fcntl_setfl :: "u32 \<Rightarrow> fd_ctx option \<Rightarrow> u32 \<times> fd_ctx option" where
  "fcntl_setfl arg ctx =
     (if \<not> managed_socket ctx then (arg, ctx)
      else let c = (the ctx)\<lparr>m_userNonblock := (arg AND O_NONBLOCK \<noteq> 0)\<rparr> in
        (if m_sysNonblock c then arg OR O_NONBLOCK else arg AND NOT O_NONBLOCK, Some c))"

definition fcntl_getfl :: "u32 \<Rightarrow> fd_ctx option \<Rightarrow> u32" where
  "fcntl_getfl arg ctx =
     (if \<not> managed_socket ctx then arg
      else if m_userNonblock (the ctx) then arg OR O_NONBLOCK else arg AND NOT O_NONBLOCK)"

text \<open>
  \<^verbatim>\<open>fcntl\<close>: the argument that reaches the kernel, the context after the call, and the return value
  made from the kernel's answer \<open>k\<close>. Reading an argument of another type than the caller passed is
  left to the caller (\<open>int_arg\<close>, \<open>ptr_arg\<close> are what \<^verbatim>\<open>va_arg\<close> yields).
\<close>

definition hook_fcntl :: "fcntl_cmd \<Rightarrow> u32 \<Rightarrow> nat \<Rightarrow> fd_ctx option \<Rightarrow> u32 \<Rightarrow> fcntl_arg \<times> fd_ctx option \<times> u32" where
  "hook_fcntl cmd int_arg ptr_arg ctx k =
     (case cmd of
        F_SETFL \<Rightarrow> (let (arg, ctx') = fcntl_setfl int_arg ctx in (Int_Arg arg, ctx', k))
      | F_GETFL \<Rightarrow> (No_Arg, ctx, fcntl_getfl k ctx)
      | F_DUPFD \<Rightarrow> (Int_Arg int_arg, ctx, k)
      | F_DUPFD_CLOEXEC \<Rightarrow> (Int_Arg int_arg, ctx, k)
      | F_SETFD \<Rightarrow> (Int_Arg int_arg, ctx, k)
      | F_SETOWN \<Rightarrow> (Int_Arg int_arg, ctx, k)
      | F_SETSIG \<Rightarrow> (Int_Arg int_arg, ctx, k)
      | F_SETLEASE \<Rightarrow> (Int_Arg int_arg, ctx, k)
      | F_NOTIFY \<Rightarrow> (Int_Arg int_arg, ctx, k)
      | F_SETPIPE_SZ \<Rightarrow> (Int_Arg int_arg, ctx, k)
      | F_GETFD \<Rightarrow> (No_Arg, ctx, k)
      | F_GETOWN \<Rightarrow> (No_Arg, ctx, k)
      | F_GETSIG \<Rightarrow> (No_Arg, ctx, k)
      | F_GETLEASE \<Rightarrow> (No_Arg, ctx, k)
      | F_GETPIPE_SZ \<Rightarrow> (No_Arg, ctx, k)
      | F_SETLK \<Rightarrow> (Ptr_Arg ptr_arg, ctx, k)
      | F_SETLKW \<Rightarrow> (Ptr_Arg ptr_arg, ctx, k)
      | F_GETLK \<Rightarrow> (Ptr_Arg ptr_arg, ctx, k)
      | F_GETOWN_EX \<Rightarrow> (Ptr_Arg ptr_arg, ctx, k)
      | F_SETOWN_EX \<Rightarrow> (Ptr_Arg ptr_arg, ctx, k)
      | F_other _ \<Rightarrow> (No_Arg, ctx, k))"

text \<open>\<^verbatim>\<open>ioctl\<close>: with \<^verbatim>\<open>FIONBIO\<close> the user's wish is noted; the request goes on to the kernel unchanged.\<close>

definition hook_ioctl :: "bool \<Rightarrow> u32 \<Rightarrow> fd_ctx option \<Rightarrow> fd_ctx option" where
  "hook_ioctl is_FIONBIO value ctx =
     (if is_FIONBIO then
        if \<not> managed_socket ctx then ctx
        else Some ((the ctx)\<lparr>m_userNonblock := (value \<noteq> 0)\<rparr>)
      else ctx)"

text \<open>\<^verbatim>\<open>v->tv_sec * 1000 + v->tv_usec / 1000\<close> in \<^verbatim>\<open>long\<close>, converted to \<^verbatim>\<open>uint64_t\<close>.\<close>

definition timeval_ms :: "int \<Rightarrow> int \<Rightarrow> u64" where
  "timeval_ms tv_sec tv_usec = of_int (tv_sec * 1000 + tv_usec sdiv 1000)"

definition hook_setsockopt :: "bool \<Rightarrow> bool \<Rightarrow> timeout_type option \<Rightarrow> int \<Rightarrow> int \<Rightarrow> fd_ctx option \<Rightarrow> fd_ctx option" where
  "hook_setsockopt hook sol_socket optname tv_sec tv_usec ctx =
     (if \<not> hook then ctx
      else if sol_socket then
        (case optname of
           None \<Rightarrow> ctx
         | Some ty \<Rightarrow> map_option (setTimeout ty (timeval_ms tv_sec tv_usec)) ctx)
      else ctx)"

section \<open>Closing\<close>

text \<open>
  \<^verbatim>\<open>close\<close> before the original function: the waiters of the descriptor are woken (when the thread
  has an I/O manager) and its context is forgotten. \<open>rt\<close> is the answer of \<^verbatim>\<open>epoll_ctl\<close>.
\<close>

definition hook_close :: "bool \<Rightarrow> bool \<Rightarrow> int \<Rightarrow> int \<Rightarrow> 'c io_manager \<times> fd_manager \<Rightarrow>
    ('c io_manager \<times> fd_manager) result" where
  "hook_close hook iom fd rt s =
     (case s of (io, m) \<Rightarrow>
        if \<not> hook then Inr (io, m)
        else if (case get_read fd False m of Some (Some p) \<Rightarrow> True | _ \<Rightarrow> False) then
          result_bind (if iom then result_bind (cancelAll fd rt io) (\<lambda>(_, io1). Inr io1) else Inr io)
            (\<lambda>io1. Inr (io1, fd_del fd m))
        else Inr (io, m))"

section \<open>Waiting in a call\<close>

text \<open>What one wait asks of the I/O manager, and the answers that make \<^verbatim>\<open>do_io\<close> call again.\<close>

definition wait_trace :: "u64 \<Rightarrow> u32 \<Rightarrow> io_action list" where
  "wait_trace timeout event = (if timeout \<noteq> - 1 then [Arm timeout] else []) @ [Register event, Suspend] @
     (if timeout \<noteq> - 1 then [Disarm] else [])"

definition eintr :: "int \<times> int \<Rightarrow> bool" where
  "eintr r \<longleftrightarrow> r = (- 1, EINTR)"

definition eagain :: "int \<times> int \<Rightarrow> bool" where
  "eagain r \<longleftrightarrow> r = (- 1, EAGAIN)"

lemma call_fun_Some:
  "call_fun as = Some (r, as') \<longleftrightarrow> (\<exists>k. as = replicate k (- 1, EINTR) @ r # as' \<and> \<not> eintr r)"
proof (induction as rule: call_fun.induct)
  case 1
  then show ?case by simp
next
  case (2 n e as)
  show ?case
  proof (cases "n = - 1 \<and> e = EINTR")
    case True
    have "(\<exists>k. (n, e) # as = replicate k (- 1, EINTR) @ r # as' \<and> \<not> eintr r) \<longleftrightarrow>
        (\<exists>k. (n, e) # as = replicate (Suc k) (- 1, EINTR) @ r # as' \<and> \<not> eintr r)"
      using True by (metis append_Nil eintr_def list.inject not0_implies_Suc replicate_0)
    with 2 True show ?thesis by simp
  next
    case False
    have "k = 0" if "(n, e) # as = replicate k (- 1, EINTR) @ r # as'" for k
      using that False by (cases k) auto
    with False show ?thesis by (auto simp: eintr_def intro!: exI [of _ 0])
  qed
qed

lemma call_fun_eintr [simp]: "eintr r \<Longrightarrow> call_fun (r # as) = call_fun as"
  by (simp add: eintr_def)

lemma call_fun_final [simp]: "\<not> eintr r \<Longrightarrow> call_fun (r # as) = Some (r, as)"
  by (cases r) (auto simp: eintr_def)

definition failed_trace :: "u64 \<Rightarrow> u32 \<Rightarrow> io_action list" where
  "failed_trace timeout event = (if timeout \<noteq> - 1 then [Arm timeout] else []) @ [Register event] @
     (if timeout \<noteq> - 1 then [Disarm] else [])"

text \<open>One round of the loop.\<close>

lemma do_io_loop_round:
  "do_io_loop True timeout event as ws =
     (case call_fun as of
        None \<Rightarrow> None
      | Some (r, as') \<Rightarrow>
          if \<not> eagain r then Some (Inr (r, []))
          else (case ws of
              [] \<Rightarrow> None
            | (rt, e, timed_out) # ws' \<Rightarrow>
                if rt \<noteq> 0 then Some (Inr ((- 1, e), failed_trace timeout event))
                else if timed_out then Some (Inr ((- 1, ETIMEDOUT), wait_trace timeout event))
                else map_option (\<lambda>x. result_bind x (\<lambda>(y, tr). Inr (y, wait_trace timeout event @ tr)))
                  (do_io_loop True timeout event as' ws')))"
  by (subst do_io_loop.simps)
    (auto simp: eagain_def wait_trace_def failed_trace_def Let_def split: option.splits list.splits)

lemma do_io_loop_eintr: "eintr r \<Longrightarrow> do_io_loop True timeout event (r # as) ws = do_io_loop True timeout event as ws"
  by (subst (1 2) do_io_loop_round) simp

lemma do_io_loop_final:
  "\<not> eintr r \<Longrightarrow> \<not> eagain r \<Longrightarrow> do_io_loop True timeout event (r # as) ws = Some (Inr (r, []))"
  by (subst do_io_loop_round) simp

lemma eagain_not_eintr: "eagain r \<Longrightarrow> \<not> eintr r"
  by (simp add: eagain_def eintr_def errno_defs)

lemma do_io_loop_wait:
  "eagain r \<Longrightarrow> do_io_loop True timeout event (r # as) ((0, e, False) # ws) =
     map_option (\<lambda>x. result_bind x (\<lambda>(y, tr). Inr (y, wait_trace timeout event @ tr))) (do_io_loop True timeout event as ws)"
  by (subst do_io_loop_round) (simp add: eagain_not_eintr)

lemma do_io_loop_retries:
  assumes "\<forall>r \<in> set pre. eintr r \<or> eagain r" "\<not> eintr fin" "\<not> eagain fin"
    and "length (filter eagain pre) \<le> length ws" "\<forall>w \<in> set ws. \<exists>e. w = (0, e, False)"
  shows "do_io_loop True timeout event (pre @ fin # rest) ws =
    Some (Inr (fin, concat (replicate (length (filter eagain pre)) (wait_trace timeout event))))"
  using assms
proof (induction pre arbitrary: ws)
  case Nil
  then show ?case by (simp add: do_io_loop_final)
next
  case (Cons r pre)
  show ?case
  proof (cases "eagain r")
    case False
    with Cons show ?thesis by (simp add: do_io_loop_eintr)
  next
    case True
    with Cons.prems obtain e ws' where ws: "ws = (0, e, False) # ws'" by (cases ws) auto
    with Cons.IH [of ws'] Cons.prems True show ?thesis by (simp add: do_io_loop_wait)
  qed
qed

text \<open>The traces of a call that returns: full waits, and at the end perhaps a failed registration.\<close>

inductive io_trace :: "u64 \<Rightarrow> u32 \<Rightarrow> io_action list \<Rightarrow> bool" for timeout event where
  none: "io_trace timeout event []"
| failed: "io_trace timeout event (failed_trace timeout event)"
| wait: "io_trace timeout event tr \<Longrightarrow> io_trace timeout event (wait_trace timeout event @ tr)"

definition timers_armed :: "io_action list \<Rightarrow> int" where
  "timers_armed tr = (\<Sum>a \<leftarrow> tr. case a of Arm _ \<Rightarrow> 1 | Disarm \<Rightarrow> - 1 | _ \<Rightarrow> 0)"

lemma timers_armed_simps [simp]:
  "timers_armed [] = 0" "timers_armed (a # tr) = (case a of Arm _ \<Rightarrow> 1 | Disarm \<Rightarrow> - 1 | _ \<Rightarrow> 0) + timers_armed tr"
  "timers_armed (tr @ tr') = timers_armed tr + timers_armed tr'"
  by (simp_all add: timers_armed_def)

lemma io_trace_balanced: "io_trace timeout event tr \<Longrightarrow> timers_armed tr = 0"
  by (induction rule: io_trace.induct) (auto simp: wait_trace_def failed_trace_def)

text \<open>What a managed call can return, and why.\<close>

definition io_answer_ok :: "(int \<times> int) list \<Rightarrow> (int \<times> int \<times> bool) list \<Rightarrow> int \<times> int \<Rightarrow> bool" where
  "io_answer_ok as ws r \<longleftrightarrow>
     r \<in> set as \<and> \<not> eintr r \<and> \<not> eagain r \<or>
     (\<exists>rt b. (rt, snd r, b) \<in> set ws \<and> rt \<noteq> 0 \<and> fst r = - 1) \<or>
     (\<exists>e. (0, e, True) \<in> set ws \<and> r = (- 1, ETIMEDOUT))"

lemma io_answer_ok_intros:
  "r \<in> set as \<Longrightarrow> \<not> eintr r \<Longrightarrow> \<not> eagain r \<Longrightarrow> io_answer_ok as ws r"
  "(rt, e, b) \<in> set ws \<Longrightarrow> rt \<noteq> 0 \<Longrightarrow> io_answer_ok as ws (- 1, e)"
  "(0, e, True) \<in> set ws \<Longrightarrow> io_answer_ok as ws (- 1, ETIMEDOUT)"
  by (auto simp: io_answer_ok_def)

lemma do_io_loop_outcome:
  "do_io_loop True timeout event as ws = Some res \<Longrightarrow>
   \<exists>r tr. res = Inr (r, tr) \<and> io_trace timeout event tr \<and> io_answer_ok as ws r"
proof (induction ws arbitrary: as res)
  case Nil
  then obtain r as' where c: "call_fun as = Some (r, as')" "\<not> eagain r" "res = Inr (r, [])"
    by (subst (asm) do_io_loop_round) (auto split: option.splits if_splits)
  then have "r \<in> set as" "\<not> eintr r" by (auto simp: call_fun_Some)
  with c show ?case by (auto simp: io_answer_ok_def intro: io_trace.none)
next
  case (Cons w ws)
  obtain rt e b where w: "w = (rt, e, b)" by (cases w) auto
  from Cons.prems obtain r as' where c: "call_fun as = Some (r, as')"
    by (subst (asm) do_io_loop_round) (auto split: option.splits)
  then have r: "r \<in> set as" "\<not> eintr r" "set as' \<subseteq> set as" by (auto simp: call_fun_Some)
  note step = Cons.prems [unfolded w do_io_loop_round [of timeout event as "(rt, e, b) # ws"] c, simplified]
  consider "\<not> eagain r" | "eagain r" "rt \<noteq> 0" | "eagain r" "rt = 0" "b" | "eagain r" "rt = 0" "\<not> b" by blast
  then show ?case
  proof cases
    case 1
    with step r show ?thesis by (intro exI [of _ r] exI [of _ "[]"]) (simp add: io_answer_ok_def io_trace.none)
  next
    case 2
    with w have "io_answer_ok as (w # ws) (- 1, e)" by (intro io_answer_ok_intros(2) [of rt e b]) simp_all
    with 2 step show ?thesis using io_trace.failed [of timeout event] by auto
  next
    case 3
    with step have "res = Inr ((- 1, ETIMEDOUT), wait_trace timeout event @ [])" by simp
    moreover have "io_trace timeout event (wait_trace timeout event @ [])" by (intro io_trace.intros)
    moreover have "io_answer_ok as (w # ws) (- 1, ETIMEDOUT)" using 3 w by (intro io_answer_ok_intros(3) [of e]) simp
    ultimately show ?thesis by blast
  next
    case 4
    with step obtain x where x: "do_io_loop True timeout event as' ws = Some x"
      and res: "res = result_bind x (\<lambda>(y, tr). Inr (y, wait_trace timeout event @ tr))" by auto
    from Cons.IH [OF x] obtain r' tr where IH: "x = Inr (r', tr)" "io_trace timeout event tr" "io_answer_ok as' ws r'"
      by blast
    have "io_answer_ok as (w # ws) r'" using IH(3) r(3) by (auto simp: io_answer_ok_def)
    with IH res show ?thesis by (auto intro: io_trace.wait)
  qed
qed

section \<open>Closing, flags, sleeping\<close>

lemma lookup_fd_some:
  "lookup_fd m fd = Some c \<Longrightarrow> \<exists>p. get_read fd b m = Some (Some p) \<and> fd_obj m p = c"
  by (auto simp: lookup_fd_def get_read_def size_le_def split: if_splits)

lemma lookup_fd_del: "lookup_fd (fd_del fd m) fd' = (if fd' = fd then None else lookup_fd m fd')"
  by (cases "size_le m fd") (auto simp: lookup_fd_def fd_del_def size_le_def nth_list_update nat_eq_iff)

lemma flags_split: "((f :: u32) AND NOT O_NONBLOCK) OR (f AND O_NONBLOCK) = f"
  by (rule bit_word_eqI) (auto simp: bit_simps)

lemma flags_nonblock:
  "(f :: u32) OR O_NONBLOCK = (f AND NOT O_NONBLOCK) OR O_NONBLOCK"
  "((f OR O_NONBLOCK) AND O_NONBLOCK) = O_NONBLOCK" "((f AND NOT O_NONBLOCK) AND O_NONBLOCK) = 0"
  "(f OR O_NONBLOCK) AND NOT O_NONBLOCK = f AND NOT O_NONBLOCK"
  "(f AND NOT O_NONBLOCK) AND NOT O_NONBLOCK = f AND NOT O_NONBLOCK"
  "((f AND NOT O_NONBLOCK) OR O_NONBLOCK) = f OR O_NONBLOCK"
  by (rule bit_word_eqI; auto simp: bit_simps)+

lemma bit_O_NONBLOCK: "bit O_NONBLOCK n \<longleftrightarrow> n = 11"
proof -
  have "bit (2 ^ 11 :: u32) n \<longleftrightarrow> n = 11" using bit_exp_iff [where 'a = "32 word", of 11 n] by auto
  then show ?thesis by (simp add: O_NONBLOCK_def)
qed

lemma nonblock_set: "(f :: u32) AND O_NONBLOCK = (if f AND O_NONBLOCK \<noteq> 0 then O_NONBLOCK else 0)"
proof -
  have "f AND O_NONBLOCK = (if bit f 11 then O_NONBLOCK else 0)"
    by (rule bit_word_eqI) (auto simp: bit_and_iff bit_O_NONBLOCK)
  then show ?thesis by (auto simp: O_NONBLOCK_def)
qed

section \<open>Properties\<close>

text \<open>
  C4. A call on a managed, blocking socket blocks its fiber and not its thread: as long as the
  kernel answers \<^verbatim>\<open>EINTR\<close> or \<^verbatim>\<open>EAGAIN\<close> the call goes on, for every \<^verbatim>\<open>EAGAIN\<close> it registers for the
  event of the function and gives up the thread once, with the timer of the descriptor's timeout (if
  it has one) set before and cancelled after each wait, and it returns the kernel's first other answer.
\<close>

theorem do_io_waits_until_ready:
  assumes "m_isSocket c" "\<not> m_isClosed c" "\<not> m_userNonblock c"
    and "\<forall>r \<in> set pre. eintr r \<or> eagain r" "\<not> eintr fin \<and> \<not> eagain fin"
    and "length (filter eagain pre) \<le> length ws" "\<forall>w \<in> set ws. \<exists>e. w = (0, e, False)"
  shows "do_io True True (Some c) f (pre @ fin # rest) ws =
    Some (Inr (fin, concat (replicate (length (filter eagain pre)) (wait_trace (getTimeout (io_timeout_so f) c) (io_event f)))))"
  using do_io_loop_retries [OF assms(4) _ _ assms(6,7), of fin] assms(1-3,5)
  by (simp add: do_io_def do_io_mode_def)

definition demo_ctx :: fd_ctx where
  "demo_ctx = setTimeout SO_RCVTIMEO 1500 (fst (fd_ctx_ctor 5 (Some True) 2))"

theorem do_io_waits_until_ready_witness:
  "do_io True True (Some demo_ctx) IO_recv [(- 1, EINTR), (- 1, EAGAIN), (- 1, EAGAIN), (42, 0)] [(0, 0, False), (0, 0, False)] =
     Some (Inr ((42, 0), [Arm 1500, Register READ, Suspend, Disarm, Arm 1500, Register READ, Suspend, Disarm]))"
proof -
  have c: "m_isSocket demo_ctx" "\<not> m_isClosed demo_ctx" "\<not> m_userNonblock demo_ctx"
    by (simp_all add: demo_ctx_def setTimeout_def)
  have t: "getTimeout SO_RCVTIMEO demo_ctx = 1500" by (simp add: demo_ctx_def setTimeout_getTimeout)
  from do_io_waits_until_ready [OF c, of "[(- 1, EINTR), (- 1, EAGAIN), (- 1, EAGAIN)]" "(42, 0)"
      "[(0, 0, False), (0, 0, False)]" IO_recv "[]"] t
  show ?thesis by (simp add: eintr_def eagain_def errno_defs wait_trace_def)
qed

text \<open>
  C18. Every way a managed call can return: it never faults; it gives the kernel's answer, which is
  neither \<^verbatim>\<open>EINTR\<close> nor \<^verbatim>\<open>EAGAIN\<close>, or \<^verbatim>\<open>-1\<close> with the error of a failed registration, or \<^verbatim>\<open>-1\<close> with
  \<^verbatim>\<open>ETIMEDOUT\<close> after a wait that the timer ended; on every one of these paths each timer it set has
  been cancelled again. A closed descriptor is refused with \<^verbatim>\<open>EBADF\<close> before the kernel is asked.
\<close>

theorem do_io_outcomes:
  assumes "m_isSocket c" "\<not> m_userNonblock c" "do_io True True (Some c) f as ws = Some res"
  shows "if m_isClosed c then res = Inr ((- 1, EBADF), [])
    else \<exists>r tr. res = Inr (r, tr) \<and> io_trace (getTimeout (io_timeout_so f) c) (io_event f) tr \<and>
      timers_armed tr = 0 \<and> io_answer_ok as ws r"
proof (cases "m_isClosed c")
  case False
  with assms have "do_io_loop True (getTimeout (io_timeout_so f) c) (io_event f) as ws = Some res"
    by (simp add: do_io_def do_io_mode_def)
  from do_io_loop_outcome [OF this] False show ?thesis using io_trace_balanced by auto
qed (use assms in \<open>simp add: do_io_def do_io_mode_def\<close>)

theorem do_io_outcomes_witness:
  "\<exists>tr. do_io True True (Some demo_ctx) IO_recv [(- 1, EAGAIN)] [(0, 0, True)] = Some (Inr ((- 1, ETIMEDOUT), tr)) \<and>
     timers_armed tr = 0"
proof -
  have c: "m_isSocket demo_ctx" "\<not> m_userNonblock demo_ctx" "\<not> m_isClosed demo_ctx"
    by (simp_all add: demo_ctx_def setTimeout_def)
  have "\<exists>tr. do_io True True (Some demo_ctx) IO_recv [(- 1, EAGAIN)] [(0, 0, True)] = Some (Inr ((- 1, ETIMEDOUT), tr))"
    using c by (simp add: do_io_def do_io_mode_def do_io_loop_round errno_defs eagain_def)
  then obtain tr where tr: "do_io True True (Some demo_ctx) IO_recv [(- 1, EAGAIN)] [(0, 0, True)] =
      Some (Inr ((- 1, ETIMEDOUT), tr))" by blast
  from do_io_outcomes [OF c(1,2) tr] c(3) tr show ?thesis by auto
qed

text \<open>
  C16. A waiting fiber is woken once, whichever of readiness and timeout comes first. If the timer
  fires first, its callback hands over exactly the waiter of this event, marks the wait as timed out,
  takes the event out, and does nothing when it runs again; if the descriptor was ready first, the
  callback hands nobody over; after the call has returned it does nothing at all.
\<close>

theorem timeout_or_ready_wakes_once:
  assumes "io_reach s" "ctx_at fd s = Inr p" "event = READ \<or> event = WRITE" "events (fdctx s p) AND event \<noteq> 0"
  shows "(\<exists>s1. timeout_cb True fd event 0 (0, s) = Inr (ETIMEDOUT, s1) \<and>
      schedulers s1 = hand_over (waiting event (fdctx s p)) (schedulers s) \<and>
      events (fdctx s1 p) AND event = 0 \<and>
      (\<forall>alive rt. timeout_cb alive fd event rt (ETIMEDOUT, s1) = Inr (ETIMEDOUT, s1))) \<and>
    (\<forall>ev s2 rt. idle_event p ev 0 s = Inr s2 \<longrightarrow> real_events (events (fdctx s p)) ev AND event \<noteq> 0 \<longrightarrow>
      timeout_cb True fd event rt (0, s2) = Inr (ETIMEDOUT, s2)) \<and>
    (\<forall>rt s'. timeout_cb False fd event rt (0, s') = Inr (0, s'))"
proof (intro conjI allI impI)
  have inv: "io_inv s" using io_reach_inv [OF assms(1)] by blast
  have p: "p < next_ctx s" "fd = int p" using ctx_at_inv [OF inv] assms(2) by blast+
  note ok = io_inv_D(5) [OF inv p(1)]
  have off: "(events (fdctx s p) AND NOT event) AND event = 0"
    using ok assms(3) by (elim ctx_okE disjE) (simp_all add: event_defs)
  obtain s1 where s1: "cancelEvent fd event 0 s = Inr (True, s1)"
    "schedulers s1 = hand_over (waiting event (fdctx s p)) (schedulers s)"
    "events (fdctx s1 p) = events (fdctx s p) AND NOT event"
    using cancelEvent_cases(2) [OF assms(1-3), of 0] assms(4) by auto
  then show "\<exists>s1. timeout_cb True fd event 0 (0, s) = Inr (ETIMEDOUT, s1) \<and>
      schedulers s1 = hand_over (waiting event (fdctx s p)) (schedulers s) \<and>
      events (fdctx s1 p) AND event = 0 \<and>
      (\<forall>alive rt. timeout_cb alive fd event rt (ETIMEDOUT, s1) = Inr (ETIMEDOUT, s1))"
    using off by (simp add: timeout_cb_def ETIMEDOUT_def)
  fix ev s2 rt assume e: "idle_event p ev 0 s = Inr s2" "real_events (events (fdctx s p)) ev AND event \<noteq> 0"
  have mem: "p \<in> set (m_fdContexts s)" using io_inv_D(1) [OF inv] p by simp
  have reach2: "io_reach s2" by (rule io_reach.step [OF assms(1) io_step.ready [OF mem e(1)]])
  define r where "r = real_events (events (fdctx s p)) ev"
  have "r AND events (fdctx s p) AND event \<noteq> 0"
    using real_events_values [of "events (fdctx s p)" ev, folded r_def] e(2) [folded r_def] assms(3,4) ok
    by (elim ctx_okE disjE) (simp_all add: event_defs)
  then have "events (fdctx s p) AND r \<noteq> 0" by (metis and.commute and.left_commute and_zero_eq)
  with e(1) have s2: "s2 = fired p r (epoll_ctl (remove_op (events (fdctx s p) AND NOT r)) (ctx_fd (fdctx s p))
      (EPOLLET OR (events (fdctx s p) AND NOT r)) 0 s)"
    unfolding idle_event_result [OF ok] r_def Let_def by (auto split: if_splits)
  have "ctx_at fd s2 = Inr p" using assms(2) by (simp add: s2 ctx_at_def split: if_splits)
  moreover have "events (fdctx s2 p) AND event = 0"
    using real_events_values [of "events (fdctx s p)" ev, folded r_def] e(2) [folded r_def] assms(3,4) ok
    by (elim ctx_okE disjE) (simp_all add: s2 event_defs)
  ultimately have "cancelEvent fd event rt s2 = Inr (False, s2)"
    using cancelEvent_cases(1) [OF reach2 _ assms(3)] by blast
  then show "timeout_cb True fd event rt (0, s2) = Inr (ETIMEDOUT, s2)" by (simp add: timeout_cb_def)
qed (simp add: timeout_cb_def)

theorem timeout_or_ready_wakes_once_witness:
  "\<exists>s1. timeout_cb True 5 READ 0 (0, demo_wait) = Inr (ETIMEDOUT, s1) \<and>
     schedulers s1 = hand_over \<lparr>ev_scheduler = Some 0, ev_fiber = Some 9, ev_cb = None\<rparr> (schedulers demo_wait)"
proof -
  have "ctx_at 5 demo_wait = Inr 5" by (simp add: ctx_at_def demo_wait_state(2))
  moreover have "events (fdctx demo_wait 5) AND READ \<noteq> 0" by (simp add: demo_wait_state(3) event_defs)
  moreover have "waiting READ (fdctx demo_wait 5) = \<lparr>ev_scheduler = Some 0, ev_fiber = Some 9, ev_cb = None\<rparr>"
    by (simp add: demo_wait_state(4))
  moreover have "READ = READ \<or> READ = WRITE" by simp
  ultimately show ?thesis using timeout_or_ready_wakes_once [OF demo_wait_reach, of 5 5 READ] by auto
qed

text \<open>
  C17. \<^verbatim>\<open>close\<close> of a managed descriptor wakes everyone who waits for it, each once, takes it out of
  epoll, and forgets its context, without touching any other descriptor.
\<close>

theorem hook_close_wakes_all:
  assumes "io_reach io" "lookup_fd m fd \<noteq> None" "ctx_at fd io = Inr p"
  shows "\<exists>io' m'. hook_close True True fd 0 (io, m) = Inr (io', m') \<and> io_reach io' \<and>
    schedulers io' = hand_all (events (fdctx io p)) (fdctx io p) (schedulers io) \<and>
    events (fdctx io' p) = 0 \<and> read_ctx (fdctx io' p) = no_event \<and> write_ctx (fdctx io' p) = no_event \<and>
    interest io' fd = None \<and> (\<forall>q. q \<noteq> p \<longrightarrow> fdctx io' q = fdctx io q) \<and>
    (\<forall>fd'. lookup_fd m' fd' = (if fd' = fd then None else lookup_fd m fd'))"
proof -
  have inv: "io_inv io" using io_reach_inv [OF assms(1)] by blast
  have p: "p < next_ctx io" "fd = int p" using ctx_at_inv [OF inv] assms(3) by blast+
  note ok = io_inv_D(5) [OF inv p(1)]
  have rng: "ctx_in_range fd io" using p io_inv_D(1) [OF inv] by (simp add: ctx_in_range_def)
  define e where "e = events (fdctx io p)"
  define io' where "io' = (if e = 0 then io else fired p e (epoll_ctl EPOLL_CTL_DEL fd 0 0 io))"
  have c: "cancelAll fd 0 io = Inr (e \<noteq> 0, io')"
    using rng assms(3) by (simp add: cancelAll_def cancelAll_at_result [OF ok] Let_def io'_def flip: e_def)
  obtain q where "get_read fd False m = Some (Some q)" using assms(2) lookup_fd_some by blast
  with c have "hook_close True True fd 0 (io, m) = Inr (io', fd_del fd m)" by (simp add: hook_close_def)
  moreover have reach: "io_reach io'" by (rule io_reach.step [OF assms(1) io_step.cancel_all [OF c]])
  moreover have "schedulers io' = hand_all e (fdctx io p) (schedulers io)"
    by (simp add: io'_def fired_def hand_all_def)
  moreover have off: "events (fdctx io' p) = 0"
    using ok by (elim ctx_okE) (simp_all add: io'_def e_def)
  moreover have "interest io' fd = None"
    using io_inv_D(6) [of io' p] io_reach_inv [OF reach] off p by (simp add: io'_def split: if_splits)
  moreover have "read_ctx (fdctx io' p) = no_event \<and> write_ctx (fdctx io' p) = no_event"
    using io_inv_D(5) [of io' p] io_reach_inv [OF reach] off p by (simp add: io'_def ctx_ok_def split: if_splits)
  moreover have "\<forall>q. q \<noteq> p \<longrightarrow> fdctx io' q = fdctx io q" by (simp add: io'_def)
  ultimately show ?thesis
    unfolding e_def [symmetric] by (intro exI [of _ io'] exI [of _ "fd_del fd m"]) (simp add: lookup_fd_del)
qed

definition demo_fds :: fd_manager where
  "demo_fds = (case get_create 5 (Some True) 2 fd_manager_ctor of Inr (p, m) \<Rightarrow> m)"

lemma demo_fds_lookup: "lookup_fd demo_fds 5 = Some (fst (fd_ctx_ctor 5 (Some True) 2))"
  by (simp add: demo_fds_def get_create_def Let_def size_le_def fd_manager_ctor_def lookup_fd_def)

theorem hook_close_wakes_all_witness:
  "\<exists>io' m'. hook_close True True 5 0 (demo_wait, demo_fds) = Inr (io', m') \<and>
     schedulers io' = hand_over \<lparr>ev_scheduler = Some 0, ev_fiber = Some 9, ev_cb = None\<rparr> (schedulers demo_wait)"
proof -
  have "ctx_at 5 demo_wait = Inr 5" by (simp add: ctx_at_def demo_wait_state(2))
  moreover have "lookup_fd demo_fds 5 \<noteq> None" by (simp add: demo_fds_lookup)
  moreover have "hand_all (events (fdctx demo_wait 5)) (fdctx demo_wait 5) (schedulers demo_wait) =
      hand_over \<lparr>ev_scheduler = Some 0, ev_fiber = Some 9, ev_cb = None\<rparr> (schedulers demo_wait)"
    by (simp add: hand_all_def demo_wait_state event_defs)
  ultimately show ?thesis using hook_close_wakes_all [OF demo_wait_reach] by metis
qed

text \<open>
  The status flags a caller sets with \<^verbatim>\<open>F_SETFL\<close> are the ones \<^verbatim>\<open>F_GETFL\<close> gives back when the kernel
  reports what it was given, although on a managed socket the kernel is given \<^verbatim>\<open>O_NONBLOCK\<close> exactly
  when the library set the descriptor to non-blocking, and the other flags as the caller wished.
\<close>

theorem fcntl_flags_roundtrip:
  "\<exists>flags. hook_fcntl F_SETFL arg ptr ctx k = (Int_Arg flags, snd (fcntl_setfl arg ctx), k) \<and>
     hook_fcntl F_GETFL i ptr (snd (fcntl_setfl arg ctx)) flags = (No_Arg, snd (fcntl_setfl arg ctx), arg) \<and>
     flags = (if managed_socket ctx
       then if m_sysNonblock (the ctx) then arg OR O_NONBLOCK else arg AND NOT O_NONBLOCK else arg) \<and>
     snd (fcntl_setfl arg ctx) =
       (if managed_socket ctx then Some ((the ctx)\<lparr>m_userNonblock := (arg AND O_NONBLOCK \<noteq> 0)\<rparr>) else ctx)"
proof (cases "managed_socket ctx")
  case True
  then obtain c where c: "ctx = Some c" "\<not> m_isClosed c" "m_isSocket c"
    by (auto simp: managed_socket_def split: option.splits)
  let ?f = "if m_sysNonblock c then arg OR O_NONBLOCK else arg AND NOT O_NONBLOCK"
  let ?c = "c\<lparr>m_userNonblock := (arg AND O_NONBLOCK \<noteq> 0)\<rparr>"
  have restored: "(if arg AND O_NONBLOCK \<noteq> 0 then f OR O_NONBLOCK else f AND NOT O_NONBLOCK) = arg"
    if "f = arg OR O_NONBLOCK \<or> f = arg AND NOT O_NONBLOCK" for f
  proof (cases "arg AND O_NONBLOCK = 0")
    case True
    then have "arg AND NOT O_NONBLOCK = arg" using flags_split [of arg] by simp
    with that True flags_nonblock(4,5) [of arg] show ?thesis by auto
  next
    case False
    then have "arg OR O_NONBLOCK = arg" using flags_split [of arg] nonblock_set [of arg] flags_nonblock(1) [of arg] by simp
    with that False flags_nonblock(6) [of arg] show ?thesis by auto
  qed
  have set: "fcntl_setfl arg ctx = (?f, Some ?c)"
    using c by (simp add: fcntl_setfl_def managed_socket_def Let_def)
  have "fcntl_getfl ?f (Some ?c) = arg"
    using c restored [of ?f] by (simp add: fcntl_getfl_def managed_socket_def)
  with c set True show ?thesis by (simp add: hook_fcntl_def)
qed (auto simp: hook_fcntl_def fcntl_setfl_def fcntl_getfl_def)

text \<open>
  A sleeping fiber is put to run again by a one-shot timer: \<^verbatim>\<open>sleep(s)\<close> sets its deadline \<open>s\<close>
  seconds ahead, but with the milliseconds taken modulo 2^32, so the sleep is the one asked for
  exactly up to 4294967 seconds and less than 2^32 milliseconds always; the timer is queued unless
  another timer has the very same deadline.
\<close>

theorem hook_sleep_deadline:
  assumes "tm_reach t" "hook_sleep True now seconds resched t = Some (p, front, t')"
  shows "m_cb (timer_obj t' p) = Some (Call resched) \<and> \<not> m_recurring (timer_obj t' p) \<and>
    deadline t' p = now + (uint seconds * 1000 mod 2 ^ 32) * 1000000 \<and>
    (deadline t' p = now + uint seconds * 1000000000 \<longleftrightarrow> seconds \<le> 4294967) \<and>
    (p \<in> set (m_timers t') \<longleftrightarrow> (\<forall>x \<in> set (m_timers t). deadline t x \<noteq> deadline t' p))"
proof -
  note res = addTimer_result [OF tm_reach_inv [OF assms(1)] assms(2) [unfolded hook_sleep_def hook_wait_ms_def, simplified]]
  have "uint (sleep_ms seconds) = uint seconds * 1000 mod 2 ^ 32"
    by (simp add: sleep_ms_def unsigned_ucast_eq take_bit_eq_mod uint_word_ariths)
  moreover from this have "uint (sleep_ms seconds) < 2 ^ 32" by simp
  then have "sint (sleep_ms seconds) = uint (sleep_ms seconds)"
    by (simp add: sint_uint) (rule signed_take_bit_int_eq_self, simp_all add: order_trans [of _ 0])
  ultimately have d: "deadline t' p = now + (uint seconds * 1000 mod 2 ^ 32) * 1000000"
    by (simp add: res(3) timer_ctor_def ms_span_def)
  have "(uint seconds * 1000 mod 2 ^ 32) * 1000000 = uint seconds * 1000000000 \<longleftrightarrow> uint seconds \<le> 4294967"
  proof
    assume "uint seconds \<le> 4294967"
    then show "(uint seconds * 1000 mod 2 ^ 32) * 1000000 = uint seconds * 1000000000" by simp
  next
    assume "(uint seconds * 1000 mod 2 ^ 32) * 1000000 = uint seconds * 1000000000"
    moreover have "uint seconds * 1000 mod 2 ^ 32 < 2 ^ 32" by simp
    ultimately have "uint seconds * 1000 < 4294967296" by simp
    then show "uint seconds \<le> 4294967" by linarith
  qed
  with d have ex: "deadline t' p = now + uint seconds * 1000000000 \<longleftrightarrow> seconds \<le> 4294967"
    by (simp add: word_le_def)
  have "deadline t' p = now + ms_span (sleep_ms seconds)" by (simp add: res(3) timer_ctor_def)
  with res(2,6) have "p \<in> set (m_timers t') \<longleftrightarrow> (\<forall>x \<in> set (m_timers t). deadline t x \<noteq> deadline t' p)" by auto
  with d ex show ?thesis by (simp add: res(3) timer_ctor_def)
qed

theorem hook_sleep_deadline_witness:
  "\<exists>p front t'. hook_sleep True 0 4294968 (7 :: nat) (manager_ctor 0) = Some (p, front, t') \<and> deadline t' p = 704000000"
proof -
  obtain p front t' where s: "hook_sleep True 0 4294968 (7 :: nat) (manager_ctor 0) = Some (p, front, t')"
    by (metis hook_sleep_def hook_wait_ms_def prod_cases3)
  from hook_sleep_deadline [OF tm_ctor s] s show ?thesis by simp
qed

end
