(* ===== verification/C_String.thy ===== *)
theory C_String
  imports Prelude "HOL-Library.Char_ord"
begin

text \<open>
  The functions of \<^verbatim>\<open><string.h>\<close>, \<^verbatim>\<open><strings.h>\<close> and \<^verbatim>\<open><stdlib.h>\<close> the HTTP code uses, on character
  arrays. A pointer into an array is an index, a C string is what stands from there up to the first
  NUL; reading or writing past the array is a fault.
\<close>

section \<open>Characters\<close>

abbreviation NUL :: char where "NUL \<equiv> CHR 0x00"
abbreviation TAB :: char where "TAB \<equiv> CHR 0x09"
abbreviation LF :: char where "LF \<equiv> CHR 0x0A"
abbreviation CR :: char where "CR \<equiv> CHR 0x0D"

definition CRLF :: string where "CRLF = [CR, LF]"

definition blank :: "char \<Rightarrow> bool" where
  "blank c \<longleftrightarrow> c = CHR '' '' \<or> c = TAB"

text \<open>\<^verbatim>\<open>tolower\<close>, \<^verbatim>\<open>isdigit\<close> and \<^verbatim>\<open>isspace\<close> in the C locale.\<close>

definition to_lower :: "char \<Rightarrow> char" where
  "to_lower c = (let n = of_char c :: nat in if 65 \<le> n \<and> n \<le> 90 then char_of (n + 32) else c)"

definition is_digit :: "char \<Rightarrow> bool" where
  "is_digit c \<longleftrightarrow> (let n = of_char c :: nat in 48 \<le> n \<and> n \<le> 57)"

definition is_space :: "char \<Rightarrow> bool" where
  "is_space c \<longleftrightarrow> (let n = of_char c :: nat in n = 32 \<or> (9 \<le> n \<and> n \<le> 13))"

section \<open>Strings in an array\<close>

definition char_at :: "string \<Rightarrow> int \<Rightarrow> char result" where
  "char_at buf i = (if i < 0 then Inl Out_Of_Bounds else vec_at buf (nat i))"

definition char_put :: "string \<Rightarrow> int \<Rightarrow> char \<Rightarrow> string result" where
  "char_put buf i x = (if i < 0 then Inl Out_Of_Bounds else vec_put buf (nat i) x)"

text \<open>The C string at an index: its characters without the NUL, which must be inside the array.\<close>

definition c_str :: "string \<Rightarrow> int \<Rightarrow> string result" where
  "c_str buf i =
     (if i < 0 \<or> int (length buf) \<le> i then Inl Out_Of_Bounds
      else if NUL \<in> set (drop (nat i) buf) then Inr (takeWhile (\<lambda>c. c \<noteq> NUL) (drop (nat i) buf))
      else Inl Out_Of_Bounds)"

text \<open>Writing a block of characters (\<^verbatim>\<open>memcpy\<close>), \<^verbatim>\<open>strcpy\<close>, \<^verbatim>\<open>strcat\<close> and \<^verbatim>\<open>strncpy\<close>.\<close>

definition put_str :: "string \<Rightarrow> int \<Rightarrow> string \<Rightarrow> string result" where
  "put_str buf i s =
     (if i < 0 \<or> int (length buf) < i + int (length s) then Inl Out_Of_Bounds
      else Inr (take (nat i) buf @ s @ drop (nat i + length s) buf))"

definition strcpy :: "string \<Rightarrow> int \<Rightarrow> string \<Rightarrow> string result" where
  "strcpy buf i src = put_str buf i (src @ [NUL])"

definition strcat :: "string \<Rightarrow> int \<Rightarrow> string \<Rightarrow> string result" where
  "strcat buf i src = result_bind (c_str buf i) (\<lambda>d. strcpy buf (i + int (length d)) src)"

definition strncpy :: "string \<Rightarrow> int \<Rightarrow> string \<Rightarrow> int \<Rightarrow> string result" where
  "strncpy buf i src n =
     (if n < 0 then Inl Out_Of_Bounds
      else put_str buf i (take (nat n) (src @ replicate (nat n - length src) NUL)))"

section \<open>Searching and comparing\<close>

fun find_index :: "(char \<Rightarrow> bool) \<Rightarrow> string \<Rightarrow> nat option" where
  "find_index P [] = None"
| "find_index P (x # xs) = (if P x then Some 0 else map_option Suc (find_index P xs))"

definition find_last :: "(char \<Rightarrow> bool) \<Rightarrow> string \<Rightarrow> nat option" where
  "find_last P xs = map_option (\<lambda>k. length xs - 1 - k) (find_index P (rev xs))"

text \<open>\<^verbatim>\<open>strspn(s, " \t")\<close>.\<close>

definition blanks :: "string \<Rightarrow> nat" where
  "blanks s = length (takeWhile blank s)"

text \<open>\<^verbatim>\<open>strcasecmp(a, b) == 0\<close>, and \<^verbatim>\<open>strncasecmp(a, b, n) == 0\<close> for \<open>n\<close> the length of \<open>b\<close>.\<close>

definition same_nocase :: "string \<Rightarrow> string \<Rightarrow> bool" where
  "same_nocase a b \<longleftrightarrow> map to_lower a = map to_lower b"

definition starts_nocase :: "string \<Rightarrow> string \<Rightarrow> bool" where
  "starts_nocase a b \<longleftrightarrow> map to_lower (take (length b) a) = map to_lower b"

section \<open>Numbers\<close>

definition digit_val :: "char \<Rightarrow> int" where
  "digit_val c = int (of_char c) - 48"

fun digits_val :: "int \<Rightarrow> string \<Rightarrow> int" where
  "digits_val acc [] = acc"
| "digits_val acc (c # cs) = (if is_digit c then digits_val (acc * 10 + digit_val c) cs else acc)"

text \<open>\<^verbatim>\<open>atol\<close> as \<^verbatim>\<open>strtol(s, NULL, 10)\<close>: leading space, a sign, digits, and saturation.\<close>

definition clamp_long :: "int \<Rightarrow> int" where
  "clamp_long n = max (- (2 ^ 63)) (min (2 ^ 63 - 1) n)"

definition atol :: "string \<Rightarrow> int" where
  "atol s =
     (let t = dropWhile is_space s in
      case t of
        [] \<Rightarrow> 0
      | c # cs \<Rightarrow> clamp_long (if c = CHR ''-'' then - digits_val 0 cs
          else if c = CHR ''+'' then digits_val 0 cs else digits_val 0 t))"

text \<open>What \<^verbatim>\<open>%d\<close> prints.\<close>

definition digit_char :: "nat \<Rightarrow> char" where
  "digit_char n = char_of (48 + n)"

fun dec_nat :: "nat \<Rightarrow> string" where
  "dec_nat n = (if n < 10 then [digit_char n] else dec_nat (n div 10) @ [digit_char (n mod 10)])"

declare dec_nat.simps [simp del]

definition dec_int :: "int \<Rightarrow> string" where
  "dec_int i = (if i < 0 then CHR ''-'' # dec_nat (nat (- i)) else dec_nat (nat i))"

text \<open>Conversion to \<^verbatim>\<open>int\<close>, \<^verbatim>\<open>unsigned\<close> to \<^verbatim>\<open>size_t\<close>.\<close>

definition to_int32 :: "int \<Rightarrow> int" where
  "to_int32 i = sint (of_int i :: 32 word)"

definition to_size :: "int \<Rightarrow> int" where
  "to_size i = i mod 2 ^ 64"

section \<open>Lemmas\<close>

lemma char_at_in [simp]: "0 \<le> i \<Longrightarrow> i < int (length buf) \<Longrightarrow> char_at buf i = Inr (buf ! nat i)"
  by (simp add: char_at_def)

lemma char_put_in [simp]: "0 \<le> i \<Longrightarrow> i < int (length buf) \<Longrightarrow> char_put buf i x = Inr (buf[nat i := x])"
  by (simp add: char_put_def)

lemma char_at_layout:
  "i = int (length xs) \<Longrightarrow> char_at (xs @ c # ys) i = Inr c"
  "i = int (length xs) \<Longrightarrow> char_at (xs @ b # c # ys) (i + 1) = Inr c"
  by (simp_all add: char_at_def nth_append nat_add_distrib)

lemma char_put_layout:
  "i = int (length xs) \<Longrightarrow> char_put (xs @ c # ys) i x = Inr (xs @ x # ys)"
  "i = int (length xs) \<Longrightarrow> char_put (xs @ b # c # ys) (i + 1) x = Inr (xs @ b # x # ys)"
  by (simp_all add: char_put_def list_update_append nat_add_distrib)

lemma char_put_length: "char_put buf i x = Inr buf' \<Longrightarrow> length buf' = length buf"
  by (auto simp: char_put_def vec_put_Inr_iff split: if_splits)

lemma put_str_length: "put_str buf i s = Inr buf' \<Longrightarrow> length buf' = length buf"
  by (auto simp: put_str_def split: if_splits)

lemma strcpy_length: "strcpy buf i s = Inr buf' \<Longrightarrow> length buf' = length buf"
  by (simp add: strcpy_def put_str_length)

lemma strcat_length: "strcat buf i s = Inr buf' \<Longrightarrow> length buf' = length buf"
  by (auto simp: strcat_def result_bind_Inr_iff strcpy_length)

lemma strncpy_length: "strncpy buf i s n = Inr buf' \<Longrightarrow> length buf' = length buf"
  by (auto simp: strncpy_def put_str_length split: if_splits)

text \<open>A C string laid out in an array: \<open>pre\<close> before it, its NUL, and the rest.\<close>

lemma c_str_layout:
  assumes "NUL \<notin> set s" "i = int (length pre)"
  shows "c_str (pre @ s @ NUL # post) i = Inr s"
  using assms by (simp add: c_str_def takeWhile_append)

lemma c_str_SomeD:
  assumes "c_str buf i = Inr s"
  obtains pre post where "buf = pre @ s @ NUL # post" "i = int (length pre)" "NUL \<notin> set s"
proof -
  from assms have i: "0 \<le> i" "i < int (length buf)" and n: "NUL \<in> set (drop (nat i) buf)"
    and s: "s = takeWhile (\<lambda>c. c \<noteq> NUL) (drop (nat i) buf)"
    by (auto simp: c_str_def split: if_splits)
  from n obtain ys zs where d: "drop (nat i) buf = ys @ NUL # zs" "NUL \<notin> set ys"
    by (meson split_list_first)
  then have "s = ys" by (simp add: s takeWhile_append)
  moreover have "buf = take (nat i) buf @ ys @ NUL # zs" using d by (metis append_take_drop_id)
  moreover have "i = int (length (take (nat i) buf))" using i by simp
  ultimately show thesis using that d(2) by blast
qed

lemma put_str_layout:
  assumes "length old = length s" "i = int (length pre)"
  shows "put_str (pre @ old @ post) i s = Inr (pre @ s @ post)"
  using assms by (simp add: put_str_def)

lemma find_index_Some:
  "find_index P xs = Some k \<longleftrightarrow> k < length xs \<and> P (xs ! k) \<and> (\<forall>j < k. \<not> P (xs ! j))"
proof (induction xs arbitrary: k)
  case (Cons x xs)
  show ?case
  proof (cases k)
    case (Suc n)
    have "(\<forall>j < Suc n. \<not> P ((x # xs) ! j)) \<longleftrightarrow> \<not> P x \<and> (\<forall>j < n. \<not> P (xs ! j))"
      by (simp add: All_less_Suc2)
    then show ?thesis using Cons.IH [of n] Suc by (auto split: if_splits)
  qed simp
qed simp

lemma find_index_None: "find_index P xs = None \<longleftrightarrow> (\<forall>x \<in> set xs. \<not> P x)"
  by (induction xs) auto

lemma find_index_append:
  "(\<forall>x \<in> set xs. \<not> P x) \<Longrightarrow> find_index P (xs @ ys) = map_option (\<lambda>k. length xs + k) (find_index P ys)"
  by (induction xs; cases "find_index P ys") auto

lemma find_last_layout:
  assumes "x \<notin> set name"
  shows "find_last (\<lambda>c. c = x) (dir @ x # name) = Some (length dir)"
proof -
  have "find_index (\<lambda>c. c = x) (rev name @ x # rev dir) = Some (length name)"
    using assms by (subst find_index_append) auto
  then show ?thesis by (simp add: find_last_def)
qed

lemma blanks_append: "(\<forall>c \<in> set xs. blank c) \<Longrightarrow> blanks (xs @ ys) = length xs + blanks ys"
  by (simp add: blanks_def takeWhile_append)

lemma blanks_Cons: "blanks (c # cs) = (if blank c then Suc (blanks cs) else 0)"
  by (simp add: blanks_def)

lemma same_nocase_refl [simp]: "same_nocase s s"
  by (simp add: same_nocase_def)

lemma same_nocase_length: "same_nocase a b \<Longrightarrow> length a = length b"
  unfolding same_nocase_def by (metis length_map)

lemma starts_nocase_append [simp]: "starts_nocase (p @ s) p"
  by (simp add: starts_nocase_def)

text \<open>Printing a number and reading it back.\<close>

lemma digit_char: "n < 10 \<Longrightarrow> is_digit (digit_char n) \<and> digit_val (digit_char n) = int n"
  by (simp add: is_digit_def digit_char_def digit_val_def Let_def of_char_of)

lemma digit_no_space: "is_digit c \<Longrightarrow> \<not> is_space c \<and> c \<noteq> CHR ''-'' \<and> c \<noteq> CHR ''+'' \<and> c \<noteq> NUL \<and> \<not> blank c"
  by (auto simp: is_digit_def is_space_def blank_def Let_def)

lemma dec_nat_digits: "\<forall>c \<in> set (dec_nat n). is_digit c"
proof (induction n rule: dec_nat.induct)
  case (1 n)
  then show ?case by (subst dec_nat.simps) (auto simp: digit_char)
qed

lemma dec_nat_not_Nil [simp]: "dec_nat n \<noteq> []"
  by (subst dec_nat.simps) simp

lemma digits_val_append:
  "(\<forall>c \<in> set xs. is_digit c) \<Longrightarrow> digits_val acc (xs @ ys) = digits_val (digits_val acc xs) ys"
  by (induction xs arbitrary: acc) auto

lemma digits_val_stop: "rest = [] \<or> \<not> is_digit (hd rest) \<Longrightarrow> digits_val acc rest = acc"
  by (cases rest) auto

lemma digits_val_dec: "digits_val 0 (dec_nat n) = int n"
proof (induction n rule: dec_nat.induct)
  case (1 n)
  show ?case
  proof (cases "n < 10")
    case True
    then show ?thesis using digit_char [OF True] by (simp add: dec_nat.simps [of n])
  next
    case False
    have "dec_nat n = dec_nat (n div 10) @ [digit_char (n mod 10)]" using False by (simp add: dec_nat.simps [of n])
    then have "digits_val 0 (dec_nat n) = digits_val (int (n div 10)) [digit_char (n mod 10)]"
      using 1 [OF False] by (simp add: digits_val_append dec_nat_digits)
    also have "\<dots> = int (n div 10) * 10 + int (n mod 10)" using digit_char [of "n mod 10"] by simp
    finally show ?thesis by presburger
  qed
qed

lemma atol_dec_nat:
  assumes "int n < 2 ^ 63" "rest = [] \<or> \<not> is_digit (hd rest)"
  shows "atol (dec_nat n @ rest) = int n"
proof -
  obtain c cs where d: "dec_nat n = c # cs" by (cases "dec_nat n") auto
  then have c: "is_digit c" using dec_nat_digits [of n] by simp
  note dn = dec_nat_digits [of n]
  from c have "dropWhile is_space (dec_nat n @ rest) = dec_nat n @ rest" by (simp add: d digit_no_space)
  moreover have "digits_val 0 (dec_nat n @ rest) = int n"
    by (simp add: digits_val_append dn digits_val_dec digits_val_stop [OF assms(2)])
  ultimately show ?thesis using assms(1) c digit_no_space [OF c]
    by (simp add: atol_def d clamp_long_def del: digits_val.simps)
qed

end
