(* ===== verification/Http_Parser.thy ===== *)
theory Http_Parser
  imports C_String
begin

text \<open>
  The state of a connection and the request parser of \<^verbatim>\<open>src/server/http_conn.h\<close> and
  \<^verbatim>\<open>http_conn.cpp\<close>. The \<^verbatim>\<open>char *\<close> members point into \<^verbatim>\<open>m_read_buf\<close>, so they are optional indices
  (\<open>None\<close> is the null pointer). What \<^verbatim>\<open>recv\<close> answers is an argument. Log output is left out.
\<close>

section \<open>The connection\<close>

definition FILENAME_LEN :: int where "FILENAME_LEN = 200"
definition READ_BUFFER_SIZE :: int where "READ_BUFFER_SIZE = 2048"
definition WRITE_BUFFER_SIZE :: int where "WRITE_BUFFER_SIZE = 1024"

lemmas size_defs = FILENAME_LEN_def READ_BUFFER_SIZE_def WRITE_BUFFER_SIZE_def

datatype http_method = GET | POST | HEAD | PUT | DELETE | TRACE | OPTIONS | CONNECT | PATH

datatype check_state = CHECK_STATE_REQUESTLINE | CHECK_STATE_HEADER | CHECK_STATE_CONTENT

datatype http_code = NO_REQUEST | GET_REQUEST | BAD_REQUEST | NO_RESOURCE | FORBIDDEN_REQUEST
  | FILE_REQUEST | INTERNAL_ERROR | CLOSED_CONNECTION

datatype line_status = LINE_OK | LINE_BAD | LINE_OPEN

text \<open>
  \<^verbatim>\<open>m_file_address\<close> is null, \<^verbatim>\<open>MAP_FAILED\<close>, or a mapping of these bytes. A part of the answer stands
  in \<^verbatim>\<open>m_write_buf\<close> or in the mapping, at an offset.
\<close>

datatype file_address = No_Map | Map_Failed | Mapped string

datatype iov_base = In_Buf int | In_File int

record iovec =
  iov_base :: iov_base
  iov_len :: int

record file_stat =
  st_size :: int
  st_mode :: u32

record http_conn =
  m_read_buf :: string
  m_read_idx :: int
  m_checked_idx :: int
  m_start_line :: int
  m_write_buf :: string
  m_write_idx :: int
  m_check_state :: check_state
  m_method :: http_method
  m_real_file :: string
  m_url :: "int option"
  m_version :: "int option"
  m_host :: "int option"
  m_content_length :: int
  m_linger :: bool
  m_file_address :: file_address
  m_file_stat :: file_stat
  m_iv0 :: iovec
  m_iv1 :: iovec
  m_iv_count :: int
  cgi :: int
  m_string :: "int option"
  bytes_to_send :: int
  bytes_have_send :: int
  doc_root :: string
  m_TRIGMode :: int
  sql_user :: string
  sql_passwd :: string
  sql_name :: string
  mysql :: "nat option"
  m_client :: int

text \<open>The private \<^verbatim>\<open>init()\<close>: a new request on the same connection.\<close>

definition init_request :: "http_conn \<Rightarrow> http_conn" where
  "init_request s = s\<lparr>mysql := None, bytes_to_send := 0, bytes_have_send := 0,
     m_check_state := CHECK_STATE_REQUESTLINE, m_method := GET, m_url := None, m_version := None,
     m_content_length := 0, m_host := None, m_start_line := 0, m_checked_idx := 0, m_read_idx := 0,
     m_write_idx := 0, cgi := 0,
     m_read_buf := replicate (nat READ_BUFFER_SIZE) NUL,
     m_write_buf := replicate (nat WRITE_BUFFER_SIZE) NUL,
     m_real_file := replicate (nat FILENAME_LEN) NUL\<rparr>"

text \<open>The public \<^verbatim>\<open>init\<close> of a new connection; the counter is \<^verbatim>\<open>m_user_count\<close>.\<close>

definition http_init :: "int \<Rightarrow> string \<Rightarrow> int \<Rightarrow> string \<Rightarrow> string \<Rightarrow> string \<Rightarrow> bool \<Rightarrow> int \<times> http_conn \<Rightarrow>
    (int \<times> http_conn) result" where
  "http_init client root TRIGMode user passwd sqlname keepalive st =
     (case st of (user_count, s) \<Rightarrow>
       let s1 = s\<lparr>m_client := client, m_linger := keepalive, doc_root := root, m_TRIGMode := TRIGMode\<rparr> in
       result_bind (strcpy (sql_user s1) 0 user) (\<lambda>u.
       result_bind (strcpy (sql_passwd s1) 0 passwd) (\<lambda>p.
       result_bind (strcpy (sql_name s1) 0 sqlname) (\<lambda>n.
       Inr (user_count + 1, init_request (s1\<lparr>sql_user := u, sql_passwd := p, sql_name := n\<rparr>))))))"

definition close_conn :: "bool \<Rightarrow> int \<times> http_conn \<Rightarrow> int \<times> http_conn" where
  "close_conn real_close st =
     (case st of (user_count, s) \<Rightarrow> if real_close \<and> m_client s \<noteq> - 1 then (user_count - 1, s) else (user_count, s))"

section \<open>The proxy mode\<close>

text \<open>\<^verbatim>\<open>src/proxy/proxy.hpp\<close>: the factories and the \<^verbatim>\<open>ProxyType\<close> of what they create.\<close>

datatype proxy_factory = nginxFactory | noPorxyFactory

definition createProxy :: "proxy_factory \<Rightarrow> int" where
  "createProxy f = (case f of nginxFactory \<Rightarrow> 0 | noPorxyFactory \<Rightarrow> 1)"

text \<open>The globals \<^verbatim>\<open>factory\<close> and \<^verbatim>\<open>obj\<close>; of \<^verbatim>\<open>obj\<close> only its type matters.\<close>

definition initproxy :: "int \<Rightarrow> proxy_factory option \<times> int option \<Rightarrow> (proxy_factory option \<times> int option) result" where
  "initproxy decideproxy g =
     (let factory = (if decideproxy = 0 then Some nginxFactory
           else if decideproxy = 1 then Some noPorxyFactory else fst g)
      in case factory of None \<Rightarrow> Inl Null_Deref | Some f \<Rightarrow> Inr (factory, Some (createProxy f)))"

definition delete_proxy :: "proxy_factory option \<times> int option \<Rightarrow> proxy_factory option \<times> int option" where
  "delete_proxy g = (None, None)"

text \<open>
  The test made before and after: a request that came through nginx must meet the nginx mode and one
  that did not must not. \<open>True\<close> is \<^verbatim>\<open>BAD_REQUEST\<close>.
\<close>

definition proxy_mismatch :: "bool \<Rightarrow> int option \<Rightarrow> bool result" where
  "proxy_mismatch decide_proxy obj =
     (case obj of None \<Rightarrow> Inl Null_Deref
      | Some ty \<Rightarrow> Inr (if \<not> decide_proxy then ty = 1 else ty = 0))"

section \<open>Lines\<close>

lemma result_bind_cong [fundef_cong]:
  "r = r' \<Longrightarrow> (\<And>x. r' = Inr x \<Longrightarrow> f x = f' x) \<Longrightarrow> result_bind r f = result_bind r' f'"
  by (simp add: result_bind_def split: sum.splits)

text \<open>Ending a line: NUL at \<open>i\<close> and \<open>i + 1\<close>, and \<^verbatim>\<open>m_checked_idx\<close> after it.\<close>

definition end_line :: "int \<Rightarrow> http_conn \<Rightarrow> http_conn result" where
  "end_line i s =
     result_bind (char_put (m_read_buf s) i NUL) (\<lambda>b1.
     result_bind (char_put b1 (i + 1) NUL) (\<lambda>b2.
     Inr (s\<lparr>m_read_buf := b2, m_checked_idx := i + 2\<rparr>)))"

function parse_line :: "http_conn \<Rightarrow> (line_status \<times> http_conn) result" where
  "parse_line s =
     (let i = m_checked_idx s in
      if i < m_read_idx s then
        result_bind (char_at (m_read_buf s) i) (\<lambda>temp.
          if temp = CR then
            if i + 1 = m_read_idx s then Inr (LINE_OPEN, s)
            else result_bind (char_at (m_read_buf s) (i + 1)) (\<lambda>c.
              if c = LF then result_bind (end_line i s) (\<lambda>s1. Inr (LINE_OK, s1))
              else parse_line (s\<lparr>m_checked_idx := i + 1\<rparr>))
          else if temp = LF then
            if 1 < i then
              result_bind (char_at (m_read_buf s) (i - 1)) (\<lambda>c.
                if c = CR then result_bind (end_line (i - 1) s) (\<lambda>s1. Inr (LINE_OK, s1))
                else Inr (LINE_BAD, s))
            else Inr (LINE_BAD, s)
          else parse_line (s\<lparr>m_checked_idx := i + 1\<rparr>))
      else Inr (LINE_OPEN, s))"
  by pat_completeness auto
termination by (relation "measure (\<lambda>s. nat (m_read_idx s - m_checked_idx s))") auto

declare parse_line.simps [simp del]

section \<open>Reading\<close>

text \<open>What one \<^verbatim>\<open>recv\<close> answers: the bytes it stored, or \<^verbatim>\<open>-1\<close> with an \<^verbatim>\<open>errno\<close>.\<close>

datatype recv_answer = Received string | Recv_Failed int

fun read_all :: "recv_answer list \<Rightarrow> http_conn \<Rightarrow> (bool \<times> http_conn) result option" where
  "read_all [] s = None"
| "read_all (Recv_Failed e # as) s = Some (Inr (e = EAGAIN, s))"
| "read_all (Received d # as) s =
     (if d = [] then Some (Inr (False, s))
      else case put_str (m_read_buf s) (m_read_idx s) d of
          Inl f \<Rightarrow> Some (Inl f)
        | Inr b \<Rightarrow> read_all as (s\<lparr>m_read_buf := b, m_read_idx := m_read_idx s + int (length d)\<rparr>))"

definition read_once :: "recv_answer list \<Rightarrow> http_conn \<Rightarrow> (bool \<times> http_conn) result option" where
  "read_once as s =
     (if READ_BUFFER_SIZE \<le> m_read_idx s then Some (Inr (False, s))
      else if m_TRIGMode s = 0 then
        (case as of
           [] \<Rightarrow> None
         | Recv_Failed e # _ \<Rightarrow> Some (Inr (False, s\<lparr>m_read_idx := m_read_idx s - 1\<rparr>))
         | Received d # _ \<Rightarrow> Some (result_bind (put_str (m_read_buf s) (m_read_idx s) d) (\<lambda>b.
             Inr (d \<noteq> [], s\<lparr>m_read_buf := b, m_read_idx := m_read_idx s + int (length d)\<rparr>))))
      else read_all as s)"

section \<open>The request line\<close>

text \<open>\<^verbatim>\<open>p = strpbrk(p, " \t"); *p++ = '\0'\<close>: the word at \<open>p\<close>, the array, and where the rest starts.\<close>

definition cut_word :: "string \<Rightarrow> int \<Rightarrow> (string \<times> string \<times> int) option result" where
  "cut_word buf p =
     result_bind (c_str buf p) (\<lambda>t.
       case find_index blank t of
         None \<Rightarrow> Inr None
       | Some k \<Rightarrow> result_bind (char_put buf (p + int k) NUL) (\<lambda>b. Inr (Some (take k t, b, p + int k + 1))))"

text \<open>\<^verbatim>\<open>p += strspn(p, " \t")\<close>.\<close>

definition skip_blanks :: "string \<Rightarrow> int \<Rightarrow> int result" where
  "skip_blanks buf p = result_bind (c_str buf p) (\<lambda>t. Inr (p + int (blanks t)))"

text \<open>\<^verbatim>\<open>if (strncasecmp(m_url, scheme, n) == 0) { m_url += n; m_url = strchr(m_url, '/'); }\<close>.\<close>

definition strip_scheme :: "string \<Rightarrow> string \<Rightarrow> int option \<Rightarrow> int option result" where
  "strip_scheme scheme buf url =
     (case url of
        None \<Rightarrow> Inl Null_Deref
      | Some u \<Rightarrow> result_bind (c_str buf u) (\<lambda>t.
          if starts_nocase t scheme
          then Inr (map_option (\<lambda>k. u + int (length scheme) + int k)
            (find_index (\<lambda>c. c = CHR ''/'') (drop (length scheme) t)))
          else Inr (Some u)))"

text \<open>From the URL on: the schemes are taken off, a bare \<^verbatim>\<open>/\<close> becomes the start page.\<close>

definition request_url :: "http_conn \<Rightarrow> (http_code \<times> http_conn) result" where
  "request_url s =
     result_bind (strip_scheme ''http://'' (m_read_buf s) (m_url s)) (\<lambda>u1.
     result_bind (strip_scheme ''https://'' (m_read_buf s) u1) (\<lambda>u2.
       case u2 of
         None \<Rightarrow> Inr (BAD_REQUEST, s\<lparr>m_url := None\<rparr>)
       | Some u \<Rightarrow> result_bind (c_str (m_read_buf s) u) (\<lambda>t.
           if t = [] \<or> hd t \<noteq> CHR ''/'' then Inr (BAD_REQUEST, s\<lparr>m_url := Some u\<rparr>)
           else result_bind (if length t = 1 then strcat (m_read_buf s) u ''judge.html'' else Inr (m_read_buf s)) (\<lambda>b.
             Inr (NO_REQUEST, s\<lparr>m_read_buf := b, m_url := Some u, m_check_state := CHECK_STATE_HEADER\<rparr>)))))"

text \<open>From the version on.\<close>

definition request_version :: "http_conn \<Rightarrow> int \<Rightarrow> (http_code \<times> http_conn) result" where
  "request_version s u =
     result_bind (cut_word (m_read_buf s) u) (\<lambda>w.
       case w of
         None \<Rightarrow> Inr (BAD_REQUEST, s\<lparr>m_url := Some u, m_version := None\<rparr>)
       | Some (url, b, v) \<Rightarrow>
           result_bind (skip_blanks b v) (\<lambda>v1.
           result_bind (c_str b v1) (\<lambda>version.
             let s1 = s\<lparr>m_read_buf := b, m_url := Some u, m_version := Some v1\<rparr> in
             if \<not> same_nocase version ''HTTP/1.1'' then Inr (BAD_REQUEST, s1) else request_url s1)))"

definition parse_request_line :: "int \<Rightarrow> http_conn \<Rightarrow> (http_code \<times> http_conn) result" where
  "parse_request_line p s =
     result_bind (cut_word (m_read_buf s) p) (\<lambda>w.
       case w of
         None \<Rightarrow> Inr (BAD_REQUEST, s\<lparr>m_url := None\<rparr>)
       | Some (meth, b, u) \<Rightarrow>
           let s1 = s\<lparr>m_read_buf := b, m_url := Some u\<rparr> in
           if same_nocase meth ''GET'' then
             result_bind (skip_blanks b u) (\<lambda>u1. request_version (s1\<lparr>m_method := GET\<rparr>) u1)
           else if same_nocase meth ''POST'' then
             result_bind (skip_blanks b u) (\<lambda>u1. request_version (s1\<lparr>m_method := POST, cgi := 1\<rparr>) u1)
           else Inr (BAD_REQUEST, s1))"

section \<open>Headers and content\<close>

definition header_value :: "string \<Rightarrow> string \<Rightarrow> string" where
  "header_value name t = (let v = drop (length name) t in drop (blanks v) v)"

definition parse_headers :: "int option \<Rightarrow> int \<Rightarrow> bool \<Rightarrow> http_conn \<Rightarrow> (http_code \<times> bool \<times> http_conn) result" where
  "parse_headers obj p decide_proxy s =
     result_bind (c_str (m_read_buf s) p) (\<lambda>t.
       if t = [] then
         if m_content_length s \<noteq> 0 then Inr (NO_REQUEST, decide_proxy, s\<lparr>m_check_state := CHECK_STATE_CONTENT\<rparr>)
         else Inr (GET_REQUEST, decide_proxy, s)
       else if starts_nocase t ''Connection:'' then Inr (NO_REQUEST, decide_proxy, s)
       else if starts_nocase t ''Content-length:'' then
         Inr (NO_REQUEST, decide_proxy, s\<lparr>m_content_length := atol (header_value ''Content-length:'' t)\<rparr>)
       else if starts_nocase t ''Host:'' then
         Inr (NO_REQUEST, decide_proxy, s\<lparr>m_host := Some (p + 5 + int (blanks (drop 5 t)))\<rparr>)
       else if starts_nocase t ''X-Forwarded-By:'' then
         (case obj of None \<Rightarrow> Inl Null_Deref
          | Some ty \<Rightarrow> if ty = 1 then Inr (BAD_REQUEST, decide_proxy, s) else Inr (NO_REQUEST, False, s))
       else Inr (NO_REQUEST, decide_proxy, s))"

text \<open>The sum is one of two \<^verbatim>\<open>long\<close>s, whose overflow is undefined.\<close>

definition parse_content :: "int \<Rightarrow> http_conn \<Rightarrow> (http_code \<times> http_conn) result" where
  "parse_content p s =
     (let sum = m_content_length s + m_checked_idx s in
      if sum < - (2 ^ 63) \<or> 2 ^ 63 \<le> sum then Inl Undefined_Behaviour
      else if sum \<le> m_read_idx s then
        result_bind (char_put (m_read_buf s) (p + m_content_length s) NUL) (\<lambda>b.
          Inr (GET_REQUEST, s\<lparr>m_read_buf := b, m_string := Some p\<rparr>))
      else Inr (NO_REQUEST, s))"

section \<open>The main state machine\<close>

text \<open>How the loop of \<^verbatim>\<open>process_read\<close> is left: with a code, for \<^verbatim>\<open>do_request\<close>, or at its end.\<close>

datatype loop_exit = Exit http_code | To_Request | Loop_End

text \<open>The body of the loop; \<open>None\<close> goes on, with the new \<^verbatim>\<open>line_status\<close>.\<close>

definition process_body :: "int option \<Rightarrow> bool \<Rightarrow> http_conn \<Rightarrow>
    (loop_exit option \<times> line_status \<times> bool \<times> http_conn) result" where
  "process_body obj decide_proxy s =
     (let p = m_start_line s; s1 = s\<lparr>m_start_line := m_checked_idx s\<rparr> in
      case m_check_state s of
        CHECK_STATE_REQUESTLINE \<Rightarrow> result_bind (parse_request_line p s1) (\<lambda>(ret, s2).
          Inr (if ret = BAD_REQUEST then Some (Exit BAD_REQUEST) else None, LINE_OK, decide_proxy, s2))
      | CHECK_STATE_HEADER \<Rightarrow> result_bind (parse_headers obj p decide_proxy s1) (\<lambda>(ret, d, s2).
          Inr (if ret = BAD_REQUEST then Some (Exit BAD_REQUEST)
            else if ret = GET_REQUEST then Some To_Request else None, LINE_OK, d, s2))
      | CHECK_STATE_CONTENT \<Rightarrow> result_bind (parse_content p s1) (\<lambda>(ret, s2).
          Inr (if ret = GET_REQUEST then Some To_Request else None, LINE_OPEN, decide_proxy, s2)))"

text \<open>One evaluation of the condition and, when it holds, of the body.\<close>

definition process_round :: "int option \<Rightarrow> line_status \<times> bool \<times> http_conn \<Rightarrow>
    (loop_exit option \<times> line_status \<times> bool \<times> http_conn) result" where
  "process_round obj st =
     (case st of (line_status, decide_proxy, s) \<Rightarrow>
        if m_check_state s = CHECK_STATE_CONTENT \<and> line_status = LINE_OK then process_body obj decide_proxy s
        else result_bind (parse_line s) (\<lambda>(ls, s1).
          if ls = LINE_OK then process_body obj decide_proxy s1 else Inr (Some Loop_End, ls, decide_proxy, s1)))"

section \<open>The loop ends\<close>

lemma end_line_frame:
  "end_line i s = Inr s' \<Longrightarrow> m_read_idx s' = m_read_idx s \<and> m_checked_idx s' = i + 2 \<and> m_check_state s' = m_check_state s \<and>
     length (m_read_buf s') = length (m_read_buf s)"
  by (auto simp: end_line_def result_bind_Inr_iff dest!: char_put_length)

text \<open>One round of \<^verbatim>\<open>parse_line\<close>: it stops where it is, ends a line, or goes on with the next character.\<close>

lemma parse_line_cases:
  assumes "parse_line s = Inr (ls, s')"
  obtains (stop) "ls \<noteq> LINE_OK" "s' = s"
  | (line) i where "ls = LINE_OK" "m_checked_idx s < m_read_idx s" "end_line i s = Inr s'"
      "i = m_checked_idx s \<or> i = m_checked_idx s - 1"
  | (skip) "m_checked_idx s < m_read_idx s" "parse_line (s\<lparr>m_checked_idx := m_checked_idx s + 1\<rparr>) = Inr (ls, s')"
proof -
  define n where "n = m_checked_idx s + 1"
  note cases = that [unfolded n_def [symmetric]]
  note unfolded_call = assms [unfolded parse_line.simps [of s] Let_def n_def [symmetric]]
  show thesis
  proof (cases "m_checked_idx s < m_read_idx s")
    case True
    with unfolded_call obtain temp where
      "(if temp = CR then if n = m_read_idx s then Inr (LINE_OPEN, s)
        else result_bind (char_at (m_read_buf s) n) (\<lambda>c. if c = LF
            then result_bind (end_line (m_checked_idx s) s) (\<lambda>s1. Inr (LINE_OK, s1))
            else parse_line (s\<lparr>m_checked_idx := n\<rparr>))
       else if temp = LF then if 1 < m_checked_idx s
         then result_bind (char_at (m_read_buf s) (m_checked_idx s - 1)) (\<lambda>c. if c = CR
            then result_bind (end_line (m_checked_idx s - 1) s) (\<lambda>s1. Inr (LINE_OK, s1)) else Inr (LINE_BAD, s))
         else Inr (LINE_BAD, s)
       else parse_line (s\<lparr>m_checked_idx := n\<rparr>)) = Inr (ls, s')"
      by (auto simp: result_bind_Inr_iff)
    with True show thesis by (auto simp: result_bind_Inr_iff split: if_splits intro: cases)
  qed (use unfolded_call in \<open>auto intro: cases\<close>)
qed

lemma parse_line_frame:
  "parse_line s = Inr (ls, s') \<Longrightarrow>
   m_read_idx s' = m_read_idx s \<and> m_checked_idx s \<le> m_checked_idx s' \<and> m_check_state s' = m_check_state s \<and>
   length (m_read_buf s') = length (m_read_buf s) \<and> (ls = LINE_OK \<longrightarrow> m_checked_idx s < m_checked_idx s' \<and> m_checked_idx s < m_read_idx s)"
proof (induction s rule: measure_induct_rule [of "\<lambda>s. nat (m_read_idx s - m_checked_idx s)"])
  case (less s)
  from less.prems show ?case
  proof (cases rule: parse_line_cases)
    case (line i)
    then show ?thesis by (auto dest!: end_line_frame)
  next
    case skip
    from skip(1) less.IH [OF _ skip(2)] show ?thesis by auto
  qed simp
qed

lemma cut_word_length: "cut_word buf p = Inr (Some (w, b, q)) \<Longrightarrow> length b = length buf"
  by (auto simp: cut_word_def result_bind_Inr_iff split: option.splits dest: char_put_length)

lemma request_url_frame:
  "request_url s = Inr (r, s') \<Longrightarrow> m_read_idx s' = m_read_idx s \<and> m_checked_idx s' = m_checked_idx s \<and>
     length (m_read_buf s') = length (m_read_buf s)"
  by (auto simp: request_url_def result_bind_Inr_iff split: if_splits option.splits dest!: strcat_length)

lemma request_version_frame:
  "request_version s u = Inr (r, s') \<Longrightarrow> m_read_idx s' = m_read_idx s \<and> m_checked_idx s' = m_checked_idx s \<and>
     length (m_read_buf s') = length (m_read_buf s)"
  by (cases "cut_word (m_read_buf s) u"; cases "projr (cut_word (m_read_buf s) u)")
    (auto simp: request_version_def result_bind_Inr_iff Let_def split: if_splits dest!: request_url_frame cut_word_length)

lemma request_line_frame:
  "parse_request_line p s = Inr (r, s') \<Longrightarrow> m_read_idx s' = m_read_idx s \<and> m_checked_idx s' = m_checked_idx s \<and>
     length (m_read_buf s') = length (m_read_buf s)"
  by (cases "cut_word (m_read_buf s) p"; cases "projr (cut_word (m_read_buf s) p)")
    (auto simp: parse_request_line_def result_bind_Inr_iff Let_def split: if_splits dest!: request_version_frame cut_word_length)

lemma headers_frame:
  "parse_headers obj p d s = Inr (r, d', s') \<Longrightarrow> m_read_idx s' = m_read_idx s \<and> m_checked_idx s' = m_checked_idx s \<and>
     length (m_read_buf s') = length (m_read_buf s)"
  by (auto simp: parse_headers_def result_bind_Inr_iff Let_def split: if_splits option.splits)

lemma content_frame:
  "parse_content p s = Inr (r, s') \<Longrightarrow> m_read_idx s' = m_read_idx s \<and> m_checked_idx s' = m_checked_idx s \<and>
     length (m_read_buf s') = length (m_read_buf s) \<and> m_check_state s' = m_check_state s"
  by (auto simp: parse_content_def result_bind_Inr_iff Let_def split: if_splits dest: char_put_length)

lemma process_body_frame:
  "process_body obj d s = Inr (e, ls, d', s') \<Longrightarrow>
   m_read_idx s' = m_read_idx s \<and> m_checked_idx s' = m_checked_idx s \<and> length (m_read_buf s') = length (m_read_buf s) \<and>
   (m_check_state s = CHECK_STATE_CONTENT \<longrightarrow> ls = LINE_OPEN \<and> m_check_state s' = CHECK_STATE_CONTENT)"
  by (auto simp: process_body_def Let_def result_bind_Inr_iff split: check_state.splits
      dest: request_line_frame headers_frame content_frame)

definition rounds_left :: "line_status \<times> bool \<times> http_conn \<Rightarrow> nat" where
  "rounds_left st = (case st of (ls, d, s) \<Rightarrow>
     2 * nat (m_read_idx s - m_checked_idx s) + (if ls = LINE_OK \<and> m_check_state s = CHECK_STATE_CONTENT then 1 else 0))"

lemma process_round_decreases:
  assumes "process_round obj st = Inr (None, st')"
  shows "rounds_left st' < rounds_left st"
proof -
  obtain ls d s where st: "st = (ls, d, s)" by (cases st) auto
  obtain ls' d' s' where st': "st' = (ls', d', s')" by (cases st') auto
  show ?thesis
  proof (cases "m_check_state s = CHECK_STATE_CONTENT \<and> ls = LINE_OK")
    case True
    with assms st st' have "process_body obj d s = Inr (None, ls', d', s')" by (simp add: process_round_def)
    with True st st' show ?thesis by (auto simp: rounds_left_def dest!: process_body_frame)
  next
    case False
    with assms st st' obtain s1 where l: "parse_line s = Inr (LINE_OK, s1)"
      and b: "process_body obj d s1 = Inr (None, ls', d', s')"
      by (auto simp: process_round_def result_bind_Inr_iff split: if_splits)
    from parse_line_frame [OF l] process_body_frame [OF b]
    have "m_read_idx s' = m_read_idx s" "m_checked_idx s < m_checked_idx s'" "m_checked_idx s < m_read_idx s" by auto
    then have "2 * nat (m_read_idx s' - m_checked_idx s') + 1 < 2 * nat (m_read_idx s - m_checked_idx s)" by linarith
    moreover have "rounds_left st' \<le> 2 * nat (m_read_idx s' - m_checked_idx s') + 1"
      "2 * nat (m_read_idx s - m_checked_idx s) \<le> rounds_left st" by (simp_all add: rounds_left_def st st')
    ultimately show ?thesis by linarith
  qed
qed

function process_loop :: "int option \<Rightarrow> line_status \<times> bool \<times> http_conn \<Rightarrow> (loop_exit \<times> bool \<times> http_conn) result" where
  "process_loop obj st =
     (case process_round obj st of
        Inl f \<Rightarrow> Inl f
      | Inr (Some e, _, d, s) \<Rightarrow> Inr (e, d, s)
      | Inr (None, st') \<Rightarrow> process_loop obj st')"
  by pat_completeness auto
termination
  by (relation "measure (\<lambda>(obj, st). rounds_left st)") (auto dest: process_round_decreases)

declare process_loop.simps [simp del]

section \<open>Lines in the buffer\<close>

text \<open>Characters that do not end a line.\<close>

definition plain :: "char \<Rightarrow> bool" where
  "plain c \<longleftrightarrow> c \<noteq> CR \<and> c \<noteq> LF"

lemma parse_line_skip:
  assumes "0 \<le> m_checked_idx s" "m_checked_idx s < m_read_idx s" "m_read_idx s \<le> int (length (m_read_buf s))"
    and "plain (m_read_buf s ! nat (m_checked_idx s))"
  shows "parse_line s = parse_line (s\<lparr>m_checked_idx := m_checked_idx s + 1\<rparr>)"
  using assms by (subst parse_line.simps) (simp add: Let_def plain_def)

lemma parse_line_plain:
  assumes "\<forall>c \<in> set line. plain c" "m_read_buf s = pre @ line @ post" "m_checked_idx s = int (length pre)"
    and "int (length pre + length line) \<le> m_read_idx s" "m_read_idx s \<le> int (length (m_read_buf s))"
  shows "parse_line s = parse_line (s\<lparr>m_checked_idx := int (length pre + length line)\<rparr>)"
  using assms
proof (induction line arbitrary: pre s)
  case (Cons c line)
  have "parse_line s = parse_line (s\<lparr>m_checked_idx := m_checked_idx s + 1\<rparr>)"
    by (rule parse_line_skip) (use Cons.prems in simp_all)
  also have "\<dots> = parse_line (s\<lparr>m_checked_idx := int (length (pre @ [c]) + length line)\<rparr>)"
    by (subst Cons.IH [of "s\<lparr>m_checked_idx := m_checked_idx s + 1\<rparr>" "pre @ [c]"])
      (use Cons.prems in \<open>simp_all add: add.commute\<close>)
  finally show ?case by simp
next
  case Nil
  then have "s\<lparr>m_checked_idx := int (length pre)\<rparr> = s" by (intro http_conn.equality) simp_all
  then show ?case by simp
qed

lemma parse_line_crlf:
  assumes "\<forall>c \<in> set line. plain c" "m_read_buf s = pre @ line @ CR # LF # post" "m_checked_idx s = int (length pre)"
    and "int (length pre + length line) + 2 \<le> m_read_idx s" "m_read_idx s \<le> int (length (m_read_buf s))"
  shows "parse_line s = Inr (LINE_OK, s\<lparr>m_read_buf := pre @ line @ NUL # NUL # post,
    m_checked_idx := int (length pre + length line) + 2\<rparr>)"
proof -
  let ?i = "int (length pre + length line)"
  let ?s = "s\<lparr>m_checked_idx := ?i\<rparr>"
  have "parse_line s = parse_line ?s"
    by (rule parse_line_plain [where line = line]) (use assms in simp_all)
  also have "\<dots> = result_bind (end_line ?i ?s) (\<lambda>s1. Inr (LINE_OK, s1))"
  proof -
    have "char_at (m_read_buf s) ?i = Inr CR" "char_at (m_read_buf s) (?i + 1) = Inr LF"
      using char_at_layout [of ?i "pre @ line"] by (simp_all add: assms(2))
    moreover have "?i < m_read_idx s" "?i + 1 \<noteq> m_read_idx s" using assms(4) by linarith+
    ultimately show ?thesis by (subst parse_line.simps) (simp add: Let_def)
  qed
  also have "end_line ?i ?s = Inr (s\<lparr>m_read_buf := pre @ line @ NUL # NUL # post, m_checked_idx := ?i + 2\<rparr>)"
    using char_put_layout [of ?i "pre @ line"] by (simp add: assms(2) end_line_def)
  finally show ?thesis by simp
qed

section \<open>A well-formed request\<close>

lemma c_str_append: "c_str xs i = Inr t \<Longrightarrow> c_str (xs @ ys) i = Inr t"
  by (elim c_str_SomeD) (simp add: c_str_layout)

lemma same_nocase_chars:
  assumes "same_nocase w k" "c \<in> set w"
  shows "to_lower c \<in> to_lower ` set k"
  using assms unfolding same_nocase_def by (metis image_eqI list.set_map)

lemma method_chars:
  assumes "same_nocase w k" "k = ''GET'' \<or> k = ''POST''" "c \<in> set w"
  shows "c \<noteq> NUL \<and> \<not> blank c"
  using same_nocase_chars [OF assms(1,3)] assms(2) by (auto simp: blank_def to_lower_def Let_def char_of_def)

lemma cut_word_layout:
  assumes "\<forall>c \<in> set w. c \<noteq> NUL \<and> \<not> blank c" "blank b" "NUL \<notin> set r" "p = int (length pre)"
  shows "cut_word (pre @ w @ b # r @ NUL # post) p =
    Inr (Some (w, pre @ w @ NUL # r @ NUL # post, p + int (length w) + 1))"
proof -
  have "NUL \<notin> set (w @ b # r)" using assms(1-3) by (auto simp: blank_def)
  then have "c_str (pre @ w @ b # r @ NUL # post) p = Inr (w @ b # r)"
    using c_str_layout [of "w @ b # r" p pre post] assms(4) by simp
  moreover have "find_index blank (w @ b # r) = Some (length w)"
    using assms(1,2) by (simp add: find_index_append)
  moreover have "char_put (pre @ w @ b # r @ NUL # post) (p + int (length w)) NUL = Inr (pre @ w @ NUL # r @ NUL # post)"
    using char_put_layout(1) [of "p + int (length w)" "pre @ w" b "r @ NUL # post" NUL] assms(4) by simp
  ultimately show ?thesis by (simp add: cut_word_def)
qed

lemma skip_blanks_none:
  assumes "NUL \<notin> set t" "t = [] \<or> \<not> blank (hd t)" "p = int (length pre)"
  shows "skip_blanks (pre @ t @ NUL # post) p = Inr p"
  using assms(2) c_str_layout [OF assms(1,3), of post] by (cases t) (auto simp: skip_blanks_def blanks_def)

lemma strip_scheme_none:
  assumes "NUL \<notin> set t" "t \<noteq> []" "hd t = CHR ''/''" "u = int (length pre)" "scheme = ''http://'' \<or> scheme = ''https://''"
  shows "strip_scheme scheme (pre @ t @ NUL # post) (Some u) = Inr (Some u)"
proof -
  have "\<not> starts_nocase t scheme"
    using assms(2,3,5) by (cases t) (auto simp: starts_nocase_def to_lower_def)
  then show ?thesis using assms by (simp add: strip_scheme_def c_str_layout)
qed

text \<open>The URL that is served: the start page for \<^verbatim>\<open>/\<close>.\<close>

definition served_url :: "string \<Rightarrow> string" where
  "served_url url = (if url = ''/'' then ''/judge.html'' else url)"

definition url_ok :: "string \<Rightarrow> bool" where
  "url_ok url \<longleftrightarrow> url \<noteq> [] \<and> hd url = CHR ''/'' \<and> (\<forall>c \<in> set url. c \<noteq> NUL \<and> \<not> blank c \<and> plain c)"

lemma request_url_layout:
  assumes buf: "m_read_buf s = pre @ url @ NUL # ''HTTP/1.1'' @ NUL # NUL # post"
    and url: "url_ok url" and u: "m_url s = Some (int (length pre))"
  obtains mid where "length mid = length url + 11" "c_str (pre @ mid) (int (length pre)) = Inr (served_url url)"
    "request_url s = Inr (NO_REQUEST, s\<lparr>m_read_buf := pre @ mid @ post, m_check_state := CHECK_STATE_HEADER\<rparr>)"
proof -
  have n: "NUL \<notin> set url" and c: "url \<noteq> []" "hd url = CHR ''/''" using url by (auto simp: url_ok_def)
  let ?rest = "''HTTP/1.1'' @ NUL # NUL # post"
  have cs: "c_str (m_read_buf s) (int (length pre)) = Inr url"
    unfolding buf by (rule c_str_layout) (simp_all add: n)
  have strip: "strip_scheme ''http://'' (m_read_buf s) (m_url s) = Inr (m_url s)"
    "strip_scheme ''https://'' (m_read_buf s) (m_url s) = Inr (m_url s)"
    unfolding buf u using n c by (intro strip_scheme_none; simp)+
  have same: "s\<lparr>m_url := Some (int (length pre))\<rparr> = s" using u by (intro http_conn.equality) simp_all
  show thesis
  proof (cases "length url = 1")
    case True
    then have one: "url = ''/''" using c by (cases url) auto
    have "strcat (m_read_buf s) (int (length pre)) ''judge.html'' = Inr (pre @ (''/judge.html'' @ [NUL]) @ post)"
      using cs put_str_layout [of "NUL # ''HTTP/1.1'' @ [NUL, NUL]" "''judge.html'' @ [NUL]" "int (length pre) + 1" "pre @ ''/''" post]
      by (simp add: strcat_def strcpy_def one buf)
    then have "request_url s = Inr (NO_REQUEST, s\<lparr>m_read_buf := pre @ (''/judge.html'' @ [NUL]) @ post,
        m_check_state := CHECK_STATE_HEADER\<rparr>)"
      using strip cs one u by (simp add: request_url_def)
    moreover have "c_str (pre @ ''/judge.html'' @ [NUL]) (int (length pre)) = Inr (served_url url)"
      using c_str_layout [of "''/judge.html''" "int (length pre)" pre "[]"] by (simp add: one served_url_def)
    ultimately show thesis using that [of "''/judge.html'' @ [NUL]"] by (simp add: one)
  next
    case False
    then have "request_url s = Inr (NO_REQUEST, s\<lparr>m_read_buf := m_read_buf s, m_check_state := CHECK_STATE_HEADER\<rparr>)"
      using strip cs c u by (simp add: request_url_def)
    moreover have "c_str (pre @ url @ NUL # ''HTTP/1.1'' @ [NUL, NUL]) (int (length pre)) = Inr (served_url url)"
      using False n c_str_layout [of url "int (length pre)" pre "''HTTP/1.1'' @ [NUL, NUL]"] by (auto simp: served_url_def)
    ultimately show thesis using that [of "url @ NUL # ''HTTP/1.1'' @ [NUL, NUL]"] by (simp add: buf)
  qed
qed

lemma request_line_layout:
  assumes buf: "m_read_buf s = pre @ meth @ CHR '' '' # url @ CHR '' '' # ''HTTP/1.1'' @ NUL # NUL # post"
    and p: "p = int (length pre)" and url: "url_ok url"
    and m: "same_nocase meth k" "k = ''GET'' \<or> k = ''POST''"
  obtains row where "length row = length meth + length url + 12"
    "c_str (pre @ row) (p + int (length meth) + 1) = Inr (served_url url)"
    "parse_request_line p s = Inr (NO_REQUEST, s\<lparr>m_read_buf := pre @ row @ post,
       m_url := Some (p + int (length meth) + 1),
       m_version := Some (p + int (length meth) + int (length url) + 2),
       m_method := (if k = ''GET'' then GET else POST), cgi := (if k = ''GET'' then cgi s else 1),
       m_check_state := CHECK_STATE_HEADER\<rparr>)"
proof -
  define u where "u = p + int (length meth) + 1"
  define v where "v = u + int (length url) + 1"
  let ?pre = "pre @ meth @ [NUL]"
  let ?b1 = "?pre @ url @ CHR '' '' # ''HTTP/1.1'' @ NUL # NUL # post"
  let ?b2 = "?pre @ url @ NUL # ''HTTP/1.1'' @ NUL # NUL # post"
  define s1 where "s1 = (if k = ''GET'' then s\<lparr>m_read_buf := ?b1, m_url := Some u, m_method := GET\<rparr>
    else s\<lparr>m_read_buf := ?b1, m_url := Some u, m_method := POST, cgi := 1\<rparr>)"
  have n: "NUL \<notin> set url" and c: "url \<noteq> []" "hd url = CHR ''/''" "\<forall>c \<in> set url. c \<noteq> NUL \<and> \<not> blank c"
    using url by (auto simp: url_ok_def)
  have u: "u = int (length ?pre)" and v: "v = int (length (?pre @ url @ [NUL]))" by (simp_all add: u_def v_def p)
  have sp: "blank (CHR '' '')" by (simp add: blank_def)
  have "cut_word (m_read_buf s) p = Inr (Some (meth, ?b1, u))"
    using cut_word_layout [of meth "CHR '' ''" "url @ CHR '' '' # ''HTTP/1.1''" p pre "NUL # post"]
      method_chars [OF m] n sp by (simp add: buf p u_def)
  moreover have "skip_blanks ?b1 u = Inr u"
    using skip_blanks_none [of "url @ CHR '' '' # ''HTTP/1.1''" u ?pre "NUL # post"] n c u
    by (cases url) (simp_all add: blank_def)
  moreover have ng: "\<not> same_nocase meth ''GET''" if "k = ''POST''"
    using m(1) that same_nocase_length [of meth "''GET''"] same_nocase_length [of meth k] by auto
  ultimately have line: "parse_request_line p s = request_version s1 u"
    using m by (auto simp: parse_request_line_def s1_def)
  have b1: "m_read_buf s1 = ?b1" by (simp add: s1_def)
  have "cut_word ?b1 u = Inr (Some (url, ?b2, v))"
    using cut_word_layout [of url "CHR '' ''" "''HTTP/1.1''" u ?pre "NUL # post"] c(3) sp u by (simp add: v_def)
  moreover have "skip_blanks ?b2 v = Inr v"
    using skip_blanks_none [of "''HTTP/1.1''" v "?pre @ url @ [NUL]" "NUL # post"] v by (simp add: blank_def)
  moreover have "c_str ?b2 v = Inr ''HTTP/1.1''"
    using c_str_layout [of "''HTTP/1.1''" v "?pre @ url @ [NUL]" "NUL # post"] v by simp
  ultimately have line2: "parse_request_line p s =
      request_url (s1\<lparr>m_read_buf := ?b2, m_url := Some u, m_version := Some v\<rparr>)"
    unfolding line request_version_def b1 by (simp add: Let_def)
  obtain mid where mid: "length mid = length url + 11" "c_str (?pre @ mid) (int (length ?pre)) = Inr (served_url url)"
    "request_url (s1\<lparr>m_read_buf := ?b2, m_url := Some u, m_version := Some v\<rparr>) =
       Inr (NO_REQUEST, (s1\<lparr>m_read_buf := ?b2, m_url := Some u, m_version := Some v\<rparr>)
         \<lparr>m_read_buf := ?pre @ mid @ post, m_check_state := CHECK_STATE_HEADER\<rparr>)"
    by (rule request_url_layout [of "s1\<lparr>m_read_buf := ?b2, m_url := Some u, m_version := Some v\<rparr>" ?pre url post])
      (use url u in auto)
  have "(s1\<lparr>m_read_buf := ?b2, m_url := Some u, m_version := Some v\<rparr>)
      \<lparr>m_read_buf := ?pre @ mid @ post, m_check_state := CHECK_STATE_HEADER\<rparr> =
    s\<lparr>m_read_buf := pre @ (meth @ NUL # mid) @ post, m_url := Some u, m_version := Some v,
       m_method := (if k = ''GET'' then GET else POST), cgi := (if k = ''GET'' then cgi s else 1),
       m_check_state := CHECK_STATE_HEADER\<rparr>"
    by (intro http_conn.equality) (simp_all add: s1_def)
  with mid(3) line2 have "parse_request_line p s = Inr (NO_REQUEST,
    s\<lparr>m_read_buf := pre @ (meth @ NUL # mid) @ post, m_url := Some u, m_version := Some v,
       m_method := (if k = ''GET'' then GET else POST), cgi := (if k = ''GET'' then cgi s else 1),
       m_check_state := CHECK_STATE_HEADER\<rparr>)" by simp
  then show thesis
    by (intro that [of "meth @ NUL # mid"]) (use mid(1,2) u in \<open>simp_all add: u_def v_def p add.commute add.left_commute\<close>)
qed

text \<open>The header lines a request may have: anything on one line, but nothing that came through nginx.\<close>

definition header_ok :: "string \<Rightarrow> bool" where
  "header_ok h \<longleftrightarrow> h \<noteq> [] \<and> (\<forall>c \<in> set h. c \<noteq> NUL \<and> plain c) \<and> \<not> starts_nocase h ''X-Forwarded-By:''"

text \<open>The length of the content after a header line.\<close>

definition header_length :: "int \<Rightarrow> string \<Rightarrow> int" where
  "header_length n h = (if starts_nocase h ''Content-length:'' then atol (header_value ''Content-length:'' h) else n)"

lemma starts_nocase_nth:
  assumes "starts_nocase h k" "i < length k"
  shows "to_lower (h ! i) = to_lower (k ! i)"
proof -
  have eq: "map to_lower (take (length k) h) = map to_lower k" using assms(1) by (simp add: starts_nocase_def)
  then have "length k \<le> length h" by (metis length_map length_take min.cobounded1)
  moreover have "map to_lower (take (length k) h) ! i = map to_lower k ! i" using eq by simp
  ultimately show ?thesis using assms(2) by simp
qed

lemma connection_not_length: "starts_nocase h ''Connection:'' \<Longrightarrow> \<not> starts_nocase h ''Content-length:''"
  using starts_nocase_nth [of h "''Connection:''" 3] starts_nocase_nth [of h "''Content-length:''" 3]
  by (auto simp: to_lower_def)

text \<open>The header lines with their ends, and the state after reading them from a position on.\<close>

definition header_bytes :: "string list \<Rightarrow> string" where
  "header_bytes hs = concat (map (\<lambda>h. h @ CRLF) hs)"

lemma header_bytes_simps [simp]:
  "header_bytes [] = []" "header_bytes (h # hs) = h @ CR # LF # header_bytes hs"
  by (simp_all add: header_bytes_def CRLF_def)

lemma header_round:
  assumes st: "m_check_state s = CHECK_STATE_HEADER" and h: "header_ok h"
    and buf: "m_read_buf s = pre @ h @ CR # LF # post" and i: "m_checked_idx s = int (length pre)" "m_start_line s = int (length pre)"
    and rd: "int (length pre + length h) + 2 \<le> m_read_idx s" "m_read_idx s \<le> int (length (m_read_buf s))"
  obtains host where "process_round obj (ls, d, s) = Inr (None, LINE_OK, d, s\<lparr>m_read_buf := pre @ h @ NUL # NUL # post,
      m_checked_idx := int (length pre + length h) + 2, m_start_line := int (length pre + length h) + 2,
      m_content_length := header_length (m_content_length s) h, m_host := host\<rparr>)"
proof -
  define s1 where "s1 = s\<lparr>m_read_buf := pre @ h @ NUL # NUL # post, m_checked_idx := int (length pre + length h) + 2\<rparr>"
  have hc: "\<forall>c \<in> set h. plain c" "NUL \<notin> set h" "h \<noteq> []" "\<not> starts_nocase h ''X-Forwarded-By:''"
    using h by (auto simp: header_ok_def)
  have l: "parse_line s = Inr (LINE_OK, s1)"
    unfolding s1_def by (rule parse_line_crlf [OF hc(1) buf i(1) rd])
  have cs: "c_str (m_read_buf s1) (int (length pre)) = Inr h"
    using c_str_layout [OF hc(2), of "int (length pre)" pre "NUL # post"] by (simp add: s1_def)
  define s2 where "s2 = s1\<lparr>m_start_line := m_checked_idx s1\<rparr>"
  have "\<exists>host. parse_headers obj (int (length pre)) d s2 =
      Inr (NO_REQUEST, d, s2\<lparr>m_content_length := header_length (m_content_length s) h, m_host := host\<rparr>)"
  proof -
    have cs2: "c_str (m_read_buf s2) (int (length pre)) = Inr h" using cs by (simp add: s2_def)
    let ?goal = "\<lambda>host. s2\<lparr>m_content_length := header_length (m_content_length s) h, m_host := host\<rparr>"
    have len: "m_content_length s2 = m_content_length s" by (simp add: s2_def s1_def)
    consider "starts_nocase h ''Connection:''" | "\<not> starts_nocase h ''Connection:''" "starts_nocase h ''Content-length:''"
      | "\<not> starts_nocase h ''Connection:''" "\<not> starts_nocase h ''Content-length:''" "starts_nocase h ''Host:''"
      | "\<not> starts_nocase h ''Connection:''" "\<not> starts_nocase h ''Content-length:''" "\<not> starts_nocase h ''Host:''"
      by blast
    then show ?thesis
    proof cases
      case 1
      then have "?goal (m_host s2) = s2"
        by (intro http_conn.equality) (simp_all add: header_length_def len connection_not_length)
      moreover have "parse_headers obj (int (length pre)) d s2 = Inr (NO_REQUEST, d, s2)"
        using cs2 hc(3,4) 1 by (simp add: parse_headers_def)
      ultimately show ?thesis by metis
    next
      case 2
      then have "?goal (m_host s2) = s2\<lparr>m_content_length := atol (header_value ''Content-length:'' h)\<rparr>"
        by (intro http_conn.equality) (simp_all add: header_length_def len)
      moreover have "parse_headers obj (int (length pre)) d s2 = Inr (NO_REQUEST, d, s2\<lparr>m_content_length := atol (header_value ''Content-length:'' h)\<rparr>)"
        using cs2 hc(3,4) 2 by (simp add: parse_headers_def)
      ultimately show ?thesis by metis
    next
      case 3
      then have "?goal (Some (int (length pre) + 5 + int (blanks (drop 5 h)))) = s2\<lparr>m_host := Some (int (length pre) + 5 + int (blanks (drop 5 h)))\<rparr>"
        by (intro http_conn.equality) (simp_all add: header_length_def len)
      moreover have "parse_headers obj (int (length pre)) d s2 = Inr (NO_REQUEST, d, s2\<lparr>m_host := Some (int (length pre) + 5 + int (blanks (drop 5 h)))\<rparr>)"
        using cs2 hc(3,4) 3 by (simp add: parse_headers_def)
      ultimately show ?thesis by metis
    next
      case 4
      then have "?goal (m_host s2) = s2"
        by (intro http_conn.equality) (simp_all add: header_length_def len)
      moreover have "parse_headers obj (int (length pre)) d s2 = Inr (NO_REQUEST, d, s2)"
        using cs2 hc(3,4) 4 by (simp add: parse_headers_def)
      ultimately show ?thesis by metis
    qed
  qed
  then obtain host where "parse_headers obj (int (length pre)) d s2 =
      Inr (NO_REQUEST, d, s2\<lparr>m_content_length := header_length (m_content_length s) h, m_host := host\<rparr>)" by blast
  moreover have "m_check_state s1 = CHECK_STATE_HEADER" "m_start_line s1 = int (length pre)"
    using st i(2) by (simp_all add: s1_def)
  ultimately have "process_body obj d s1 = Inr (None, LINE_OK, d,
      s2\<lparr>m_content_length := header_length (m_content_length s) h, m_host := host\<rparr>)"
    by (simp add: process_body_def Let_def s2_def)
  with l st have "process_round obj (ls, d, s) = Inr (None, LINE_OK, d,
      s2\<lparr>m_content_length := header_length (m_content_length s) h, m_host := host\<rparr>)"
    by (simp add: process_round_def)
  then show thesis by (intro that [of host]) (simp add: s2_def s1_def)
qed

lemma process_loop_more: "process_round obj st = Inr (None, st') \<Longrightarrow> process_loop obj st = process_loop obj st'"
  by (subst process_loop.simps) simp

lemma process_loop_exit: "process_round obj st = Inr (Some e, ls, d, s) \<Longrightarrow> process_loop obj st = Inr (e, d, s)"
  by (subst process_loop.simps) simp

lemma loop_status_irrelevant:
  "m_check_state s \<noteq> CHECK_STATE_CONTENT \<Longrightarrow> process_loop obj (ls, d, s) = process_loop obj (LINE_OK, d, s)"
  by (subst (1 2) process_loop.simps) (simp add: process_round_def)

lemma headers_loop:
  assumes "m_check_state s = CHECK_STATE_HEADER" "\<forall>h \<in> set hs. header_ok h"
    and "m_read_buf s = pre @ header_bytes hs @ post"
    and "m_checked_idx s = int (length pre)" "m_start_line s = int (length pre)"
    and "int (length pre + length (header_bytes hs)) \<le> m_read_idx s" "m_read_idx s \<le> int (length (m_read_buf s))"
  shows "\<exists>mid host. length mid = length (header_bytes hs) \<and>
    process_loop obj (LINE_OK, d, s) = process_loop obj (LINE_OK, d, s\<lparr>m_read_buf := pre @ mid @ post,
      m_checked_idx := int (length pre + length (header_bytes hs)),
      m_start_line := int (length pre + length (header_bytes hs)),
      m_content_length := foldl header_length (m_content_length s) hs, m_host := host\<rparr>)"
  using assms
proof (induction hs arbitrary: pre s)
  case Nil
  then have "s\<lparr>m_read_buf := pre @ [] @ post, m_checked_idx := int (length pre + length (header_bytes [])),
      m_start_line := int (length pre + length (header_bytes [])),
      m_content_length := foldl header_length (m_content_length s) [], m_host := m_host s\<rparr> = s"
    by (intro http_conn.equality) simp_all
  then show ?case by (intro exI [of _ "[]"] exI [of _ "m_host s"]) simp
next
  case (Cons h hs)
  let ?pre = "pre @ h @ [NUL, NUL]"
  obtain host where r: "process_round obj (LINE_OK, d, s) = Inr (None, LINE_OK, d,
      s\<lparr>m_read_buf := pre @ h @ NUL # NUL # (header_bytes hs @ post), m_checked_idx := int (length pre + length h) + 2,
        m_start_line := int (length pre + length h) + 2,
        m_content_length := header_length (m_content_length s) h, m_host := host\<rparr>)"
    by (rule header_round [of s h pre "header_bytes hs @ post"]) (use Cons.prems in auto)
  define s1 where "s1 = s\<lparr>m_read_buf := ?pre @ header_bytes hs @ post, m_checked_idx := int (length ?pre),
      m_start_line := int (length ?pre), m_content_length := header_length (m_content_length s) h, m_host := host\<rparr>"
  have "process_loop obj (LINE_OK, d, s) = process_loop obj (LINE_OK, d, s1)"
    using process_loop_more [OF r] by (simp add: s1_def add.commute add.left_commute)
  moreover have "\<exists>mid host. length mid = length (header_bytes hs) \<and>
    process_loop obj (LINE_OK, d, s1) = process_loop obj (LINE_OK, d, s1\<lparr>m_read_buf := ?pre @ mid @ post,
      m_checked_idx := int (length ?pre + length (header_bytes hs)),
      m_start_line := int (length ?pre + length (header_bytes hs)),
      m_content_length := foldl header_length (m_content_length s1) hs, m_host := host\<rparr>)"
    by (rule Cons.IH) (use Cons.prems in \<open>simp_all add: s1_def\<close>)
  ultimately obtain mid host' where "length mid = length (header_bytes hs)"
    "process_loop obj (LINE_OK, d, s) = process_loop obj (LINE_OK, d, s1\<lparr>m_read_buf := ?pre @ mid @ post,
      m_checked_idx := int (length ?pre + length (header_bytes hs)),
      m_start_line := int (length ?pre + length (header_bytes hs)),
      m_content_length := foldl header_length (m_content_length s1) hs, m_host := host'\<rparr>)" by auto
  then show ?case
    by (intro exI [of _ "h @ NUL # NUL # mid"] exI [of _ host'])
      (simp add: s1_def add.commute add.left_commute)
qed

text \<open>The empty line that ends the header, and the content.\<close>

lemma header_end_round:
  assumes st: "m_check_state s = CHECK_STATE_HEADER" and buf: "m_read_buf s = pre @ CR # LF # post"
    and i: "m_checked_idx s = int (length pre)" "m_start_line s = int (length pre)"
    and rd: "int (length pre) + 2 \<le> m_read_idx s" "m_read_idx s \<le> int (length (m_read_buf s))"
  shows "process_round obj (ls, d, s) =
    (let s' = s\<lparr>m_read_buf := pre @ NUL # NUL # post, m_checked_idx := int (length pre) + 2, m_start_line := int (length pre) + 2\<rparr>
     in if m_content_length s = 0 then Inr (Some To_Request, LINE_OK, d, s')
        else Inr (None, LINE_OK, d, s'\<lparr>m_check_state := CHECK_STATE_CONTENT\<rparr>))"
proof -
  have l: "parse_line s = Inr (LINE_OK, s\<lparr>m_read_buf := pre @ NUL # NUL # post, m_checked_idx := int (length pre) + 2\<rparr>)"
    using parse_line_crlf [of "[]" s pre post] buf i rd by simp
  have "c_str (pre @ NUL # NUL # post) (int (length pre)) = Inr []"
    using c_str_layout [of "[]" "int (length pre)" pre "NUL # post"] by simp
  with l st i(2) show ?thesis
    by (simp add: process_round_def process_body_def parse_headers_def Let_def)
qed

lemma content_round:
  assumes st: "m_check_state s = CHECK_STATE_CONTENT" and buf: "m_read_buf s = pre @ body @ c # post"
    and i: "m_checked_idx s = int (length pre)" "m_start_line s = int (length pre)"
    and len: "m_content_length s = int (length body)" and rd: "int (length pre + length body) \<le> m_read_idx s"
    and rdb: "m_read_idx s < 2 ^ 63"
  shows "process_round obj (LINE_OK, d, s) =
    Inr (Some To_Request, LINE_OPEN, d, s\<lparr>m_read_buf := pre @ body @ NUL # post, m_string := Some (int (length pre))\<rparr>)"
proof -
  have "char_put (m_read_buf s) (int (length pre) + int (length body)) NUL = Inr (pre @ body @ NUL # post)"
    using char_put_layout(1) [of "int (length pre) + int (length body)" "pre @ body"] by (simp add: buf)
  moreover have "s\<lparr>m_start_line := int (length pre)\<rparr> = s" using i by (intro http_conn.equality) simp_all
  ultimately show ?thesis using st i len rd rdb
    by (simp add: process_round_def process_body_def parse_content_def Let_def add.commute)
qed

section \<open>Requests\<close>

text \<open>The bytes of a request up to its content.\<close>

definition request_bytes :: "string \<Rightarrow> string \<Rightarrow> string list \<Rightarrow> string" where
  "request_bytes meth url hs = meth @ CHR '' '' # url @ '' HTTP/1.1'' @ CRLF @ header_bytes hs @ CRLF"

lemma request_line_round:
  assumes st: "m_check_state s = CHECK_STATE_REQUESTLINE" "m_checked_idx s = 0" "m_start_line s = 0"
    and buf: "m_read_buf s = meth @ CHR '' '' # url @ '' HTTP/1.1'' @ CR # LF # post"
    and rd: "int (length meth + length url) + 12 \<le> m_read_idx s" "m_read_idx s \<le> int (length (m_read_buf s))"
    and url: "url_ok url" and m: "same_nocase meth k" "k = ''GET'' \<or> k = ''POST''"
  obtains row where "length row = length meth + length url + 12"
    "c_str row (int (length meth) + 1) = Inr (served_url url)"
    "process_round obj (ls, d, s) = Inr (None, LINE_OK, d, s\<lparr>m_read_buf := row @ post,
       m_checked_idx := int (length row), m_start_line := int (length row),
       m_url := Some (int (length meth) + 1), m_version := Some (int (length meth) + int (length url) + 2),
       m_method := (if k = ''GET'' then GET else POST), cgi := (if k = ''GET'' then cgi s else 1),
       m_check_state := CHECK_STATE_HEADER\<rparr>)"
proof -
  let ?line = "meth @ CHR '' '' # url @ '' HTTP/1.1''"
  define s1 where "s1 = s\<lparr>m_read_buf := ?line @ NUL # NUL # post, m_checked_idx := int (length ?line) + 2\<rparr>"
  have "plain c" if "c \<in> set meth" for c
    using same_nocase_chars [OF m(1) that] m(2) by (auto simp: plain_def to_lower_def Let_def char_of_def)
  then have pl: "\<forall>c \<in> set ?line. plain c" using url by (auto simp: url_ok_def plain_def)
  have l: "parse_line s = Inr (LINE_OK, s1)"
    using parse_line_crlf [OF pl, of s "[]" post] st buf rd by (simp add: s1_def)
  obtain row where row: "length row = length meth + length url + 12"
    "c_str row (int (length meth) + 1) = Inr (served_url url)"
    "parse_request_line 0 (s1\<lparr>m_start_line := m_checked_idx s1\<rparr>) = Inr (NO_REQUEST,
       (s1\<lparr>m_start_line := m_checked_idx s1\<rparr>)\<lparr>m_read_buf := row @ post,
       m_url := Some (int (length meth) + 1), m_version := Some (int (length meth) + int (length url) + 2),
       m_method := (if k = ''GET'' then GET else POST), cgi := (if k = ''GET'' then cgi s1 else 1),
       m_check_state := CHECK_STATE_HEADER\<rparr>)"
    by (rule request_line_layout [of "s1\<lparr>m_start_line := m_checked_idx s1\<rparr>" "[]" meth url post 0 k])
      (use url m in \<open>auto simp: s1_def\<close>)
  have "m_check_state s1 = CHECK_STATE_REQUESTLINE" "m_start_line s1 = 0" using st by (simp_all add: s1_def)
  with row(3) have "process_body obj d s1 = Inr (None, LINE_OK, d,
      (s1\<lparr>m_start_line := m_checked_idx s1\<rparr>)\<lparr>m_read_buf := row @ post,
       m_url := Some (int (length meth) + 1), m_version := Some (int (length meth) + int (length url) + 2),
       m_method := (if k = ''GET'' then GET else POST), cgi := (if k = ''GET'' then cgi s1 else 1),
       m_check_state := CHECK_STATE_HEADER\<rparr>)"
    by (simp add: process_body_def Let_def)
  moreover have "(s1\<lparr>m_start_line := m_checked_idx s1\<rparr>)\<lparr>m_read_buf := row @ post,
       m_url := Some (int (length meth) + 1), m_version := Some (int (length meth) + int (length url) + 2),
       m_method := (if k = ''GET'' then GET else POST), cgi := (if k = ''GET'' then cgi s1 else 1),
       m_check_state := CHECK_STATE_HEADER\<rparr> =
     s\<lparr>m_read_buf := row @ post, m_checked_idx := int (length row), m_start_line := int (length row),
       m_url := Some (int (length meth) + 1), m_version := Some (int (length meth) + int (length url) + 2),
       m_method := (if k = ''GET'' then GET else POST), cgi := (if k = ''GET'' then cgi s else 1),
       m_check_state := CHECK_STATE_HEADER\<rparr>"
    by (intro http_conn.equality) (simp_all add: s1_def row(1))
  ultimately have "process_round obj (ls, d, s) = Inr (None, LINE_OK, d,
     s\<lparr>m_read_buf := row @ post, m_checked_idx := int (length row), m_start_line := int (length row),
       m_url := Some (int (length meth) + 1), m_version := Some (int (length meth) + int (length url) + 2),
       m_method := (if k = ''GET'' then GET else POST), cgi := (if k = ''GET'' then cgi s else 1),
       m_check_state := CHECK_STATE_HEADER\<rparr>)"
    using l st(1) by (simp add: process_round_def)
  with row(1,2) show thesis by (rule that)
qed

lemma loop_after_header:
  assumes st: "m_check_state s = CHECK_STATE_HEADER" and buf: "m_read_buf s = pre @ CR # LF # body @ post"
    and i: "m_checked_idx s = int (length pre)" "m_start_line s = int (length pre)"
    and len: "0 \<le> m_content_length s" "m_content_length s \<le> int (length body)"
    and rd: "m_read_idx s = int (length pre + length body) + 2" "m_read_idx s < 2 ^ 63"
    and room: "m_content_length s \<noteq> 0 \<longrightarrow> nat (m_content_length s) < length (body @ post)"
  obtains s' where "process_loop obj (LINE_OK, d, s) = Inr (To_Request, d, s')"
    "m_url s' = m_url s" "m_method s' = m_method s" "cgi s' = cgi s" "m_content_length s' = m_content_length s"
    "\<forall>j t. c_str pre j = Inr t \<longrightarrow> c_str (m_read_buf s') j = Inr t"
    "if m_content_length s = 0 then m_string s' = m_string s else \<exists>b. m_string s' = Some b \<and>
      (NUL \<notin> set body \<longrightarrow> c_str (m_read_buf s') b = Inr (take (nat (m_content_length s)) body))"
proof -
  define s1 where "s1 = s\<lparr>m_read_buf := pre @ NUL # NUL # body @ post, m_checked_idx := int (length pre) + 2,
    m_start_line := int (length pre) + 2\<rparr>"
  have le: "int (length pre) + 2 \<le> m_read_idx s" "m_read_idx s \<le> int (length (m_read_buf s))"
    using rd by (simp_all add: buf)
  note round = header_end_round [OF st buf i le, of obj LINE_OK d, unfolded Let_def, folded s1_def]
  show thesis
  proof (cases "m_content_length s = 0")
    case True
    with round have "process_loop obj (LINE_OK, d, s) = Inr (To_Request, d, s1)" by (intro process_loop_exit) simp
    then show thesis by (rule that) (simp_all add: s1_def c_str_append True)
  next
    case False
    define n where "n = nat (m_content_length s)"
    define s2 where "s2 = s1\<lparr>m_check_state := CHECK_STATE_CONTENT\<rparr>"
    let ?pre = "pre @ [NUL, NUL]"
    obtain c rest where split: "body @ post = take n body @ c # rest"
    proof -
      have "n \<le> length body" "n < length (body @ post)" using len room False by (auto simp: n_def)
      moreover from this have "body @ post = take n (body @ post) @ (body @ post) ! n # drop (Suc n) (body @ post)"
        by (intro id_take_nth_drop)
      moreover have "take n (body @ post) = take n body" using calculation(1) by simp
      ultimately have "body @ post = take n body @ (body @ post) ! n # drop (Suc n) (body @ post)" by metis
      then show thesis by (rule that)
    qed
    have tn: "int (length (take n body)) = m_content_length s" using len by (simp add: n_def nat_le_iff min_absorb2)
    define s3 where "s3 = s2\<lparr>m_read_buf := ?pre @ take n body @ NUL # rest, m_string := Some (int (length ?pre))\<rparr>"
    have "process_round obj (LINE_OK, d, s2) = Inr (Some To_Request, LINE_OPEN, d, s3)"
      unfolding s3_def
      by (rule content_round [where c = c]) (use split tn rd len in \<open>simp_all add: s2_def s1_def\<close>)
    then have "process_loop obj (LINE_OK, d, s2) = Inr (To_Request, d, s3)" by (rule process_loop_exit)
    moreover have "process_loop obj (LINE_OK, d, s) = process_loop obj (LINE_OK, d, s2)"
      using round False by (intro process_loop_more) (simp add: s2_def)
    ultimately have loop: "process_loop obj (LINE_OK, d, s) = Inr (To_Request, d, s3)" by simp
    have "c_str (m_read_buf s3) (int (length ?pre)) = Inr (take n body)" if "NUL \<notin> set body"
      using that c_str_layout [of "take n body" "int (length ?pre)" ?pre rest] in_set_takeD [of NUL n body]
      by (auto simp: s3_def)
    with loop show thesis
      by (intro that [of s3]) (simp_all add: s3_def s2_def s1_def c_str_append False n_def)
  qed
qed

text \<open>The request line and the header lines of a request, up to its empty line.\<close>

lemma request_header_read:
  assumes "m_check_state s = CHECK_STATE_REQUESTLINE" "m_checked_idx s = 0" "m_start_line s = 0" "m_content_length s = 0"
    and "m_read_buf s = request_bytes meth url hs @ post"
    and "int (length (request_bytes meth url hs)) \<le> m_read_idx s" "m_read_idx s \<le> int (length (m_read_buf s))"
    and "url_ok url" "same_nocase meth k" "k = ''GET'' \<or> k = ''POST''" "\<forall>h \<in> set hs. header_ok h"
  obtains s2 pre where "process_loop obj (LINE_OK, d, s) = process_loop obj (LINE_OK, d, s2)"
    "m_check_state s2 = CHECK_STATE_HEADER" "m_read_buf s2 = pre @ CR # LF # post"
    "length pre + 2 = length (request_bytes meth url hs)"
    "m_checked_idx s2 = int (length pre)" "m_start_line s2 = int (length pre)" "m_read_idx s2 = m_read_idx s"
    "m_content_length s2 = foldl header_length 0 hs" "m_url s2 = Some (int (length meth) + 1)"
    "c_str pre (int (length meth) + 1) = Inr (served_url url)" "m_string s2 = m_string s"
    "m_method s2 = (if k = ''GET'' then GET else POST)" "cgi s2 = (if k = ''GET'' then cgi s else 1)"
proof -
  let ?post = "CR # LF # post"
  have buf: "m_read_buf s = meth @ CHR '' '' # url @ '' HTTP/1.1'' @ CR # LF # header_bytes hs @ ?post"
    using assms(5) by (simp add: request_bytes_def CRLF_def)
  have len: "length (request_bytes meth url hs) = length meth + length url + length (header_bytes hs) + 14"
    by (simp add: request_bytes_def CRLF_def)
  obtain row where row: "length row = length meth + length url + 12" "c_str row (int (length meth) + 1) = Inr (served_url url)"
    "process_round obj (LINE_OK, d, s) = Inr (None, LINE_OK, d, s\<lparr>m_read_buf := row @ header_bytes hs @ ?post,
       m_checked_idx := int (length row), m_start_line := int (length row),
       m_url := Some (int (length meth) + 1), m_version := Some (int (length meth) + int (length url) + 2),
       m_method := (if k = ''GET'' then GET else POST), cgi := (if k = ''GET'' then cgi s else 1),
       m_check_state := CHECK_STATE_HEADER\<rparr>)"
    by (rule request_line_round [OF assms(1-3) buf _ assms(7-10)]) (use assms(6) len in simp)
  define s1 where "s1 = s\<lparr>m_read_buf := row @ header_bytes hs @ ?post,
       m_checked_idx := int (length row), m_start_line := int (length row),
       m_url := Some (int (length meth) + 1), m_version := Some (int (length meth) + int (length url) + 2),
       m_method := (if k = ''GET'' then GET else POST), cgi := (if k = ''GET'' then cgi s else 1),
       m_check_state := CHECK_STATE_HEADER\<rparr>"
  have "process_loop obj (LINE_OK, d, s) = process_loop obj (LINE_OK, d, s1)"
    using process_loop_more [OF row(3)] by (simp add: s1_def)
  moreover have "\<exists>mid host. length mid = length (header_bytes hs) \<and>
    process_loop obj (LINE_OK, d, s1) = process_loop obj (LINE_OK, d, s1\<lparr>m_read_buf := row @ mid @ ?post,
      m_checked_idx := int (length row + length (header_bytes hs)), m_start_line := int (length row + length (header_bytes hs)),
      m_content_length := foldl header_length (m_content_length s1) hs, m_host := host\<rparr>)"
    by (rule headers_loop) (use assms(6,7,11) len row(1) in \<open>simp_all add: s1_def buf\<close>)
  ultimately obtain mid host where mid: "length mid = length (header_bytes hs)"
    and loop: "process_loop obj (LINE_OK, d, s) = process_loop obj (LINE_OK, d, s1\<lparr>m_read_buf := row @ mid @ ?post,
      m_checked_idx := int (length row + length (header_bytes hs)), m_start_line := int (length row + length (header_bytes hs)),
      m_content_length := foldl header_length (m_content_length s1) hs, m_host := host\<rparr>)" by auto
  show thesis
    by (rule that [OF loop, of "row @ mid"])
      (use mid row len assms(4) c_str_append [OF row(2), of mid] in \<open>simp_all add: s1_def\<close>)
qed

lemma request_read:
  assumes "m_check_state s = CHECK_STATE_REQUESTLINE" "m_checked_idx s = 0" "m_start_line s = 0" "m_content_length s = 0"
    and "m_read_buf s = request_bytes meth url hs @ body @ rest"
    and "m_read_idx s = int (length (request_bytes meth url hs) + length body)" "m_read_idx s < 2 ^ 63"
    and "url_ok url" "same_nocase meth k" "k = ''GET'' \<or> k = ''POST''" "\<forall>h \<in> set hs. header_ok h"
    and "len = foldl header_length 0 hs" "0 \<le> len \<and> len \<le> int (length body)"
    and "len \<noteq> 0 \<longrightarrow> nat len < length (body @ rest)"
  shows "\<exists>s' u. process_loop obj (LINE_OK, True, s) = Inr (To_Request, True, s') \<and>
    m_url s' = Some u \<and> c_str (m_read_buf s') u = Inr (served_url url) \<and>
    m_method s' = (if k = ''GET'' then GET else POST) \<and> cgi s' = (if k = ''GET'' then cgi s else 1) \<and>
    m_content_length s' = len \<and>
    (if len = 0 then m_string s' = m_string s else \<exists>b. m_string s' = Some b \<and>
      (NUL \<notin> set body \<longrightarrow> c_str (m_read_buf s') b = Inr (take (nat len) body)))"
proof -
  have len: "int (length (request_bytes meth url hs)) \<le> m_read_idx s" "m_read_idx s \<le> int (length (m_read_buf s))"
    using assms(5,6) by simp_all
  obtain s2 pre where s2: "process_loop obj (LINE_OK, True, s) = process_loop obj (LINE_OK, True, s2)"
    "m_check_state s2 = CHECK_STATE_HEADER" "m_read_buf s2 = pre @ CR # LF # body @ rest"
    "length pre + 2 = length (request_bytes meth url hs)"
    "m_checked_idx s2 = int (length pre)" "m_start_line s2 = int (length pre)" "m_read_idx s2 = m_read_idx s"
    "m_content_length s2 = foldl header_length 0 hs" "m_url s2 = Some (int (length meth) + 1)"
    "c_str pre (int (length meth) + 1) = Inr (served_url url)" "m_string s2 = m_string s"
    "m_method s2 = (if k = ''GET'' then GET else POST)" "cgi s2 = (if k = ''GET'' then cgi s else 1)"
    by (rule request_header_read [where obj = obj and d = True, OF assms(1-5) len assms(8-11)])
  have cl: "m_content_length s2 = len" using assms(12) s2(8) by simp
  obtain s' where s': "process_loop obj (LINE_OK, True, s2) = Inr (To_Request, True, s')"
    "m_url s' = m_url s2" "m_method s' = m_method s2" "cgi s' = cgi s2" "m_content_length s' = m_content_length s2"
    "\<forall>j t. c_str pre j = Inr t \<longrightarrow> c_str (m_read_buf s') j = Inr t"
    "if m_content_length s2 = 0 then m_string s' = m_string s2 else \<exists>b. m_string s' = Some b \<and>
      (NUL \<notin> set body \<longrightarrow> c_str (m_read_buf s') b = Inr (take (nat (m_content_length s2)) body))"
    by (rule loop_after_header [where obj = obj and d = True, OF s2(2,3,5,6)])
      (use s2(4,7) assms(6,7,13,14) in \<open>simp_all add: cl\<close>)
  show ?thesis using s2(1,9-13) s'(1-4,6) s'(5,7) [unfolded cl]
    by (intro exI [of _ s'] exI [of _ "int (length meth) + 1"]) simp
qed

section \<open>Properties\<close>

text \<open>
  C5. A well-formed request that arrived in full is read in one go, whatever the case of the method,
  the header lines and what follows it in the buffer: the method, the content length of the last
  \<^verbatim>\<open>Content-length\<close> line, the URL (\<^verbatim>\<open>/judge.html\<close> for \<^verbatim>\<open>/\<close>, written over the request line without
  touching the headers) and the content, cut off at its length, are what \<^verbatim>\<open>do_request\<close> finds.
\<close>

theorem request_parsed:
  assumes "m_check_state s = CHECK_STATE_REQUESTLINE" "m_checked_idx s = 0" "m_start_line s = 0" "m_content_length s = 0"
    and "m_read_buf s = request_bytes meth url hs @ body @ rest"
    and "m_read_idx s = int (length (request_bytes meth url hs) + length body)" "m_read_idx s < 2 ^ 63"
    and "url_ok url" "same_nocase meth k" "k = ''GET'' \<or> k = ''POST''" "\<forall>h \<in> set hs. header_ok h"
    and "len = foldl header_length 0 hs" "0 \<le> len \<and> len \<le> int (length body)"
    and "len \<noteq> 0 \<longrightarrow> nat len < length (body @ rest)"
  shows "\<exists>s' u. process_loop obj (LINE_OK, True, s) = Inr (To_Request, True, s') \<and>
    m_url s' = Some u \<and> c_str (m_read_buf s') u = Inr (served_url url) \<and>
    m_method s' = (if k = ''GET'' then GET else POST) \<and> cgi s' = (if k = ''GET'' then cgi s else 1) \<and>
    m_content_length s' = len \<and>
    (if len = 0 then m_string s' = m_string s else \<exists>b. m_string s' = Some b \<and>
      (NUL \<notin> set body \<longrightarrow> c_str (m_read_buf s') b = Inr (take (nat len) body)))"
  by (rule request_read [OF assms])

text \<open>A connection whose buffer holds the given bytes.\<close>

definition demo_conn :: http_conn where
  "demo_conn = init_request \<lparr>m_read_buf = [], m_read_idx = 0, m_checked_idx = 0, m_start_line = 0,
     m_write_buf = [], m_write_idx = 0, m_check_state = CHECK_STATE_REQUESTLINE, m_method = GET,
     m_real_file = [], m_url = None, m_version = None, m_host = None, m_content_length = 0, m_linger = True,
     m_file_address = No_Map, m_file_stat = \<lparr>st_size = 0, st_mode = 0\<rparr>,
     m_iv0 = \<lparr>iov_base = In_Buf 0, iov_len = 0\<rparr>, m_iv1 = \<lparr>iov_base = In_Buf 0, iov_len = 0\<rparr>, m_iv_count = 0,
     cgi = 0, m_string = None, bytes_to_send = 0, bytes_have_send = 0, doc_root = ''/srv'', m_TRIGMode = 0,
     sql_user = replicate 100 NUL, sql_passwd = replicate 100 NUL, sql_name = replicate 100 NUL,
     mysql = None, m_client = 5\<rparr>"

definition demo_received :: "string \<Rightarrow> http_conn" where
  "demo_received bytes = demo_conn\<lparr>m_read_buf := bytes @ replicate 10 NUL, m_read_idx := int (length bytes)\<rparr>"

theorem request_parsed_witness:
  "\<exists>s' u b. process_loop (Some 1) (LINE_OK, True,
      demo_received (request_bytes ''post'' ''/2CGISQL.cgi'' [''Host: a'', ''content-LENGTH: 11''] @ ''user=a&pw=b'')) =
      Inr (To_Request, True, s') \<and> m_url s' = Some u \<and> c_str (m_read_buf s') u = Inr ''/2CGISQL.cgi'' \<and>
    m_string s' = Some b \<and> c_str (m_read_buf s') b = Inr ''user=a&pw=b''"
proof -
  define hs where "hs = [''Host: a'', ''content-LENGTH: 11'']"
  define body where "body = ''user=a&pw=b''"
  define s where "s = demo_received (request_bytes ''post'' ''/2CGISQL.cgi'' hs @ body)"
  have len: "11 = foldl header_length 0 hs" unfolding hs_def by code_simp
  have h: "same_nocase ''post'' ''POST''" "url_ok ''/2CGISQL.cgi''" by code_simp+
  have hs: "\<forall>h \<in> set hs. header_ok h" unfolding hs_def by code_simp
  have body: "length body = 11" "NUL \<notin> set body" "take 11 body = body" by (simp_all add: body_def)
  have rl: "length (request_bytes ''post'' ''/2CGISQL.cgi'' hs) < 2 ^ 10" unfolding hs_def by code_simp
  have st: "m_check_state s = CHECK_STATE_REQUESTLINE" "m_checked_idx s = 0" "m_start_line s = 0" "m_content_length s = 0"
    by (simp_all add: s_def demo_received_def demo_conn_def init_request_def)
  have buf: "m_read_buf s = request_bytes ''post'' ''/2CGISQL.cgi'' hs @ body @ replicate 10 NUL"
    "m_read_idx s = int (length (request_bytes ''post'' ''/2CGISQL.cgi'' hs) + length body)"
    by (simp_all add: s_def demo_received_def)
  have rd: "m_read_idx s < 2 ^ 63" using rl body(1) by (simp add: buf(2))
  have room: "0 \<le> (11 :: int) \<and> (11 :: int) \<le> int (length body)"
    "(11 :: int) \<noteq> 0 \<longrightarrow> nat 11 < length (body @ replicate 10 NUL)" by (simp_all add: body(1))
  have k: "''POST'' = ''GET'' \<or> ''POST'' = ''POST''" by simp
  from request_parsed [OF st buf rd h(2) h(1) k hs len room, of "Some 1"] obtain s' u where
    "process_loop (Some 1) (LINE_OK, True, s) = Inr (To_Request, True, s')" "m_url s' = Some u"
    "c_str (m_read_buf s') u = Inr (served_url ''/2CGISQL.cgi'')"
    "\<exists>b. m_string s' = Some b \<and> (NUL \<notin> set body \<longrightarrow> c_str (m_read_buf s') b = Inr (take (nat 11) body))"
    by auto
  then show ?thesis using body(2,3) by (auto simp: s_def hs_def body_def served_url_def)
qed

section \<open>Requests that arrive in pieces\<close>











text \<open>Parsing leaves the answer side of the connection alone.\<close>

definition keeps :: "http_conn \<Rightarrow> http_conn \<Rightarrow> bool" where
  "keeps s s' \<longleftrightarrow> m_real_file s' = m_real_file s \<and> doc_root s' = doc_root s \<and> m_linger s' = m_linger s \<and>
     m_write_buf s' = m_write_buf s \<and> m_write_idx s' = m_write_idx s \<and> m_client s' = m_client s \<and>
     bytes_have_send s' = bytes_have_send s"

lemma keeps_trans: "keeps s s1 \<Longrightarrow> keeps s1 s2 \<Longrightarrow> keeps s s2"
  by (simp add: keeps_def)

lemma parse_line_keeps: "parse_line s = Inr (ls, s') \<Longrightarrow> keeps s s'"
proof (induction s rule: measure_induct_rule [of "\<lambda>s. nat (m_read_idx s - m_checked_idx s)"])
  case (less s)
  from less.prems show ?case
  proof (cases rule: parse_line_cases)
    case (line i)
    then show ?thesis by (auto simp: keeps_def end_line_def result_bind_Inr_iff)
  next
    case skip
    from less.IH [OF _ skip(2)] skip(1) show ?thesis by (simp add: keeps_def)
  qed (simp add: keeps_def)
qed

lemma request_url_keeps: "request_url s = Inr (r, s') \<Longrightarrow> keeps s s'"
  by (auto simp: keeps_def request_url_def result_bind_Inr_iff split: if_splits option.splits)

lemma request_version_keeps: "request_version s u = Inr (r, s') \<Longrightarrow> keeps s s'"
  by (cases "cut_word (m_read_buf s) u"; cases "projr (cut_word (m_read_buf s) u)")
    (auto simp: keeps_def request_version_def result_bind_Inr_iff Let_def split: if_splits
      dest!: request_url_keeps [unfolded keeps_def])

lemma request_line_keeps: "parse_request_line p s = Inr (r, s') \<Longrightarrow> keeps s s'"
  by (cases "cut_word (m_read_buf s) p"; cases "projr (cut_word (m_read_buf s) p)")
    (auto simp: keeps_def parse_request_line_def result_bind_Inr_iff Let_def split: if_splits
      dest!: request_version_keeps [unfolded keeps_def])

lemma headers_keeps: "parse_headers obj p d s = Inr (r, d', s') \<Longrightarrow> keeps s s'"
  by (auto simp: keeps_def parse_headers_def result_bind_Inr_iff split: if_splits option.splits)

lemma content_keeps: "parse_content p s = Inr (r, s') \<Longrightarrow> keeps s s'"
  by (auto simp: keeps_def parse_content_def result_bind_Inr_iff Let_def split: if_splits)

lemma keeps_start: "keeps (s\<lparr>m_start_line := i\<rparr>) s' \<longleftrightarrow> keeps s s'"
  by (simp add: keeps_def)

lemma process_body_keeps: "process_body obj d s = Inr (e, ls, d', s') \<Longrightarrow> keeps s s'"
  by (cases "m_check_state s")
    (auto simp: process_body_def Let_def result_bind_Inr_iff keeps_start
      dest: request_line_keeps headers_keeps content_keeps)

lemma process_loop_keeps: "process_loop obj st = Inr (e, d', s') \<Longrightarrow> keeps (snd (snd st)) s'"
proof (induction obj st rule: process_loop.induct)
  case (1 obj st)
  obtain ls d s where st: "st = (ls, d, s)" by (cases st) auto
  have round: "keeps s s1" if "process_round obj st = Inr (x, ls1, d1, s1)" for x ls1 d1 s1
    using that by (auto simp: st process_round_def result_bind_Inr_iff split: if_splits
        dest!: process_body_keeps parse_line_keeps intro: keeps_trans)
  from 1(2) obtain x ls1 d1 s1 where r: "process_round obj st = Inr (x, ls1, d1, s1)"
    by (subst (asm) process_loop.simps) (cases "process_round obj st"; auto)
  show ?case
  proof (cases x)
    case None
    with r 1(2) have "process_loop obj (ls1, d1, s1) = Inr (e, d', s')" by (simp add: process_loop_more)
    moreover note 1(1) [OF r] None round [OF r]
    ultimately show ?thesis by (auto simp: st intro: keeps_trans)
  next
    case (Some e')
    with r 1(2) round [OF r] show ?thesis by (auto simp: st dest!: process_loop_exit)
  qed
qed





text \<open>
  A content that fills the read buffer to its last byte is written past: for a request of exactly
  the buffer's size the terminating NUL of \<^verbatim>\<open>parse_content\<close> lands outside the array.
\<close>

theorem full_buffer_content_overflows:
  assumes "m_check_state s = CHECK_STATE_REQUESTLINE" "m_checked_idx s = 0" "m_start_line s = 0" "m_content_length s = 0"
    and "m_read_buf s = request_bytes meth url hs @ body" "m_read_idx s = int (length (m_read_buf s))" "m_read_idx s < 2 ^ 63"
    and "url_ok url" "same_nocase meth k" "k = ''GET'' \<or> k = ''POST''" "\<forall>h \<in> set hs. header_ok h"
    and "foldl header_length 0 hs = int (length body)" "body \<noteq> []"
  shows "process_loop obj (LINE_OK, True, s) = Inl Out_Of_Bounds"
proof -
  have le: "int (length (request_bytes meth url hs)) \<le> m_read_idx s" "m_read_idx s \<le> int (length (m_read_buf s))"
    using assms(5,6) by simp_all
  obtain s2 pre where s2: "process_loop obj (LINE_OK, True, s) = process_loop obj (LINE_OK, True, s2)"
    "m_check_state s2 = CHECK_STATE_HEADER" "m_read_buf s2 = pre @ CR # LF # body"
    "length pre + 2 = length (request_bytes meth url hs)"
    "m_checked_idx s2 = int (length pre)" "m_start_line s2 = int (length pre)" "m_read_idx s2 = m_read_idx s"
    "m_content_length s2 = int (length body)"
    by (rule request_header_read [where obj = obj and d = True, OF assms(1-5) le assms(8-11)]) (use assms(12) in auto)
  define s3 where "s3 = s2\<lparr>m_read_buf := pre @ NUL # NUL # body, m_checked_idx := int (length pre) + 2,
    m_start_line := int (length pre) + 2, m_check_state := CHECK_STATE_CONTENT\<rparr>"
  have rd: "m_read_idx s2 = int (length pre) + 2 + int (length body)"
    using s2(4,7) assms(5,6) by simp
  have "process_round obj (LINE_OK, True, s2) = Inr (None, LINE_OK, True, s3)"
    using header_end_round [OF s2(2,3,5,6), of obj LINE_OK True] rd assms(13) s2(3,8) by (simp add: s3_def Let_def)
  then have "process_loop obj (LINE_OK, True, s2) = process_loop obj (LINE_OK, True, s3)" by (rule process_loop_more)
  moreover have "process_round obj (LINE_OK, True, s3) = Inl Out_Of_Bounds"
    using rd assms(7) s2(7,8)
    by (simp add: process_round_def process_body_def parse_content_def Let_def s3_def char_put_def nat_add_distrib)
  then have "process_loop obj (LINE_OK, True, s3) = Inl Out_Of_Bounds" by (subst process_loop.simps) simp
  ultimately show ?thesis using s2(1) by simp
qed

theorem full_buffer_content_overflows_witness:
  "process_loop (Some 1) (LINE_OK, True, demo_conn\<lparr>
      m_read_buf := request_bytes ''POST'' ''/2'' [''Content-Length: 3''] @ ''abc'',
      m_read_idx := int (length (request_bytes ''POST'' ''/2'' [''Content-Length: 3''] @ ''abc''))\<rparr>) = Inl Out_Of_Bounds"
proof -
  have len: "foldl header_length 0 [''Content-Length: 3''] = int (length ''abc'')" by code_simp
  have h: "url_ok ''/2''" "same_nocase ''POST'' ''POST''" "\<forall>h \<in> set [''Content-Length: 3'']. header_ok h" by code_simp+
  have rl: "length (request_bytes ''POST'' ''/2'' [''Content-Length: 3''] @ ''abc'') < 2 ^ 10" by code_simp
  show ?thesis
    by (rule full_buffer_content_overflows [where k = "''POST''", OF _ _ _ _ _ _ _ h(1,2) _ h(3) len])
      (use rl in \<open>simp_all add: demo_conn_def init_request_def\<close>)
qed

end
