(* ===== verification/Http_Request.thy ===== *)
theory Http_Request
  imports Http_Parser LRU_Cache
begin

text \<open>
  \<^verbatim>\<open>do_request\<close> and \<^verbatim>\<open>process_read\<close> of \<^verbatim>\<open>src/server/http_conn.cpp\<close>: the log-in and registration of
  users against the credential cache and the data base, and the choice of the file to send. The
  answers of the data base and of the file system are arguments.
\<close>

section \<open>What the request is answered from\<close>

text \<open>
  The layout and the next block of the cache's memory pool, the result of \<^verbatim>\<open>mysql_query\<close>, the answer
  of \<^verbatim>\<open>stat\<close> and the mapping \<^verbatim>\<open>open\<close> and \<^verbatim>\<open>mmap\<close> give.
\<close>

record request_env =
  pool_layout :: pool_cfg
  pool_block :: nat
  pool_word :: nat
  query_answer :: int
  stat_of :: "string \<Rightarrow> file_stat option"
  mapping_of :: "string \<Rightarrow> file_address"

type_synonym users_cache = "(string, string, mem_pool) lru_cache"

text \<open>\<^verbatim>\<open>initmysql_result\<close>: every row of the table is pushed, each with the block the pool may ask for.\<close>

fun load_users :: "pool_cfg \<Rightarrow> nat \<Rightarrow> (string \<times> string \<times> nat) list \<Rightarrow> users_cache \<Rightarrow> users_cache result" where
  "load_users c w [] us = Inr us"
| "load_users c w ((name, pw, nb) # rows) us = result_bind (users_push c nb w name pw us) (load_users c w rows)"

section \<open>Accounts\<close>

text \<open>
  Copying from the content up to a character, into an array of 100; the loops test neither the end
  of the content nor that of the array.
\<close>

definition copy_until :: "char \<Rightarrow> string \<Rightarrow> int \<Rightarrow> string result" where
  "copy_until stop buf i =
     (if i < 0 \<or> stop \<notin> set (drop (nat i) buf) then Inl Out_Of_Bounds
      else let w = takeWhile (\<lambda>c. c \<noteq> stop) (drop (nat i) buf) in
        if 100 \<le> length w then Inl Out_Of_Bounds else Inr w)"

text \<open>\<^verbatim>\<open>name\<close> and \<^verbatim>\<open>password\<close> as C strings, from \<^verbatim>\<open>user=\<close>name\<^verbatim>\<open>&password=\<close>password at \<open>b\<close>.\<close>

definition account_fields :: "string \<Rightarrow> int \<Rightarrow> (string \<times> string) result" where
  "account_fields buf b =
     result_bind (copy_until (CHR ''&'') buf (b + 5)) (\<lambda>w.
     result_bind (copy_until NUL buf (b + 5 + int (length w) + 10)) (\<lambda>pw.
     Inr (takeWhile (\<lambda>c. c \<noteq> NUL) w, pw)))"

definition sql_insert :: "string \<Rightarrow> string \<Rightarrow> string" where
  "sql_insert name password =
     ''INSERT INTO user(username, passwd) VALUES('' @ [CHR 0x27] @ name @ [CHR 0x27] @ '', '' @ [CHR 0x27] @ password @ [CHR 0x27] @ '')''"

text \<open>Registration and log-in: the page to show, the cache, and the queries sent.\<close>

definition register_user :: "request_env \<Rightarrow> string \<Rightarrow> string \<Rightarrow> users_cache \<Rightarrow> (string \<times> users_cache \<times> string list) result" where
  "register_user env name password us =
     (if 200 \<le> length (sql_insert name password) then Inl Out_Of_Bounds
      else result_bind (users_get name us) (\<lambda>((found, v), us1).
        if \<not> found then
          result_bind (users_push (pool_layout env) (pool_block env) (pool_word env) name password us1) (\<lambda>us2.
            Inr (if query_answer env = 0 then ''/log.html'' else ''/registerError.html'', us2, [sql_insert name password]))
        else Inr (''/registerError.html'', us1, [])))"

definition login_user :: "string \<Rightarrow> string \<Rightarrow> users_cache \<Rightarrow> (string \<times> users_cache \<times> string list) result" where
  "login_user name password us =
     result_bind (users_get name us) (\<lambda>((found, v), us1).
       Inr (if found \<and> v = password then ''/welcome.html'' else ''/logError.html'', us1, []))"

text \<open>
  The branch of \<^verbatim>\<open>POST\<close> requests whose last path component starts with 2 or 3; \<open>p\<close> is the index of the
  last slash. The first copy goes through a block of 200 characters. \<^verbatim>\<open>m_string\<close> is not set before the
  first content was read.
\<close>

definition account_request :: "request_env \<Rightarrow> int \<Rightarrow> int \<Rightarrow> http_conn \<Rightarrow> users_cache \<Rightarrow>
    (http_conn \<times> users_cache \<times> string list) result" where
  "account_request env u p s us =
     (let len = int (length (doc_root s)) in
      result_bind (c_str (m_read_buf s) (u + 2)) (\<lambda>rest.
      if 200 \<le> length rest + 1 then Inl Out_Of_Bounds
      else result_bind (strncpy (m_real_file s) len (CHR ''/'' # rest) (FILENAME_LEN - len - 1)) (\<lambda>rf.
      case m_string s of
        None \<Rightarrow> Inl Undefined_Behaviour
      | Some b \<Rightarrow>
          result_bind (account_fields (m_read_buf s) b) (\<lambda>(name, password).
          result_bind (char_at (m_read_buf s) (p + 1)) (\<lambda>c.
          result_bind (if c = CHR ''3'' then register_user env name password us
            else login_user name password us) (\<lambda>(page, us1, qs).
          result_bind (strcpy (m_read_buf s) u page) (\<lambda>buf.
          Inr (s\<lparr>m_real_file := rf, m_read_buf := buf\<rparr>, us1, qs))))))))"

section \<open>The file\<close>

text \<open>The pages behind the one-digit names.\<close>

definition page_of :: "char \<Rightarrow> string option" where
  "page_of c =
     (if c = CHR ''0'' then Some ''/register.html''
      else if c = CHR ''1'' then Some ''/log.html''
      else if c = CHR ''5'' then Some ''/picture.html''
      else if c = CHR ''6'' then Some ''/video.html''
      else if c = CHR ''7'' then Some ''/fans.html''
      else None)"

definition choose_file :: "int \<Rightarrow> int \<Rightarrow> http_conn \<Rightarrow> http_conn result" where
  "choose_file u p s =
     (let len = int (length (doc_root s)) in
      result_bind (char_at (m_read_buf s) (p + 1)) (\<lambda>c.
      result_bind
        (case page_of c of
           Some page \<Rightarrow> strncpy (m_real_file s) len page (int (length page))
         | None \<Rightarrow> result_bind (c_str (m_read_buf s) u) (\<lambda>url.
             strncpy (m_real_file s) len url (FILENAME_LEN - len - 1)))
        (\<lambda>rf. Inr (s\<lparr>m_real_file := rf\<rparr>))))"

text \<open>\<^verbatim>\<open>!(st_mode) & S_IROTH\<close> takes the bit of a truth value; \<^verbatim>\<open>S_ISDIR\<close> compares the type bits.\<close>

definition not_readable :: "u32 \<Rightarrow> bool" where
  "not_readable mode \<longleftrightarrow> (if mode = 0 then 1 else 0) AND (4 :: u32) \<noteq> 0"

definition is_directory :: "u32 \<Rightarrow> bool" where
  "is_directory mode \<longleftrightarrow> mode AND 0xF000 = 0x4000"

definition open_file :: "request_env \<Rightarrow> http_conn \<Rightarrow> (http_code \<times> http_conn) result" where
  "open_file env s =
     result_bind (c_str (m_real_file s) 0) (\<lambda>path.
       case stat_of env path of
         None \<Rightarrow> Inr (NO_RESOURCE, s)
       | Some st \<Rightarrow>
           let s1 = s\<lparr>m_file_stat := st\<rparr> in
           if not_readable (st_mode st) then Inr (FORBIDDEN_REQUEST, s1)
           else if is_directory (st_mode st) then Inr (BAD_REQUEST, s1)
           else Inr (FILE_REQUEST, s1\<lparr>m_file_address := mapping_of env path\<rparr>))"

definition do_request :: "request_env \<Rightarrow> int option \<Rightarrow> bool \<Rightarrow> http_conn \<Rightarrow> users_cache \<Rightarrow>
    (http_code \<times> http_conn \<times> users_cache \<times> string list) result" where
  "do_request env obj decide_proxy s us =
     result_bind (proxy_mismatch decide_proxy obj) (\<lambda>bad.
     if bad then Inr (BAD_REQUEST, s, us, [])
     else result_bind (strcpy (m_real_file s) 0 (doc_root s)) (\<lambda>rf.
     case m_url s of
       None \<Rightarrow> Inl Null_Deref
     | Some u \<Rightarrow>
         result_bind (c_str (m_read_buf s) u) (\<lambda>url.
         case find_last (\<lambda>c. c = CHR ''/'') url of
           None \<Rightarrow> Inl Null_Deref
         | Some k \<Rightarrow>
             let p = u + int k; s1 = s\<lparr>m_real_file := rf\<rparr> in
             result_bind (char_at (m_read_buf s) (p + 1)) (\<lambda>c.
             result_bind (if cgi s = 1 \<and> (c = CHR ''2'' \<or> c = CHR ''3'')
               then account_request env u p s1 us else Inr (s1, us, [])) (\<lambda>(s2, us1, qs).
             result_bind (choose_file u p s2) (\<lambda>s3.
             result_bind (open_file env s3) (\<lambda>(code, s4). Inr (code, s4, us1, qs))))))))"

definition process_read :: "request_env \<Rightarrow> int option \<Rightarrow> http_conn \<Rightarrow> users_cache \<Rightarrow>
    (http_code \<times> http_conn \<times> users_cache \<times> string list) result" where
  "process_read env obj s us =
     result_bind (process_loop obj (LINE_OK, True, s)) (\<lambda>(e, decide_proxy, s1).
       case e of
         Exit code \<Rightarrow> Inr (code, s1, us, [])
       | To_Request \<Rightarrow> do_request env obj decide_proxy s1 us
       | Loop_End \<Rightarrow> result_bind (proxy_mismatch decide_proxy obj) (\<lambda>bad.
           Inr (if bad then BAD_REQUEST else NO_REQUEST, s1, us, [])))"

section \<open>The path that is opened\<close>

text \<open>The answer for a path, and the state with the file opened.\<close>

definition serve :: "request_env \<Rightarrow> string \<Rightarrow> http_code" where
  "serve env path =
     (case stat_of env path of None \<Rightarrow> NO_RESOURCE
      | Some st \<Rightarrow> if is_directory (st_mode st) then BAD_REQUEST else FILE_REQUEST)"

definition opened :: "request_env \<Rightarrow> string \<Rightarrow> http_conn \<Rightarrow> http_conn" where
  "opened env path s =
     (case stat_of env path of None \<Rightarrow> s
      | Some st \<Rightarrow> if is_directory (st_mode st) then s\<lparr>m_file_stat := st\<rparr>
          else s\<lparr>m_file_stat := st, m_file_address := mapping_of env path\<rparr>)"

lemma opened_simps [simp]:
  "m_real_file (opened env path s) = m_real_file s" "m_write_buf (opened env path s) = m_write_buf s"
  "m_write_idx (opened env path s) = m_write_idx s" "m_linger (opened env path s) = m_linger s"
  "m_read_buf (opened env path s) = m_read_buf s"
  by (simp_all add: opened_def split: option.splits)

lemma not_readable_never [simp]: "\<not> not_readable mode"
  by (simp add: not_readable_def)

lemma open_file_result:
  "c_str (m_real_file s) 0 = Inr path \<Longrightarrow> open_file env s = Inr (serve env path, opened env path s)"
  by (simp add: open_file_def serve_def opened_def Let_def split: option.splits)

lemma path_copied:
  assumes rf: "length rf = 200" "take L rf = root" "rf ! 199 = NUL" and L: "L = length root" "L \<le> 199"
    and n: "NUL \<notin> set root" "NUL \<notin> set url"
  obtains rf' where "strncpy rf (int L) url (FILENAME_LEN - int L - 1) = Inr rf'" "length rf' = 200"
    "take L rf' = root" "rf' ! 199 = NUL" "c_str rf' 0 = Inr (take 199 (root @ url))"
proof -
  define mid where "mid = take (199 - L) (url @ replicate (199 - L - length url) NUL)"
  have len: "length mid = 199 - L" by (simp add: mid_def)
  have drop: "drop 199 rf = [NUL]" using Cons_nth_drop_Suc [of 199 rf] rf(1,3) by simp
  define rf' where "rf' = root @ mid @ [NUL]"
  have nat_n: "nat (FILENAME_LEN - int L - 1) = 199 - L" "0 \<le> FILENAME_LEN - int L - 1"
    using L by (simp_all add: FILENAME_LEN_def)
  have "strncpy rf (int L) url (FILENAME_LEN - int L - 1) = put_str rf (int L) mid"
    using nat_n by (simp add: strncpy_def mid_def)
  also have "\<dots> = Inr rf'"
    using rf L len drop by (simp add: put_str_def rf'_def)
  finally have res: "strncpy rf (int L) url (FILENAME_LEN - int L - 1) = Inr rf'" .
  have "c_str rf' 0 = Inr (take 199 (root @ url))"
  proof (cases "length url \<le> 199 - L")
    case True
    then have "rf' = [] @ (root @ url) @ NUL # replicate (199 - L - length url) NUL"
      by (simp add: rf'_def mid_def replicate_append_same)
    moreover have "take 199 (root @ url) = root @ url" using True L by simp
    moreover have "NUL \<notin> set (root @ url)" using n by simp
    ultimately show ?thesis using c_str_layout [of "root @ url" 0 "[]"] by simp
  next
    case False
    then have "take 199 (root @ url) = root @ mid" using L by (simp add: mid_def)
    moreover have "NUL \<notin> set (root @ mid)" using n False by (auto simp: mid_def dest: in_set_takeD)
    moreover have "rf' = [] @ (root @ mid) @ NUL # []" by (simp add: rf'_def)
    ultimately show ?thesis using c_str_layout [of "root @ mid" 0 "[]" "[]"] by simp
  qed
  moreover have "length rf' = 200" "take L rf' = root" "rf' ! 199 = NUL"
    using L len by (simp_all add: rf'_def nth_append)
  ultimately show thesis using res that by blast
qed

text \<open>The two ways a file is chosen.\<close>

definition request_path :: "string \<Rightarrow> char \<Rightarrow> string \<Rightarrow> string" where
  "request_path root c url = (case page_of c of Some page \<Rightarrow> root @ page | None \<Rightarrow> take 199 (root @ url))"

lemma page_of_facts:
  "page_of c = Some page \<Longrightarrow> NUL \<notin> set page \<and> length page \<le> 14"
  "page_of c = Some page \<Longrightarrow> c \<noteq> CHR ''2'' \<and> c \<noteq> CHR ''3''"
  by (auto simp: page_of_def split: if_splits)

lemma choose_url:
  assumes "char_at (m_read_buf s) (p + 1) = Inr c" "page_of c = None" "c_str (m_read_buf s) u = Inr url"
    and "length (m_real_file s) = 200" "take (length (doc_root s)) (m_real_file s) = doc_root s" "m_real_file s ! 199 = NUL"
    and "length (doc_root s) \<le> 199" "NUL \<notin> set (doc_root s)"
  obtains rf where "choose_file u p s = Inr (s\<lparr>m_real_file := rf\<rparr>)" "c_str rf 0 = Inr (request_path (doc_root s) c url)"
proof -
  have "NUL \<notin> set url" using assms(3) by (elim c_str_SomeD) simp
  from path_copied [OF assms(4-6) refl assms(7,8) this] obtain rf' where
    "strncpy (m_real_file s) (int (length (doc_root s))) url (FILENAME_LEN - int (length (doc_root s)) - 1) = Inr rf'"
    "c_str rf' 0 = Inr (take 199 (doc_root s @ url))" by metis
  with assms(1-3) show thesis by (intro that [of rf']) (simp_all add: choose_file_def request_path_def Let_def)
qed

lemma choose_page:
  assumes "char_at (m_read_buf s) (p + 1) = Inr c" "page_of c = Some page"
    and "m_real_file s = doc_root s @ replicate (200 - length (doc_root s)) NUL"
    and "length (doc_root s) + 14 < 200" "NUL \<notin> set (doc_root s)"
  obtains rf where "choose_file u p s = Inr (s\<lparr>m_real_file := rf\<rparr>)" "c_str rf 0 = Inr (request_path (doc_root s) c url)"
proof -
  let ?L = "length (doc_root s)"
  note page = page_of_facts(1) [OF assms(2)]
  define rf where "rf = doc_root s @ page @ replicate (200 - ?L - length page) NUL"
  have "replicate (200 - ?L) NUL = replicate (length page) NUL @ replicate (200 - ?L - length page) NUL"
    using assms(4) page by (simp flip: replicate_add)
  then have "put_str (m_real_file s) (int ?L) page = Inr rf"
    unfolding assms(3) rf_def by (simp add: put_str_layout)
  moreover have "strncpy (m_real_file s) (int ?L) page (int (length page)) = put_str (m_real_file s) (int ?L) page"
    by (simp add: strncpy_def)
  ultimately have "choose_file u p s = Inr (s\<lparr>m_real_file := rf\<rparr>)"
    using assms(1,2) by (simp add: choose_file_def Let_def)
  moreover have "c_str rf 0 = Inr (request_path (doc_root s) c url)"
  proof -
    have "rf = [] @ (doc_root s @ page) @ NUL # replicate (199 - ?L - length page) NUL"
    proof -
      have "200 - ?L - length page = Suc (199 - ?L - length page)" using assms(4) page by linarith
      then show ?thesis by (simp add: rf_def)
    qed
    moreover have "NUL \<notin> set (doc_root s @ page)" using assms(5) page by simp
    ultimately show ?thesis using c_str_layout [of "doc_root s @ page" 0 "[]"] assms(2) by (simp add: request_path_def)
  qed
  ultimately show thesis by (rule that)
qed

text \<open>\<^verbatim>\<open>strcpy(m_real_file, doc_root)\<close> over a fresh array.\<close>

lemma root_copied:
  assumes "length root + 14 < 200"
  shows "strcpy (replicate 200 NUL) 0 root = Inr (root @ replicate (200 - length root) NUL)"
proof -
  let ?pad = "replicate (199 - length root) NUL"
  have n: "200 = Suc (length root) + (199 - length root)" "200 - length root = Suc (199 - length root)" using assms by linarith+
  have "put_str ([] @ replicate (Suc (length root)) NUL @ ?pad) 0 (root @ [NUL]) = Inr ([] @ (root @ [NUL]) @ ?pad)"
    by (rule put_str_layout) simp_all
  moreover have "replicate 200 NUL = [] @ replicate (Suc (length root)) NUL @ ?pad"
    by (subst n(1)) (simp only: replicate_add append_Nil)
  ultimately show ?thesis by (simp only: strcpy_def n(2)) simp
qed

text \<open>Where the last path component of the URL starts.\<close>

lemma url_last_component:
  assumes "c_str buf u = Inr (dir @ CHR ''/'' # name)" "CHR ''/'' \<notin> set name"
  shows "find_last (\<lambda>c. c = CHR ''/'') (dir @ CHR ''/'' # name) = Some (length dir)"
    and "char_at buf (u + int (length dir) + 1) = Inr (hd (name @ [NUL]))"
proof -
  show "find_last (\<lambda>c. c = CHR ''/'') (dir @ CHR ''/'' # name) = Some (length dir)"
    using find_last_layout [OF assms(2)] .
  obtain pre post where "buf = pre @ (dir @ CHR ''/'' # name) @ NUL # post" "u = int (length pre)"
    using assms(1) by (elim c_str_SomeD)
  then have "buf = (pre @ dir @ ''/'') @ hd (name @ [NUL]) # tl (name @ [NUL]) @ post"
    "u + int (length dir) + 1 = int (length (pre @ dir @ ''/''))" by (cases name; simp)+
  then show "char_at buf (u + int (length dir) + 1) = Inr (hd (name @ [NUL]))" using char_at_layout(1) by blast
qed

text \<open>A request that is not about an account.\<close>

lemma do_request_file:
  assumes "proxy_mismatch d obj = Inr False" "m_url s = Some u" "c_str (m_read_buf s) u = Inr (dir @ CHR ''/'' # name)"
    and "CHR ''/'' \<notin> set name" "cgi s \<noteq> 1 \<or> hd (name @ [NUL]) \<noteq> CHR ''2'' \<and> hd (name @ [NUL]) \<noteq> CHR ''3''"
    and "m_real_file s = replicate 200 NUL" "length (doc_root s) + 14 < 200" "NUL \<notin> set (doc_root s)"
  obtains rf where "do_request env obj d s us = Inr (serve env (request_path (doc_root s) (hd (name @ [NUL])) (dir @ CHR ''/'' # name)),
      opened env (request_path (doc_root s) (hd (name @ [NUL])) (dir @ CHR ''/'' # name)) (s\<lparr>m_real_file := rf\<rparr>), us, [])"
    "c_str rf 0 = Inr (request_path (doc_root s) (hd (name @ [NUL])) (dir @ CHR ''/'' # name))"
proof -
  let ?c = "hd (name @ [NUL])" and ?url = "dir @ CHR ''/'' # name"
  define s1 where "s1 = s\<lparr>m_real_file := doc_root s @ replicate (200 - length (doc_root s)) NUL\<rparr>"
  note last = url_last_component [OF assms(3,4)]
  have s1: "m_read_buf s1 = m_read_buf s" "doc_root s1 = doc_root s" "length (m_real_file s1) = 200"
    "take (length (doc_root s1)) (m_real_file s1) = doc_root s1" "m_real_file s1 ! 199 = NUL"
    using assms(7) by (simp_all add: s1_def nth_append)
  have "\<exists>rf. choose_file u (u + int (length dir)) s1 = Inr (s1\<lparr>m_real_file := rf\<rparr>) \<and>
      c_str rf 0 = Inr (request_path (doc_root s) ?c ?url)"
  proof (cases "page_of ?c")
    case None
    then show ?thesis
      using choose_url [of s1 "u + int (length dir)" ?c u ?url] last(2) assms(3,7,8) s1 by auto
  next
    case (Some page)
    then show ?thesis
      using choose_page [of s1 "u + int (length dir)" ?c page u ?url] last(2) assms(7,8) s1 by (auto simp: s1_def)
  qed
  then obtain rf where rf: "choose_file u (u + int (length dir)) s1 = Inr (s1\<lparr>m_real_file := rf\<rparr>)"
    "c_str rf 0 = Inr (request_path (doc_root s) ?c ?url)" by blast
  have "do_request env obj d s us = result_bind (open_file env (s1\<lparr>m_real_file := rf\<rparr>)) (\<lambda>(code, s4). Inr (code, s4, us, []))"
    using assms(1-3,5,6) root_copied [OF assms(7)] last rf(1)
    by (auto simp: do_request_def s1_def [symmetric])
  moreover have "s1\<lparr>m_real_file := rf\<rparr> = s\<lparr>m_real_file := rf\<rparr>" by (simp add: s1_def)
  ultimately show thesis using rf(2) open_file_result [of "s\<lparr>m_real_file := rf\<rparr>"]
    by (intro that [of rf]) simp_all
qed

section \<open>Account requests\<close>

lemma c_str_skip: "c_str buf i = Inr (xs @ ys) \<Longrightarrow> c_str buf (i + int (length xs)) = Inr ys"
proof -
  assume "c_str buf i = Inr (xs @ ys)"
  then obtain pre post where "buf = pre @ (xs @ ys) @ NUL # post" "i = int (length pre)" "NUL \<notin> set (xs @ ys)"
    by (rule c_str_SomeD)
  then show ?thesis using c_str_layout [of ys "i + int (length xs)" "pre @ xs" post] by simp
qed

lemma c_str_char: "c_str buf i = Inr (xs @ c # ys) \<Longrightarrow> char_at buf (i + int (length xs)) = Inr c"
proof -
  assume "c_str buf i = Inr (xs @ c # ys)"
  then obtain pre post where "buf = pre @ (xs @ c # ys) @ NUL # post" "i = int (length pre)" by (rule c_str_SomeD)
  then show ?thesis using char_at_layout(1) [of "i + int (length xs)" "pre @ xs" c "ys @ NUL # post"] by simp
qed

lemma strcpy_result:
  assumes "0 \<le> i" "i + int (length s) < int (length buf)" "NUL \<notin> set s"
  obtains buf' where "strcpy buf i s = Inr buf'" "c_str buf' i = Inr s" "length buf' = length buf"
proof -
  let ?b = "take (nat i) buf @ s @ NUL # drop (nat i + Suc (length s)) buf"
  have "strcpy buf i s = Inr ?b" using assms(1,2) by (simp add: strcpy_def put_str_def)
  moreover have "c_str ?b i = Inr s" by (rule c_str_layout [OF assms(3)]) (use assms(1,2) in simp)
  ultimately show thesis using that strcpy_length by blast
qed

lemma copy_until_layout:
  assumes "buf = pre @ w @ stop # post" "i = int (length pre)" "stop \<notin> set w" "length w < 100"
  shows "copy_until stop buf i = Inr w"
  using assms by (simp add: copy_until_def takeWhile_append Let_def)

lemma account_fields_layout:
  assumes "c_str buf b = Inr (''user='' @ name @ ''&password='' @ pw)" "CHR ''&'' \<notin> set name"
    and "length name < 100" "length pw < 100"
  shows "account_fields buf b = Inr (name, pw)"
proof -
  from assms(1) obtain pre post where buf: "buf = pre @ (''user='' @ name @ ''&password='' @ pw) @ NUL # post"
    and b: "b = int (length pre)" and n: "NUL \<notin> set name" "NUL \<notin> set pw" by (elim c_str_SomeD) auto
  have "copy_until (CHR ''&'') buf (b + 5) = Inr name"
    by (rule copy_until_layout [of _ "pre @ ''user=''" _ _ "''password='' @ pw @ NUL # post"])
      (use assms(2,3) in \<open>simp_all add: buf b\<close>)
  moreover have "copy_until NUL buf (b + 5 + int (length name) + 10) = Inr pw"
    by (rule copy_until_layout [of _ "pre @ ''user='' @ name @ ''&password=''" _ _ post])
      (use n(2) assms(4) in \<open>simp_all add: buf b\<close>)
  moreover have "takeWhile (\<lambda>c. c \<noteq> NUL) name = name" using n(1) by (auto simp: takeWhile_eq_all_conv)
  ultimately show ?thesis by (simp add: account_fields_def)
qed

definition account_pages :: "string set" where
  "account_pages = {''/welcome.html'', ''/logError.html'', ''/log.html'', ''/registerError.html''}"

lemma account_page_shape:
  "page \<in> account_pages \<Longrightarrow> \<exists>c tl. page = CHR ''/'' # c # tl \<and> page_of c = None \<and> NUL \<notin> set page \<and> length page \<le> 19"
  unfolding account_pages_def by (elim insertE emptyE) (simp_all add: page_of_def)

lemma do_request_account:
  assumes "proxy_mismatch d obj = Inr False" "m_url s = Some u" "c_str (m_read_buf s) u = Inr (CHR ''/'' # c # tail)"
    and "CHR ''/'' \<notin> set (c # tail)" "c = CHR ''2'' \<or> c = CHR ''3''" "length tail < 199" "cgi s = 1"
    and "m_string s = Some b" "account_fields (m_read_buf s) b = Inr (name, pw)"
    and acct: "(if c = CHR ''3'' then register_user env name pw us else login_user name pw us) = Inr (page, us1, qs)"
    and page: "page \<in> account_pages" "u + int (length page) < int (length (m_read_buf s))"
    and rf: "m_real_file s = replicate 200 NUL" "length (doc_root s) + 14 < 200" "NUL \<notin> set (doc_root s)"
  obtains s' where "do_request env obj d s us = Inr (serve env (take 199 (doc_root s @ page)), s', us1, qs)"
    "c_str (m_real_file s') 0 = Inr (take 199 (doc_root s @ page))"
proof -
  define L where "L = length (doc_root s)"
  define s1 where "s1 = s\<lparr>m_real_file := doc_root s @ replicate (200 - L) NUL\<rparr>"
  have n: "NUL \<notin> set tail" "NUL \<noteq> c" "0 \<le> u" using assms(3) by (auto elim!: c_str_SomeD)
  have rest: "c_str (m_read_buf s) (u + 2) = Inr tail" using c_str_skip [of _ u "[CHR ''/'', c]" tail] assms(3) by simp
  have pc: "char_at (m_read_buf s) (u + 1) = Inr c" using c_str_char [of _ u "''/''" c tail] assms(3) by simp
  have f1: "length (m_real_file s1) = 200" "take L (m_real_file s1) = doc_root s" "m_real_file s1 ! 199 = NUL" "L \<le> 199"
    using rf(2) by (simp_all add: s1_def L_def nth_append)
  have nt: "NUL \<notin> set (CHR ''/'' # tail)" using n by simp
  obtain rf1 where rf1: "strncpy (m_real_file s1) (int L) (CHR ''/'' # tail) (FILENAME_LEN - int L - 1) = Inr rf1"
    "length rf1 = 200" "take L rf1 = doc_root s" "rf1 ! 199 = NUL"
    using path_copied [OF f1(1-3) L_def f1(4) rf(3) nt] by metis
  obtain pc' tl where sh: "page = CHR ''/'' # pc' # tl" "page_of pc' = None" "NUL \<notin> set page"
    using account_page_shape [OF page(1)] by blast
  obtain buf' where buf': "strcpy (m_read_buf s) u page = Inr buf'" "c_str buf' u = Inr page"
    using strcpy_result [OF n(3) page(2) sh(3)] by metis
  define s2 where "s2 = s1\<lparr>m_real_file := rf1, m_read_buf := buf'\<rparr>"
  have acc: "account_request env u u s1 us = Inr (s2, us1, qs)"
    using rest assms(6,8,9) rf1(1) pc acct buf'(1)
    by (simp add: account_request_def s2_def s1_def Let_def L_def)
  have c2: "char_at (m_read_buf s2) (u + 1) = Inr pc'" using c_str_char [of buf' u "''/''" pc' tl] buf'(2) sh(1) by (simp add: s2_def)
  have u2: "c_str (m_read_buf s2) u = Inr page" using buf'(2) by (simp add: s2_def)
  have f2: "length (m_real_file s2) = 200" "take (length (doc_root s2)) (m_real_file s2) = doc_root s2" "m_real_file s2 ! 199 = NUL"
    "length (doc_root s2) \<le> 199" "NUL \<notin> set (doc_root s2)"
    using rf1(2-4) f1(4) rf(3) by (simp_all add: s2_def s1_def L_def)
  obtain rf2 where rf2: "choose_file u u s2 = Inr (s2\<lparr>m_real_file := rf2\<rparr>)"
    "c_str rf2 0 = Inr (take 199 (doc_root s @ page))"
    using choose_url [OF c2 sh(2) u2 f2] sh(2) by (auto simp: request_path_def s2_def s1_def)
  have fl: "find_last (\<lambda>c. c = CHR ''/'') (CHR ''/'' # c # tail) = Some 0"
    using find_last_layout [OF assms(4), of "[]"] by simp
  have "do_request env obj d s us = result_bind (open_file env (s2\<lparr>m_real_file := rf2\<rparr>)) (\<lambda>(code, s4). Inr (code, s4, us1, qs))"
    using assms(1-3,5,7) root_copied [OF rf(2)] rf(1) fl pc acc rf2(1)
    by (auto simp: do_request_def s1_def [unfolded L_def, symmetric] Let_def)
  with rf2(2) open_file_result [of "s2\<lparr>m_real_file := rf2\<rparr>"] show thesis
    by (intro that [of "opened env (take 199 (doc_root s @ page)) (s2\<lparr>m_real_file := rf2\<rparr>)"]) simp_all
qed

text \<open>The cache behind a log-in and a registration.\<close>

lemma users_get_alloc:
  assumes "users_get k us = Inr (r, us')"
  shows "alloc_state us' = alloc_state us"
  using assms by (auto simp: users_get_def lru_get_def lru_touch_def result_bind_Inr_iff Let_def split: option.splits)

lemma login_result:
  assumes "users_inv c us"
  obtains us' where "login_user name pw us =
      Inr (if map_of (lru_abs us) name = Some pw then ''/welcome.html'' else ''/logError.html'', us', [])"
    "lru_abs us' = snd (spec_get [] name (lru_abs us))" "users_inv c us'"
proof -
  have inv: "lru_inv (pool_live c) us" using assms by (simp add: users_inv_def)
  obtain r us' where g: "users_get name us = Inr (r, us')" "lru_inv (pool_live c) us'"
    "(r, lru_abs us') = spec_get [] name (lru_abs us)" by (rule users_getE [OF inv])
  have "length (lru_abs us') = length (lru_abs us)"
  proof (cases "map_of (lru_abs us) name")
    case None
    with g(3) have "lru_abs us' = lru_abs us" by (simp add: spec_get_def)
    then show ?thesis by (rule arg_cong)
  next
    case (Some v)
    then have "name \<in> fst ` set (lru_abs us)" by (metis domI dom_map_of_conv_image_fst)
    moreover from Some g(3) have "lru_abs us' = (name, v) # filter (\<lambda>e. fst e \<noteq> name) (lru_abs us)"
      by (simp add: spec_get_def)
    then have "length (lru_abs us') = Suc (length (filter (\<lambda>e. fst e \<noteq> name) (lru_abs us)))"
      by (metis length_Cons)
    ultimately show ?thesis using length_filter_neq_distinct [OF lru_inv_abs_distinct [OF inv]] by metis
  qed
  then have "users_inv c us'" using assms g(2) by (simp add: users_inv_def lru_abs_def)
  moreover have "r = (case map_of (lru_abs us) name of None \<Rightarrow> (False, []) | Some v \<Rightarrow> (True, v))"
    using g(3) by (auto simp: spec_get_def split: option.splits)
  then have "login_user name pw us =
      Inr (if map_of (lru_abs us) name = Some pw then ''/welcome.html'' else ''/logError.html'', us', [])"
    using g(1) by (auto simp: login_user_def split: option.splits)
  moreover have "lru_abs us' = snd (spec_get [] name (lru_abs us))" using g(3) by (metis snd_conv)
  ultimately show thesis using that by blast
qed

lemma get_request_result:
  assumes "m_check_state s = CHECK_STATE_REQUESTLINE" "m_checked_idx s = 0" "m_start_line s = 0" "m_content_length s = 0"
    and "m_read_buf s = request_bytes ''GET'' url hs @ rest" "m_read_idx s = int (length (request_bytes ''GET'' url hs))"
      "m_read_idx s < 2 ^ 63"
    and "url_ok url" "\<forall>h \<in> set hs. header_ok h" "foldl header_length 0 hs = 0" "cgi s = 0"
    and "served_url url = dir @ CHR ''/'' # name" "CHR ''/'' \<notin> set name"
    and "m_real_file s = replicate 200 NUL" "length (doc_root s) + 14 < 200" "NUL \<notin> set (doc_root s)"
  shows "\<exists>s'. let path = request_path (doc_root s) (hd (name @ [NUL])) (served_url url) in
    process_read env (Some 1) s us = Inr (serve env path, s', us, []) \<and> c_str (m_real_file s') 0 = Inr path \<and>
    (serve env path = FILE_REQUEST \<longrightarrow> m_file_address s' = mapping_of env path \<and> stat_of env path = Some (m_file_stat s')) \<and>
    keeps s (s'\<lparr>m_real_file := m_real_file s\<rparr>)"
proof -
  have get: "same_nocase ''GET'' ''GET''" "''GET'' = ''GET'' \<or> ''GET'' = ''POST''" by simp_all
  have buf: "m_read_buf s = request_bytes ''GET'' url hs @ [] @ rest"
    "m_read_idx s = int (length (request_bytes ''GET'' url hs) + length [])"
    using assms(5,6) by simp_all
  have len: "0 = foldl header_length 0 hs" "0 \<le> (0 :: int) \<and> (0 :: int) \<le> int (length [])"
    "(0 :: int) \<noteq> 0 \<longrightarrow> nat 0 < length ([] @ rest)" using assms(10) by simp_all
  from request_read [OF assms(1-4) buf assms(7,8) get assms(9) len, of "Some 1"] obtain s1 u where
    loop: "process_loop (Some 1) (LINE_OK, True, s) = Inr (To_Request, True, s1)" and u: "m_url s1 = Some u"
    "c_str (m_read_buf s1) u = Inr (dir @ CHR ''/'' # name)" "cgi s1 = 0"
    using assms(11,12) by auto
  have k: "doc_root s1 = doc_root s" "m_real_file s1 = m_real_file s" "keeps s s1"
    using process_loop_keeps [OF loop] by (simp_all add: keeps_def)
  have proxy: "proxy_mismatch True (Some 1) = Inr False" by (simp add: proxy_mismatch_def)
  have plain: "cgi s1 \<noteq> 1 \<or> hd (name @ [NUL]) \<noteq> CHR ''2'' \<and> hd (name @ [NUL]) \<noteq> CHR ''3''" using u(3) by simp
  obtain rf where rf: "do_request env (Some 1) True s1 us =
      Inr (serve env (request_path (doc_root s1) (hd (name @ [NUL])) (dir @ CHR ''/'' # name)),
        opened env (request_path (doc_root s1) (hd (name @ [NUL])) (dir @ CHR ''/'' # name)) (s1\<lparr>m_real_file := rf\<rparr>), us, [])"
    "c_str rf 0 = Inr (request_path (doc_root s1) (hd (name @ [NUL])) (dir @ CHR ''/'' # name))"
    by (rule do_request_file [OF proxy u(1,2) assms(13) plain]) (use k assms(14-16) in simp_all)
  with loop k assms(12) show ?thesis
    by (auto simp: process_read_def Let_def opened_def serve_def keeps_def split: option.splits)
qed

section \<open>Properties\<close>

text \<open>
  C14. From bytes to file: a complete \<^verbatim>\<open>GET\<close> request on a fresh connection (without proxy mode) opens
  exactly one path, and its answer is the file system's: the root joined with the page of a one-digit
  name, or with the URL as it was sent, cut at 199 characters. No part of the URL is looked at again,
  so \<^verbatim>\<open>..\<close> in it reaches the file system.
\<close>

theorem get_request_served:
  assumes "m_check_state s = CHECK_STATE_REQUESTLINE" "m_checked_idx s = 0" "m_start_line s = 0" "m_content_length s = 0"
    and "m_read_buf s = request_bytes ''GET'' url hs @ rest" "m_read_idx s = int (length (request_bytes ''GET'' url hs))"
      "m_read_idx s < 2 ^ 63"
    and "url_ok url" "\<forall>h \<in> set hs. header_ok h" "foldl header_length 0 hs = 0" "cgi s = 0"
    and "served_url url = dir @ CHR ''/'' # name" "CHR ''/'' \<notin> set name"
    and "m_real_file s = replicate 200 NUL" "length (doc_root s) + 14 < 200" "NUL \<notin> set (doc_root s)"
  shows "\<exists>s'. let path = request_path (doc_root s) (hd (name @ [NUL])) (served_url url) in
    process_read env (Some 1) s us = Inr (serve env path, s', us, []) \<and> c_str (m_real_file s') 0 = Inr path \<and>
    (serve env path = FILE_REQUEST \<longrightarrow> m_file_address s' = mapping_of env path \<and> stat_of env path = Some (m_file_stat s'))"
  using get_request_result [OF assms, of env us] unfolding Let_def by blast

definition demo_env :: request_env where
  "demo_env = \<lparr>pool_layout = demo_cfg, pool_block = 4096, pool_word = 7, query_answer = 1,
     stat_of = (\<lambda>path. if path = ''/srv/video.html'' then Some \<lparr>st_size = 2, st_mode = 0x81A4\<rparr> else None),
     mapping_of = (\<lambda>path. Mapped ''hi'')\<rparr>"

theorem get_request_served_witness:
  "\<exists>s'. process_read demo_env (Some 1) (demo_received (request_bytes ''GET'' ''/6'' [''Host: a''])) demo_cache =
      Inr (FILE_REQUEST, s', demo_cache, []) \<and> c_str (m_real_file s') 0 = Inr ''/srv/video.html'' \<and>
      m_file_address s' = Mapped ''hi''"
proof -
  define s where "s = demo_received (request_bytes ''GET'' ''/6'' [''Host: a''])"
  have st: "m_check_state s = CHECK_STATE_REQUESTLINE" "m_checked_idx s = 0" "m_start_line s = 0" "m_content_length s = 0"
    "cgi s = 0" "doc_root s = ''/srv''" "m_real_file s = replicate 200 NUL"
    by (simp_all add: s_def demo_received_def demo_conn_def init_request_def FILENAME_LEN_def)
  have buf: "m_read_buf s = request_bytes ''GET'' ''/6'' [''Host: a''] @ replicate 10 NUL"
    "m_read_idx s = int (length (request_bytes ''GET'' ''/6'' [''Host: a'']))"
    by (simp_all add: s_def demo_received_def)
  have "length (request_bytes ''GET'' ''/6'' [''Host: a'']) < 2 ^ 10" by code_simp
  then have rd: "m_read_idx s < 2 ^ 63" by (simp add: buf(2))
  have h: "url_ok ''/6''" "\<forall>h \<in> set [''Host: a'']. header_ok h" "foldl header_length 0 [''Host: a''] = 0" by code_simp+
  have u: "served_url ''/6'' = [] @ CHR ''/'' # ''6''" "CHR ''/'' \<notin> set ''6''" by (simp_all add: served_url_def)
  have r: "length (doc_root s) + 14 < 200" "NUL \<notin> set (doc_root s)" by (simp_all add: st)
  have "request_path (doc_root s) (hd (''6'' @ [NUL])) (served_url ''/6'') = ''/srv/video.html''"
    by (simp add: request_path_def page_of_def st(6))
  moreover have "serve demo_env ''/srv/video.html'' = FILE_REQUEST" "mapping_of demo_env ''/srv/video.html'' = Mapped ''hi''"
    by (simp_all add: serve_def demo_env_def is_directory_def)
  ultimately show ?thesis
    using get_request_served [OF st(1-4) buf rd h st(5) u st(7) r, of demo_env demo_cache]
    unfolding s_def [symmetric] by (metis (no_types, lifting))
qed

text \<open>
  C15. Logging in: for a \<^verbatim>\<open>POST\<close> to a page named 2..., the welcome page is opened exactly when the
  cache holds the name with this very password, and the page of a failed log-in otherwise; no query
  is sent, no entry changes, and the name becomes the most recently used one.
\<close>

theorem login_needs_password:
  assumes "proxy_mismatch d obj = Inr False" "m_url s = Some u" "c_str (m_read_buf s) u = Inr (''/2'' @ tail)"
    and "CHR ''/'' \<notin> set tail" "length tail < 199" "cgi s = 1" "m_string s = Some b"
    and "c_str (m_read_buf s) b = Inr (''user='' @ name @ ''&password='' @ pw)" "CHR ''&'' \<notin> set name"
    and "length name < 100" "length pw < 100" "u + 14 < int (length (m_read_buf s))"
    and "m_real_file s = replicate 200 NUL" "length (doc_root s) + 14 < 200" "NUL \<notin> set (doc_root s)" "users_inv c us"
  shows "\<exists>s' us'. let page = if map_of (lru_abs us) name = Some pw then ''/welcome.html'' else ''/logError.html'';
      path = take 199 (doc_root s @ page) in
    do_request env obj d s us = Inr (serve env path, s', us', []) \<and> c_str (m_real_file s') 0 = Inr path \<and>
    lru_abs us' = snd (spec_get [] name (lru_abs us)) \<and> users_inv c us'"
proof -
  define page where "page = (if map_of (lru_abs us) name = Some pw then ''/welcome.html'' else ''/logError.html'')"
  obtain us' where us': "login_user name pw us = Inr (page, us', [])"
    "lru_abs us' = snd (spec_get [] name (lru_abs us))" "users_inv c us'"
    unfolding page_def by (rule login_result [OF assms(16)])
  have url: "c_str (m_read_buf s) u = Inr (CHR ''/'' # CHR ''2'' # tail)" "CHR ''/'' \<notin> set (CHR ''2'' # tail)"
    using assms(3,4) by simp_all
  have page: "page \<in> account_pages" "u + int (length page) < int (length (m_read_buf s))"
    using assms(12) by (simp_all add: page_def account_pages_def)
  have acct: "(if CHR ''2'' = CHR ''3'' then register_user env name pw us else login_user name pw us) = Inr (page, us', [])"
    using us'(1) by simp
  obtain s' where "do_request env obj d s us = Inr (serve env (take 199 (doc_root s @ page)), s', us', [])"
    "c_str (m_real_file s') 0 = Inr (take 199 (doc_root s @ page))"
    by (rule do_request_account [OF assms(1,2) url _ assms(5-7) account_fields_layout [OF assms(8-11)] acct page assms(13-15)])
      simp_all
  with us'(2,3) show ?thesis unfolding page_def [symmetric] Let_def by blast
qed

text \<open>A log-in request of \<^verbatim>\<open>ann\<close> with the wrong password, as the parser leaves it.\<close>

definition demo_login :: http_conn where
  "demo_login = demo_conn\<lparr>m_read_buf := ''/2CGISQL.cgi'' @ [NUL] @ ''user=ann&password=x'' @ replicate 20 NUL,
     m_url := Some 0, m_string := Some 13, cgi := 1\<rparr>"

theorem login_needs_password_witness:
  "\<exists>code s' us'. do_request demo_env (Some 1) True demo_login demo_cache = Inr (code, s', us', []) \<and>
     c_str (m_real_file s') 0 = Inr ''/srv/logError.html''"
proof -
  have proxy: "proxy_mismatch True (Some 1) = Inr False" by (simp add: proxy_mismatch_def)
  have b: "m_read_buf demo_login = [] @ (''/2'' @ ''CGISQL.cgi'') @ NUL # (''user=ann&password=x'' @ replicate 20 NUL)"
    "m_read_buf demo_login = (''/2CGISQL.cgi'' @ [NUL]) @ (''user='' @ ''ann'' @ ''&password='' @ ''x'') @ NUL # replicate 19 NUL"
    by (simp_all add: demo_login_def numeral_eq_Suc)
  have url: "c_str (m_read_buf demo_login) 0 = Inr (''/2'' @ ''CGISQL.cgi'')"
    unfolding b(1) by (rule c_str_layout) simp_all
  have content: "c_str (m_read_buf demo_login) 13 = Inr (''user='' @ ''ann'' @ ''&password='' @ ''x'')"
    unfolding b(2) by (rule c_str_layout) simp_all
  have m: "m_url demo_login = Some 0" "m_string demo_login = Some 13" "cgi demo_login = 1" "doc_root demo_login = ''/srv''"
    "m_real_file demo_login = replicate 200 NUL" "0 + 14 < int (length (m_read_buf demo_login))"
    by (simp_all add: demo_login_def demo_conn_def init_request_def FILENAME_LEN_def)
  have r: "length (doc_root demo_login) + 14 < 200" "NUL \<notin> set (doc_root demo_login)" by (simp_all add: m(4))
  have t: "CHR ''/'' \<notin> set ''CGISQL.cgi''" "length ''CGISQL.cgi'' < 199" "CHR ''&'' \<notin> set ''ann''"
    "length ''ann'' < 100" "length ''x'' < 100" by simp_all
  have "map_of (lru_abs demo_cache) ''ann'' \<noteq> Some ''x''" by (simp add: demo_cache_ok(4))
  with login_needs_password [OF proxy m(1) url t(1,2) m(3,2) content t(3-5) m(6,5) r demo_cache_ok(1), of demo_env]
  show ?thesis by (auto simp: m(4) Let_def)
qed

text \<open>
  Registering a name that is not in the cache sends exactly one \<^verbatim>\<open>INSERT\<close> and shows the log-in
  page when the data base took it; a name in the cache is refused without a query. But the pair
  enters the cache whatever the data base answered: after a refused \<^verbatim>\<open>INSERT\<close> the error page is shown and
  the account works all the same.
\<close>

theorem register_caches_always:
  assumes "users_inv c us" "pool_layout env = c" "block_fresh c (pool_block env) (alloc_state us)"
    and "lru_capacity us \<noteq> 0 \<or> my_list us \<noteq> []" "length (sql_insert name pw) < 200"
  shows "if map_of (lru_abs us) name \<noteq> None
    then \<exists>us'. register_user env name pw us = Inr (''/registerError.html'', us', []) \<and>
      lru_abs us' = snd (spec_get [] name (lru_abs us))
    else \<exists>us' us''. register_user env name pw us =
        Inr (if query_answer env = 0 then ''/log.html'' else ''/registerError.html'', us', [sql_insert name pw]) \<and>
      lru_abs us' = spec_push (lru_capacity us) name pw (lru_abs us) \<and>
      login_user name pw us' = Inr (''/welcome.html'', us'', [])"
proof -
  have inv: "lru_inv (pool_live c) us" using assms(1) by (simp add: users_inv_def)
  obtain r us1 where g: "users_get name us = Inr (r, us1)" "lru_inv (pool_live c) us1"
    "(r, lru_abs us1) = spec_get [] name (lru_abs us)" "lru_capacity us1 = lru_capacity us" by (rule users_getE [OF inv])
  show ?thesis
  proof (cases "map_of (lru_abs us) name")
    case (Some v)
    with g(1,3) assms(5) show ?thesis by (auto simp: register_user_def spec_get_def)
  next
    case None
    then have r: "r = (False, [])" "lru_abs us1 = lru_abs us" using g(3) by (simp_all add: spec_get_def)
    have len: "length (my_list us1) = length (my_list us)"
      using r(2) unfolding lru_abs_def by (metis length_map)
    have inv1: "users_inv c us1" "block_fresh c (pool_block env) (alloc_state us1)" "lru_capacity us1 \<noteq> 0 \<or> my_list us1 \<noteq> []"
      using assms(1,3,4) g(2,4) len users_get_alloc [OF g(1)] by (auto simp: users_inv_def)
    obtain us2 where us2: "users_push c (pool_block env) (pool_word env) name pw us1 = Inr us2" "lru_inv (pool_live c) us2"
      "lru_abs us2 = spec_push (lru_capacity us) name pw (lru_abs us)"
      using users_pushE [OF inv1, of "pool_word env" name pw] g(4) r(2) by metis
    have "map_of (lru_abs us2) name = Some pw" by (simp add: us2(3) spec_push_def)
    moreover obtain r2 us3 where g2: "users_get name us2 = Inr (r2, us3)" "(r2, lru_abs us3) = spec_get [] name (lru_abs us2)"
      by (rule users_getE [OF us2(2)])
    ultimately have "login_user name pw us2 = Inr (''/welcome.html'', us3, [])"
      by (auto simp: login_user_def spec_get_def)
    moreover have "register_user env name pw us = Inr (if query_answer env = 0 then ''/log.html'' else ''/registerError.html'',
        us2, [sql_insert name pw])"
      using g(1) r(1) us2(1) assms(2,5) by (simp add: register_user_def)
    ultimately show ?thesis using None us2(3) by simp
  qed
qed

theorem register_caches_always_witness:
  "query_answer demo_env = 1 \<and> (\<exists>us' us''. register_user demo_env ''ann'' ''pw'' demo_cache =
       Inr (''/registerError.html'', us', [sql_insert ''ann'' ''pw'']) \<and>
     login_user ''ann'' ''pw'' us' = Inr (''/welcome.html'', us'', []))"
proof -
  have "length (sql_insert ''ann'' ''pw'') < 200" by (simp add: sql_insert_def)
  moreover have "pool_layout demo_env = demo_cfg" "pool_block demo_env = 4096" "query_answer demo_env = 1"
    by (simp_all add: demo_env_def)
  moreover have "lru_capacity demo_cache \<noteq> 0 \<or> my_list demo_cache \<noteq> []" by (simp add: demo_cache_ok)
  ultimately show ?thesis
    using register_caches_always [OF demo_cache_ok(1), of demo_env "''ann''" "''pw''"] demo_cache_ok(2,4) by auto
qed

end
