(* ===== verification/Http_Response.thy ===== *)
theory Http_Response
  imports Http_Request
begin

text \<open>
  The answer side of \<^verbatim>\<open>src/server/http_conn.cpp\<close>: \<^verbatim>\<open>add_response\<close> and the functions on it,
  \<^verbatim>\<open>process_write\<close>, \<^verbatim>\<open>write\<close> and \<^verbatim>\<open>process\<close>, and the loop of \<^verbatim>\<open>http_server::handleClient\<close>
  (\<^verbatim>\<open>src/server/http_server.cpp\<close>). What \<^verbatim>\<open>writev\<close> answers is an argument; the bytes that went out are
  kept as the wire.
\<close>

section \<open>Building the answer\<close>

text \<open>
  \<^verbatim>\<open>add_response\<close> with the text its format and arguments give: \<^verbatim>\<open>vsnprintf\<close> writes what fits and a NUL.
\<close>

definition add_response :: "string \<Rightarrow> http_conn \<Rightarrow> (bool \<times> http_conn) result" where
  "add_response t s =
     (if WRITE_BUFFER_SIZE \<le> m_write_idx s then Inr (False, s)
      else let size = WRITE_BUFFER_SIZE - 1 - m_write_idx s in
        result_bind (if size = 0 then Inr (m_write_buf s)
          else put_str (m_write_buf s) (m_write_idx s) (take (nat (size - 1)) t @ [NUL])) (\<lambda>b.
        if size \<le> int (length t) then Inr (False, s\<lparr>m_write_buf := b\<rparr>)
        else Inr (True, s\<lparr>m_write_buf := b, m_write_idx := m_write_idx s + int (length t)\<rparr>)))"

definition add_status_line :: "int \<Rightarrow> string \<Rightarrow> http_conn \<Rightarrow> (bool \<times> http_conn) result" where
  "add_status_line status title = add_response (''HTTP/1.1'' @ '' '' @ dec_int status @ '' '' @ title @ CRLF)"

definition add_content_length :: "int \<Rightarrow> http_conn \<Rightarrow> (bool \<times> http_conn) result" where
  "add_content_length content_len = add_response (''Content-Length:'' @ dec_int content_len @ CRLF)"

definition add_content_type :: "http_conn \<Rightarrow> (bool \<times> http_conn) result" where
  "add_content_type = add_response (''Content-Type:'' @ ''text/html'' @ CRLF)"

definition add_linger :: "http_conn \<Rightarrow> (bool \<times> http_conn) result" where
  "add_linger s = add_response (''Connection:'' @ (if m_linger s then ''keep-alive'' else ''close'') @ CRLF) s"

definition add_blank_line :: "http_conn \<Rightarrow> (bool \<times> http_conn) result" where
  "add_blank_line = add_response CRLF"

definition add_content :: "string \<Rightarrow> http_conn \<Rightarrow> (bool \<times> http_conn) result" where
  "add_content content = add_response content"

text \<open>\<^verbatim>\<open>a && b\<close> on operations that answer a truth value.\<close>

definition and_then :: "(http_conn \<Rightarrow> (bool \<times> http_conn) result) \<Rightarrow> (http_conn \<Rightarrow> (bool \<times> http_conn) result) \<Rightarrow>
    http_conn \<Rightarrow> (bool \<times> http_conn) result" where
  "and_then f g s = result_bind (f s) (\<lambda>(b, s1). if b then g s1 else Inr (False, s1))"

definition add_headers :: "int \<Rightarrow> http_conn \<Rightarrow> (bool \<times> http_conn) result" where
  "add_headers content_len = and_then (and_then (add_content_length content_len) add_linger) add_blank_line"

definition ok_200_title :: string where "ok_200_title = ''OK''"
definition error_400_title :: string where "error_400_title = ''Bad Request''"
definition error_400_form :: string where
  "error_400_form = ''Your request has bad syntax or is inherently impossible to staisfy.'' @ [LF]"
definition error_403_title :: string where "error_403_title = ''Forbidden''"
definition error_403_form :: string where
  "error_403_form = ''You do not have permission to get file form this server.'' @ [LF]"
definition error_404_title :: string where "error_404_title = ''Not Found''"
definition error_404_form :: string where
  "error_404_form = ''The requested file was not found on this server.'' @ [LF]"
definition error_500_title :: string where "error_500_title = ''Internal Error''"
definition error_500_form :: string where
  "error_500_form = ''There was an unusual problem serving the request file.'' @ [LF]"

lemmas form_defs = ok_200_title_def error_403_title_def error_403_form_def error_404_title_def
  error_404_form_def error_500_title_def error_500_form_def

text \<open>The end of \<^verbatim>\<open>process_write\<close>: the answer is what stands in the buffer.\<close>

definition answer_from_buffer :: "http_conn \<Rightarrow> http_conn" where
  "answer_from_buffer s = s\<lparr>m_iv0 := \<lparr>iov_base = In_Buf 0, iov_len = to_size (m_write_idx s)\<rparr>, m_iv_count := 1,
     bytes_to_send := m_write_idx s\<rparr>"

definition write_error :: "int \<Rightarrow> string \<Rightarrow> string \<Rightarrow> http_conn \<Rightarrow> (bool \<times> http_conn) result" where
  "write_error status title form s =
     result_bind (add_status_line status title s) (\<lambda>(_, s1).
     result_bind (add_headers (int (length form)) s1) (\<lambda>(_, s2).
     result_bind (add_content form s2) (\<lambda>(ok, s3).
     Inr (if \<not> ok then (False, s3) else (True, answer_from_buffer s3)))))"

text \<open>A file of size 0 falls through to the default case.\<close>

definition write_file :: "http_conn \<Rightarrow> (bool \<times> http_conn) result" where
  "write_file s =
     result_bind (add_status_line 200 ok_200_title s) (\<lambda>(_, s1).
       if st_size (m_file_stat s) \<noteq> 0 then
         result_bind (add_headers (to_int32 (st_size (m_file_stat s))) s1) (\<lambda>(_, s2).
           Inr (True, s2\<lparr>m_iv0 := \<lparr>iov_base = In_Buf 0, iov_len = to_size (m_write_idx s2)\<rparr>,
             m_iv1 := \<lparr>iov_base = In_File 0, iov_len = to_size (st_size (m_file_stat s))\<rparr>, m_iv_count := 2,
             bytes_to_send := to_int32 (m_write_idx s2 + st_size (m_file_stat s))\<rparr>))
       else
         result_bind (add_headers (int (length ''<html><body></body></html>'')) s1) (\<lambda>(_, s2).
         result_bind (add_content ''<html><body></body></html>'' s2) (\<lambda>(_, s3). Inr (False, s3))))"

definition process_write :: "http_code \<Rightarrow> http_conn \<Rightarrow> (bool \<times> http_conn) result" where
  "process_write ret s =
     (case ret of
        INTERNAL_ERROR \<Rightarrow> write_error 500 error_500_title error_500_form s
      | BAD_REQUEST \<Rightarrow> write_error 404 error_404_title error_404_form s
      | FORBIDDEN_REQUEST \<Rightarrow> write_error 403 error_403_title error_403_form s
      | FILE_REQUEST \<Rightarrow> write_file s
      | _ \<Rightarrow> Inr (False, s))"

section \<open>Sending\<close>

definition unmap :: "http_conn \<Rightarrow> http_conn" where
  "unmap s = (if m_file_address s \<noteq> No_Map then s\<lparr>m_file_address := No_Map\<rparr> else s)"

text \<open>The bytes an \<^verbatim>\<open>iovec\<close> names; outside of its object is a fault.\<close>

definition slice :: "string \<Rightarrow> int \<Rightarrow> int \<Rightarrow> string result" where
  "slice buf i n =
     (if n = 0 then Inr []
      else if i < 0 \<or> int (length buf) < i + n then Inl Out_Of_Bounds
      else Inr (take (nat n) (drop (nat i) buf)))"

definition iov_data :: "http_conn \<Rightarrow> iovec \<Rightarrow> string result" where
  "iov_data s v =
     (case iov_base v of
        In_Buf i \<Rightarrow> slice (m_write_buf s) i (iov_len v)
      | In_File i \<Rightarrow> (case m_file_address s of
            Mapped bytes \<Rightarrow> slice bytes i (iov_len v)
          | _ \<Rightarrow> if iov_len v = 0 then Inr [] else Inl Out_Of_Bounds))"

definition writev_data :: "http_conn \<Rightarrow> string result" where
  "writev_data s =
     result_bind (iov_data s (m_iv0 s)) (\<lambda>d0.
     result_bind (if m_iv_count s = 2 then iov_data s (m_iv1 s) else Inr []) (\<lambda>d1. Inr (d0 @ d1)))"

text \<open>
  The loop of \<^verbatim>\<open>write\<close> over the answers of \<^verbatim>\<open>writev\<close> (a count, or a negative number with \<^verbatim>\<open>errno\<close>);
  \<open>None\<close> has not returned.
\<close>

definition write_progress :: "int \<Rightarrow> http_conn \<Rightarrow> http_conn" where
  "write_progress temp s =
     (let have_sent = bytes_have_send s + temp; to_send = bytes_to_send s - temp;
          s1 = s\<lparr>bytes_have_send := have_sent, bytes_to_send := to_send\<rparr> in
      if iov_len (m_iv0 s) \<le> to_size have_sent
      then s1\<lparr>m_iv0 := (m_iv0 s)\<lparr>iov_len := 0\<rparr>,
        m_iv1 := \<lparr>iov_base = In_File (have_sent - m_write_idx s), iov_len = to_size to_send\<rparr>\<rparr>
      else s1\<lparr>m_iv0 := \<lparr>iov_base = In_Buf have_sent, iov_len = to_size (iov_len (m_iv0 s) - have_sent)\<rparr>\<rparr>)"

fun write_loop :: "(int \<times> int) list \<Rightarrow> http_conn \<Rightarrow> string \<Rightarrow> (bool \<times> http_conn \<times> string) result option" where
  "write_loop [] s wire = None"
| "write_loop ((temp, e) # as) s wire =
     (case writev_data s of
        Inl f \<Rightarrow> Some (Inl f)
      | Inr data \<Rightarrow>
          if temp < 0 then Some (Inr (if e = EAGAIN then (True, s, wire) else (False, unmap s, wire)))
          else
            let s1 = write_progress temp s; wire1 = wire @ take (nat temp) data in
            if bytes_to_send s1 \<le> 0 then
              let s2 = unmap s1 in
              Some (Inr (if m_linger s2 then (True, init_request s2, wire1) else (False, s2, wire1)))
            else write_loop as s1 wire1)"

declare write_loop.simps(2) [simp del]

definition http_write :: "(int \<times> int) list \<Rightarrow> http_conn \<Rightarrow> string \<Rightarrow> (bool \<times> http_conn \<times> string) result option" where
  "http_write as s wire =
     (if bytes_to_send s = 0 then Some (Inr (True, init_request s, wire)) else write_loop as s wire)"

section \<open>The request cycle\<close>

text \<open>The state beside the connection: \<^verbatim>\<open>m_user_count\<close>, the cache and the queries sent.\<close>

record http_world =
  user_count :: int
  users :: users_cache
  queries :: "string list"

definition process :: "request_env \<Rightarrow> int option \<Rightarrow> http_conn \<times> http_world \<Rightarrow> (bool \<times> http_conn \<times> http_world) result" where
  "process env obj st =
     (case st of (s, w) \<Rightarrow>
       result_bind (process_read env obj s (users w)) (\<lambda>(read_ret, s1, us, qs).
         let w1 = w\<lparr>users := us, queries := queries w @ qs\<rparr> in
         if read_ret = NO_REQUEST then Inr (False, s1, w1)
         else result_bind (process_write read_ret s1) (\<lambda>(write_ret, s2).
           if \<not> write_ret then
             let (n, s3) = close_conn True (user_count w1, s2) in Inr (False, s3, w1\<lparr>user_count := n\<rparr>)
           else Inr (True, s2, w1))))"

text \<open>
  \<^verbatim>\<open>handleClient\<close> after \<^verbatim>\<open>init\<close>: as long as the client is connected, one \<^verbatim>\<open>read_once\<close>, one \<^verbatim>\<open>process\<close> and
  one \<^verbatim>\<open>write\<close>; the first that is false ends it, and the client is closed. Each round has its answers of
  \<^verbatim>\<open>isConnected\<close>, \<^verbatim>\<open>recv\<close> and \<^verbatim>\<open>writev\<close> and its connection to the data base.
\<close>

record client_round =
  connected :: bool
  recv_answers :: "recv_answer list"
  writev_answers :: "(int \<times> int) list"
  round_env :: request_env
  round_mysql :: nat

fun client_loop :: "int option \<Rightarrow> client_round list \<Rightarrow> http_conn \<times> http_world \<Rightarrow> string \<Rightarrow>
    (http_conn \<times> http_world \<times> string) result option" where
  "client_loop obj [] st wire = None"
| "client_loop obj (r # rs) st wire =
     (case st of (s, w) \<Rightarrow>
        if \<not> connected r then Some (Inr (s, w, wire))
        else case read_once (recv_answers r) s of
          None \<Rightarrow> None
        | Some (Inl f) \<Rightarrow> Some (Inl f)
        | Some (Inr (False, s1)) \<Rightarrow> Some (Inr (s1, w, wire))
        | Some (Inr (True, s1)) \<Rightarrow>
            (case process (round_env r) obj (s1\<lparr>mysql := Some (round_mysql r)\<rparr>, w) of
              Inl f \<Rightarrow> Some (Inl f)
            | Inr (False, s2, w2) \<Rightarrow> Some (Inr (s2, w2, wire))
            | Inr (True, s2, w2) \<Rightarrow>
                (case http_write (writev_answers r) s2 wire of
                  None \<Rightarrow> None
                | Some (Inl f) \<Rightarrow> Some (Inl f)
                | Some (Inr (False, s3, wire1)) \<Rightarrow> Some (Inr (s3, w2, wire1))
                | Some (Inr (True, s3, wire1)) \<Rightarrow> client_loop obj rs (s3, w2) wire1)))"

definition handleClient :: "int option \<Rightarrow> bool \<Rightarrow> int \<Rightarrow> string \<Rightarrow> string \<Rightarrow> string \<Rightarrow> string \<Rightarrow> bool \<Rightarrow> client_round list \<Rightarrow>
    http_conn \<times> http_world \<Rightarrow> (http_conn \<times> http_world \<times> string) result option" where
  "handleClient obj valid client root user passwd sqlname keepalive rs st =
     (case st of (s, w) \<Rightarrow>
        if \<not> valid then Some (Inr (s, w, []))
        else case http_init client root 0 user passwd sqlname keepalive (user_count w, s) of
          Inl f \<Rightarrow> Some (Inl f)
        | Inr (n, s1) \<Rightarrow> client_loop obj rs (s1, w\<lparr>user_count := n\<rparr>) [])"

section \<open>The answer in the buffer\<close>

definition written :: "http_conn \<Rightarrow> string" where
  "written s = take (nat (m_write_idx s)) (m_write_buf s)"

definition buffer_ok :: "http_conn \<Rightarrow> bool" where
  "buffer_ok s \<longleftrightarrow> int (length (m_write_buf s)) = WRITE_BUFFER_SIZE \<and> 0 \<le> m_write_idx s"

text \<open>\<open>appended s t s'\<close>: the text \<open>t\<close> was added, and nothing else changed.\<close>

definition appended :: "http_conn \<Rightarrow> string \<Rightarrow> http_conn \<Rightarrow> bool" where
  "appended s t s' \<longleftrightarrow> buffer_ok s \<and> (\<exists>b. s' = s\<lparr>m_write_buf := b, m_write_idx := m_write_idx s + int (length t)\<rparr> \<and>
     int (length b) = WRITE_BUFFER_SIZE \<and> take (nat (m_write_idx s + int (length t))) b = written s @ t)"

lemma appended_sel:
  assumes "appended s t s'"
  shows "buffer_ok s'" "m_write_idx s' = m_write_idx s + int (length t)" "written s' = written s @ t"
    "m_linger s' = m_linger s" "m_file_stat s' = m_file_stat s" "m_file_address s' = m_file_address s"
    "bytes_have_send s' = bytes_have_send s"
  using assms by (auto simp: appended_def buffer_ok_def written_def)

lemma appended_trans:
  assumes "appended s t s1" "appended s1 t' s2"
  shows "appended s (t @ t') s2"
proof -
  from assms(2) obtain b where "s2 = s1\<lparr>m_write_buf := b, m_write_idx := m_write_idx s1 + int (length t')\<rparr>"
    "int (length b) = WRITE_BUFFER_SIZE" "take (nat (m_write_idx s1 + int (length t'))) b = written s1 @ t'"
    by (auto simp: appended_def)
  moreover from assms(1) obtain b1 where "s1 = s\<lparr>m_write_buf := b1, m_write_idx := m_write_idx s + int (length t)\<rparr>" "buffer_ok s"
    by (auto simp: appended_def)
  ultimately show ?thesis using appended_sel(2,3) [OF assms(1)]
    by (auto simp: appended_def add.assoc intro!: exI [of _ b])
qed

lemma add_response_appends:
  assumes "buffer_ok s" "m_write_idx s + int (length t) < WRITE_BUFFER_SIZE - 1"
  obtains s' where "add_response t s = Inr (True, s')" "appended s t s'"
proof -
  define i where "i = nat (m_write_idx s)"
  define b where "b = take i (m_write_buf s) @ (t @ [NUL]) @ drop (i + length t + 1) (m_write_buf s)"
  have i: "m_write_idx s = int i" "length (m_write_buf s) = 1024" "i + length t < 1023"
    using assms by (auto simp: buffer_ok_def i_def WRITE_BUFFER_SIZE_def)
  have fit: "take (nat (WRITE_BUFFER_SIZE - 1 - int i - 1)) t = t" using i(3) by (simp add: WRITE_BUFFER_SIZE_def)
  have "put_str (m_write_buf s) (int i) (t @ [NUL]) = Inr b"
    using i by (simp add: put_str_def b_def)
  then have "add_response t s = Inr (True, s\<lparr>m_write_buf := b, m_write_idx := m_write_idx s + int (length t)\<rparr>)"
    using i fit by (simp add: add_response_def Let_def WRITE_BUFFER_SIZE_def)
  moreover have "appended s t (s\<lparr>m_write_buf := b, m_write_idx := m_write_idx s + int (length t)\<rparr>)"
    using i assms(1) by (auto simp: appended_def written_def b_def WRITE_BUFFER_SIZE_def nat_add_distrib intro!: exI [of _ b])
  ultimately show thesis by (rule that)
qed

lemma length_dec_nat: "n < 10 ^ k \<Longrightarrow> 0 < k \<Longrightarrow> length (dec_nat n) \<le> k"
proof (induction k arbitrary: n)
  case (Suc k)
  show ?case
  proof (cases "n < 10")
    case False
    then have "k \<noteq> 0" using Suc.prems(1) by (cases k) auto
    moreover have "n div 10 < 10 ^ k" using Suc.prems(1) by (simp add: less_mult_imp_div_less mult.commute)
    ultimately have "length (dec_nat (n div 10)) \<le> k" using Suc.IH by simp
    then show ?thesis using False by (subst dec_nat.simps) simp
  qed (subst dec_nat.simps; simp)
qed simp

lemma length_dec_int: "\<bar>i\<bar> < 10 ^ 10 \<Longrightarrow> length (dec_int i) \<le> 11"
proof -
  assume "\<bar>i\<bar> < 10 ^ 10"
  then have "nat i < 10 ^ 10" "nat (- i) < 10 ^ 10" by auto
  then have "length (dec_nat (nat i)) \<le> 10" "length (dec_nat (nat (- i))) \<le> 10"
    using length_dec_nat [where k = 10] by simp_all
  then show ?thesis by (simp add: dec_int_def)
qed

text \<open>The head of an answer.\<close>

definition header_text :: "int \<Rightarrow> bool \<Rightarrow> string" where
  "header_text n linger = ''Content-Length:'' @ dec_int n @ CRLF @
     ''Connection:'' @ (if linger then ''keep-alive'' else ''close'') @ CRLF @ CRLF"

definition response_head :: "int \<Rightarrow> string \<Rightarrow> int \<Rightarrow> bool \<Rightarrow> string" where
  "response_head status title n linger = ''HTTP/1.1'' @ '' '' @ dec_int status @ '' '' @ title @ CRLF @ header_text n linger"

lemma add_headers_appends:
  assumes "buffer_ok s" "m_write_idx s + int (length (header_text n (m_linger s))) < WRITE_BUFFER_SIZE - 1"
  obtains s' where "add_headers n s = Inr (True, s')" "appended s (header_text n (m_linger s)) s'"
proof -
  let ?l = "''Connection:'' @ (if m_linger s then ''keep-alive'' else ''close'') @ CRLF"
  have len: "int (length (header_text n (m_linger s))) =
      int (length (''Content-Length:'' @ dec_int n @ CRLF)) + int (length ?l) + int (length CRLF)"
    by (simp add: header_text_def)
  obtain s1 where s1: "add_response (''Content-Length:'' @ dec_int n @ CRLF) s = Inr (True, s1)"
    "appended s (''Content-Length:'' @ dec_int n @ CRLF) s1"
    by (rule add_response_appends [OF assms(1), where t = "''Content-Length:'' @ dec_int n @ CRLF"]) (use assms(2) len in linarith)
  note a1 = appended_sel [OF s1(2)]
  obtain s2 where s2: "add_response ?l s1 = Inr (True, s2)" "appended s1 ?l s2"
    by (rule add_response_appends [OF a1(1), where t = ?l]) (use assms(2) len a1(2) in linarith)
  note a2 = appended_sel [OF s2(2)]
  obtain s3 where s3: "add_response CRLF s2 = Inr (True, s3)" "appended s2 CRLF s3"
    by (rule add_response_appends [OF a2(1), where t = CRLF]) (use assms(2) len a1(2) a2(2) in linarith)
  have "add_headers n s = Inr (True, s3)"
    using s1(1) s2(1) s3(1) a1(4)
    by (simp add: add_headers_def and_then_def add_content_length_def add_linger_def add_blank_line_def)
  moreover have "appended s (header_text n (m_linger s)) s3"
    using appended_trans [OF appended_trans [OF s1(2) s2(2)] s3(2)] by (simp add: header_text_def)
  ultimately show thesis by (rule that)
qed

lemma head_appends:
  assumes "buffer_ok s" "m_write_idx s + int (length (response_head status title n (m_linger s))) < WRITE_BUFFER_SIZE - 1"
  obtains s1 s2 where "add_status_line status title s = Inr (True, s1)" "add_headers n s1 = Inr (True, s2)"
    "appended s (response_head status title n (m_linger s)) s2" "m_file_stat s1 = m_file_stat s"
proof -
  let ?t = "''HTTP/1.1'' @ '' '' @ dec_int status @ '' '' @ title @ CRLF"
  have len: "int (length (response_head status title n (m_linger s))) =
      int (length ?t) + int (length (header_text n (m_linger s)))" by (simp add: response_head_def)
  obtain s1 where s1: "add_response ?t s = Inr (True, s1)" "appended s ?t s1"
    by (rule add_response_appends [OF assms(1), where t = ?t]) (use assms(2) len in linarith)
  note a1 = appended_sel [OF s1(2)]
  obtain s2 where s2: "add_headers n s1 = Inr (True, s2)" "appended s1 (header_text n (m_linger s1)) s2"
    by (rule add_headers_appends [OF a1(1), where n = n]) (use assms(2) len a1(2,4) in simp)
  show thesis
    by (rule that [of s1 s2]) (use s1 s2 a1 appended_trans [OF s1(2) s2(2)] in
      \<open>simp_all add: add_status_line_def response_head_def\<close>)
qed

text \<open>The error pages.\<close>

definition error_page :: "http_code \<Rightarrow> (int \<times> string \<times> string) option" where
  "error_page ret =
     (case ret of
        INTERNAL_ERROR \<Rightarrow> Some (500, error_500_title, error_500_form)
      | BAD_REQUEST \<Rightarrow> Some (404, error_404_title, error_404_form)
      | FORBIDDEN_REQUEST \<Rightarrow> Some (403, error_403_title, error_403_form)
      | _ \<Rightarrow> None)"

definition error_response :: "int \<times> string \<times> string \<Rightarrow> bool \<Rightarrow> string" where
  "error_response p linger = (case p of (status, title, form) \<Rightarrow>
     response_head status title (int (length form)) linger @ form)"

lemma error_response_short:
  assumes "error_page ret = Some (status, title, form)"
  shows "length (error_response (status, title, form) linger) < 300"
    "length (response_head status title (int (length form)) linger) < 230"
proof -
  have f: "length title \<le> 14" "length form \<le> 70" "\<bar>status\<bar> < 10 ^ 10" "\<bar>int (length form)\<bar> < 10 ^ 10"
    using assms by (auto simp: error_page_def form_defs split: http_code.splits)
  with length_dec_int [OF f(3)] length_dec_int [OF f(4)]
  show "length (error_response (status, title, form) linger) < 300"
    "length (response_head status title (int (length form)) linger) < 230"
    by (simp_all add: error_response_def response_head_def header_text_def CRLF_def)
qed

lemma write_error_result:
  assumes "buffer_ok s" "m_write_idx s = 0" "error_page ret = Some (status, title, form)"
  obtains s' where "process_write ret s = Inr (True, answer_from_buffer s')"
    "appended s (error_response (status, title, form) (m_linger s)) s'"
proof -
  note short = error_response_short [OF assms(3), of "m_linger s"]
  let ?head = "response_head status title (int (length form)) (m_linger s)"
  have "m_write_idx s + int (length ?head) < WRITE_BUFFER_SIZE - 1"
    using short(2) assms(2) unfolding WRITE_BUFFER_SIZE_def by linarith
  then obtain s1 s2 where s12: "add_status_line status title s = Inr (True, s1)" "add_headers (int (length form)) s1 = Inr (True, s2)"
    "appended s ?head s2"
    using head_appends [OF assms(1)] by metis
  note a2 = appended_sel [OF s12(3)]
  have "length ?head + length form < 300" using short(1) by (simp add: error_response_def)
  then obtain s3 where s3: "add_response form s2 = Inr (True, s3)" "appended s2 form s3"
    using add_response_appends [OF a2(1), of form] a2(2) assms(2) by (auto simp: WRITE_BUFFER_SIZE_def)
  have "process_write ret s = write_error status title form s"
    using assms(3) by (auto simp: process_write_def error_page_def split: http_code.splits)
  also have "\<dots> = Inr (True, answer_from_buffer s3)"
    using s12(1,2) s3(1) by (simp add: write_error_def add_content_def)
  finally show thesis
    by (rule that) (use appended_trans [OF s12(3) s3(2)] in \<open>simp add: error_response_def\<close>)
qed

text \<open>A file of \<open>k\<close> bytes, mapped, with an empty buffer to head it.\<close>

definition file_ready :: "string \<Rightarrow> http_conn \<Rightarrow> bool" where
  "file_ready file s \<longleftrightarrow> buffer_ok s \<and> m_write_idx s = 0 \<and> bytes_have_send s = 0 \<and>
     m_file_address s = Mapped file \<and> st_size (m_file_stat s) = int (length file) \<and>
     file \<noteq> [] \<and> length file < 2 ^ 30"

definition file_head :: "string \<Rightarrow> http_conn \<Rightarrow> string" where
  "file_head file s = response_head 200 ok_200_title (int (length file)) (m_linger s)"

definition with_file :: "nat \<Rightarrow> http_conn \<Rightarrow> http_conn" where
  "with_file k s = s\<lparr>m_iv0 := \<lparr>iov_base = In_Buf 0, iov_len = to_size (m_write_idx s)\<rparr>,
     m_iv1 := \<lparr>iov_base = In_File 0, iov_len = int k\<rparr>, m_iv_count := 2, bytes_to_send := m_write_idx s + int k\<rparr>"

lemma to_int32_small: "0 \<le> i \<Longrightarrow> i < 2 ^ 31 \<Longrightarrow> to_int32 i = i"
  by (simp add: to_int32_def sint_sbintrunc' signed_take_bit_int_eq_self)

lemma to_size_small [simp]: "0 \<le> i \<Longrightarrow> i < 2 ^ 64 \<Longrightarrow> to_size i = i"
  by (simp add: to_size_def)

lemma file_head_short:
  assumes "length file < 2 ^ 30"
  shows "length (file_head file s) < 100"
proof -
  have "length (dec_int (int (length file))) \<le> 11" "length (dec_int 200) \<le> 11"
    using assms by (intro length_dec_int; simp)+
  then show ?thesis by (simp add: file_head_def response_head_def header_text_def CRLF_def ok_200_title_def)
qed

lemma write_file_result:
  assumes "file_ready file s"
  obtains s' where "process_write FILE_REQUEST s = Inr (True, with_file (length file) s')"
    "appended s (file_head file s) s'"
proof -
  note f = assms [unfolded file_ready_def]
  have short: "length (file_head file s) < 100" using file_head_short f by blast
  have k: "to_int32 (int (length file)) = int (length file)" using f by (intro to_int32_small) simp_all
  have "m_write_idx s + int (length (file_head file s)) < WRITE_BUFFER_SIZE - 1"
    using short f unfolding WRITE_BUFFER_SIZE_def by linarith
  then obtain s1 s2 where s12: "add_status_line 200 ok_200_title s = Inr (True, s1)"
    "add_headers (int (length file)) s1 = Inr (True, s2)" "appended s (file_head file s) s2"
    using head_appends [of s 200 ok_200_title "int (length file)"] f unfolding file_head_def by metis
  have i2: "m_write_idx s2 = int (length (file_head file s))" using appended_sel(2) [OF s12(3)] f by simp
  have "to_int32 (m_write_idx s2 + int (length file)) = m_write_idx s2 + int (length file)"
    using f short by (intro to_int32_small) (simp_all add: i2)
  then have "process_write FILE_REQUEST s = Inr (True, with_file (length file) s2)"
    using s12(1,2) k f by (simp add: process_write_def write_file_def with_file_def)
  then show thesis using s12(3) by (rule that)
qed

text \<open>The loop of \<^verbatim>\<open>write\<close>: the answer while the head, and while the file, is going out.\<close>

lemma answer_data:
  assumes "appended s t s'" "m_write_idx s = 0" "length t < 2 ^ 63"
  shows "written s' = t" "m_write_idx s' = int (length t)" "slice (m_write_buf s') 0 (to_size (m_write_idx s')) = Inr t"
proof -
  note a = appended_sel [OF assms(1)]
  have "written s = []" using assms(2) by (simp add: written_def)
  with a(2,3) assms(2) show w: "written s' = t" "m_write_idx s' = int (length t)" by simp_all
  have "length t \<le> length (m_write_buf s')" using w unfolding written_def by (metis length_take min.cobounded1)
  with w assms(3) show "slice (m_write_buf s') 0 (to_size (m_write_idx s')) = Inr t"
    by (auto simp: slice_def written_def)
qed

lemma write_step:
  assumes "writev_data s = Inr data" "0 \<le> temp"
  shows "write_loop ((temp, e) # as) s wire =
    (if bytes_to_send s \<le> temp then Some (Inr (m_linger s,
        (if m_linger s then init_request else id) (unmap (write_progress temp s)), wire @ take (nat temp) data))
     else write_loop as (write_progress temp s) (wire @ take (nat temp) data))"
  using assms by (auto simp: write_loop.simps(2) Let_def write_progress_def unmap_def)

lemma write_progress_simps [simp]:
  "m_linger (write_progress temp s) = m_linger s" "bytes_to_send (write_progress temp s) = bytes_to_send s - temp"
  by (simp_all add: write_progress_def Let_def)

definition sending_file :: "string \<Rightarrow> nat \<Rightarrow> http_conn \<Rightarrow> bool" where
  "sending_file file j s \<longleftrightarrow> j < length file \<and> length file < 2 ^ 30 \<and> m_file_address s = Mapped file \<and>
     iov_len (m_iv0 s) = 0 \<and> m_iv1 s = \<lparr>iov_base = In_File (int j), iov_len = int (length file - j)\<rparr> \<and> m_iv_count s = 2 \<and>
     bytes_to_send s = int (length file - j) \<and> 0 \<le> m_write_idx s \<and> m_write_idx s < 2 ^ 30 \<and>
     bytes_have_send s = m_write_idx s + int j"

lemma slice_empty [simp]: "slice buf i 0 = Inr []"
  by (simp add: slice_def)

lemma iov_empty: "iov_len v = 0 \<Longrightarrow> iov_data s v = Inr []"
  by (auto simp: iov_data_def split: iov_base.splits file_address.splits)

lemma sending_file_data:
  assumes "sending_file file j s"
  shows "writev_data s = Inr (drop j file)"
  using assms iov_empty [of "m_iv0 s" s] by (simp add: sending_file_def writev_data_def iov_data_def slice_def)

lemma file_loop:
  assumes "sending_file file j s" "\<forall>a \<in> set as. 0 \<le> fst a" "sum_list (map fst as) = int (length file - j)"
  shows "\<exists>s'. write_loop as s wire = Some (Inr (m_linger s, s', wire @ drop j file))"
  using assms
proof (induction as arbitrary: s j wire)
  case Nil
  then show ?case by (simp add: sending_file_def)
next
  case (Cons a as)
  obtain n e where a: "a = (int n, e)" using Cons.prems(2) by (cases a) (auto elim: nonneg_int_cases)
  note inv = Cons.prems(1) [unfolded sending_file_def] and step = write_step [OF sending_file_data [OF Cons.prems(1)]]
  have "0 \<le> sum_list (map fst as)" using Cons.prems(2) by (intro sum_list_nonneg) auto
  with Cons.prems(3) inv have n: "n \<le> length file - j" by (simp add: a)
  have split: "drop j file = take n (drop j file) @ drop (j + n) file" by (metis add.commute append_take_drop_id drop_drop)
  have ts: "bytes_to_send s = int (length file - j)" using inv by blast
  show ?case
  proof (cases "n = length file - j")
    case True
    then show ?thesis using ts by (simp add: a step del: of_nat_diff)
  next
    case False
    have "sending_file file (j + n) (write_progress (int n) s)"
      using inv n False by (auto simp: sending_file_def write_progress_def Let_def of_nat_diff)
    moreover have "\<forall>a \<in> set as. 0 \<le> fst a" "sum_list (map fst as) = int (length file - (j + n))"
      using Cons.prems(2,3) n by (simp_all add: a)
    ultimately obtain s' where "write_loop as (write_progress (int n) s) (wire @ take n (drop j file)) =
        Some (Inr (m_linger s, s', (wire @ take n (drop j file)) @ drop (j + n) file))"
      using Cons.IH [of "j + n" "write_progress (int n) s" "wire @ take n (drop j file)"] by auto
    moreover have "\<not> bytes_to_send s \<le> int n" using ts n False by linarith
    ultimately show ?thesis using split by (metis a append.assoc nat_int of_nat_0_le_iff step)
  qed
qed

text \<open>The whole answer: \<open>a\<close> bytes first, the head among them, and then the rest.\<close>

lemma file_first:
  assumes "file_ready file s" "appended s (file_head file s) s1"
  defines "h \<equiv> length (file_head file s)" and "s2 \<equiv> with_file (length file) s1"
  shows "writev_data s2 = Inr (file_head file s @ file)" "bytes_to_send s2 = int (h + length file)"
    "bytes_have_send s2 = 0" "m_linger s2 = m_linger s" "m_write_idx s2 = int h" "iov_len (m_iv0 s2) = int h"
    "m_file_address s2 = Mapped file" "h < 100" "length file < 2 ^ 30" "m_iv_count s2 = 2"
    "m_iv1 s2 = \<lparr>iov_base = In_File 0, iov_len = int (length file)\<rparr>"
proof -
  note f = assms(1) [unfolded file_ready_def] and a = appended_sel [OF assms(2)]
  show sh: "h < 100" "length file < 2 ^ 30" using file_head_short f by (auto simp: h_def)
  then have "length (file_head file s) < 2 ^ 63" by (simp add: h_def)
  note d = answer_data [OF assms(2) _ this]
  have m: "m_write_idx s1 = int h" using d(2) f by (simp add: h_def)
  have "slice (m_write_buf s1) 0 (int h) = Inr (file_head file s)" using d(3) f m sh(1) by simp
  then have "iov_data s2 (m_iv0 s2) = Inr (file_head file s)" using m sh(1) by (simp add: s2_def with_file_def iov_data_def)
  moreover have "iov_data s2 (m_iv1 s2) = Inr file" using f a by (simp add: s2_def with_file_def iov_data_def slice_def)
  ultimately show "writev_data s2 = Inr (file_head file s @ file)" by (simp add: writev_data_def s2_def with_file_def)
  show "bytes_to_send s2 = int (h + length file)" "bytes_have_send s2 = 0" "m_linger s2 = m_linger s"
    "m_write_idx s2 = int h" "iov_len (m_iv0 s2) = int h" "m_file_address s2 = Mapped file" "m_iv_count s2 = 2"
    "m_iv1 s2 = \<lparr>iov_base = In_File 0, iov_len = int (length file)\<rparr>"
    using f a m sh(1) by (simp_all add: s2_def with_file_def)
qed

lemma file_written:
  assumes "file_ready file s" "appended s (file_head file s) s1"
    and "int (length (file_head file s)) \<le> a" "\<forall>x \<in> set as. 0 \<le> fst x"
    and "a + sum_list (map fst as) = int (length (file_head file s) + length file)"
  shows "\<exists>s2. http_write ((a, e) # as) (with_file (length file) s1) wire =
    Some (Inr (m_linger s, s2, wire @ file_head file s @ file))"
proof -
  define h where "h = length (file_head file s)"
  define s2 where "s2 = with_file (length file) s1"
  note ff = file_first [OF assms(1,2), folded h_def s2_def]
  define j where "j = nat a - h"
  have a: "a = int (h + j)" using assms(3) by (simp add: j_def h_def)
  have sum: "0 \<le> sum_list (map fst as)" using assms(4) by (intro sum_list_nonneg) auto
  then have j: "j \<le> length file" "sum_list (map fst as) = int (length file - j)"
    using assms(5) by (simp_all add: a h_def [symmetric])
  have sent: "take (nat a) (file_head file s @ file) = file_head file s @ take j file"
    by (simp add: a h_def nat_add_distrib)
  have "0 < length file" using assms(1) by (simp add: file_ready_def)
  then have pos: "bytes_to_send s2 \<noteq> 0" using ff(2) by linarith
  have "0 \<le> a" using a by simp
  note step = write_step [OF ff(1) this, unfolded sent]
  have w: "http_write ((a, e) # as) s2 wire = write_loop ((a, e) # as) s2 wire" using pos by (simp add: http_write_def)
  show ?thesis
  proof (cases "j = length file")
    case True
    then have "bytes_to_send s2 \<le> a" using ff(2) a by simp
    then show ?thesis using True ff(4) by (simp add: w [unfolded s2_def] step [unfolded s2_def] s2_def)
  next
    case False
    have "sending_file file j (write_progress a s2)"
      using ff False j(1) by (auto simp: sending_file_def write_progress_def Let_def a of_nat_diff)
    then obtain s4 where "write_loop as (write_progress a s2) (wire @ file_head file s @ take j file) =
        Some (Inr (m_linger s2, s4, (wire @ file_head file s @ take j file) @ drop j file))"
      using file_loop [OF _ assms(4) j(2), of "write_progress a s2" "wire @ file_head file s @ take j file"] by auto
    moreover have "\<not> bytes_to_send s2 \<le> a" using ff(2) a j(1) False by simp
    ultimately show ?thesis using ff(4) by (simp add: w [unfolded s2_def] step [unfolded s2_def] s2_def)
  qed
qed

text \<open>A connection with its buffers empty.\<close>

definition demo_answer :: http_conn where
  "demo_answer = demo_conn\<lparr>m_file_address := Mapped ''hi'', m_file_stat := \<lparr>st_size = 2, st_mode = 0x81A4\<rparr>\<rparr>"

lemma demo_answer_ready [simp]: "file_ready ''hi'' demo_answer" "m_linger demo_answer"
  by (simp_all add: demo_answer_def demo_conn_def file_ready_def buffer_ok_def init_request_def WRITE_BUFFER_SIZE_def)

section \<open>Properties of the answer\<close>

text \<open>
  An error is answered: for each code that has a page, \<^verbatim>\<open>process_write\<close> fits the whole answer in
  the buffer, and one \<^verbatim>\<open>writev\<close> that takes it sends exactly the head and the page, and then keeps or
  drops the connection as \<^verbatim>\<open>m_linger\<close> says.
\<close>

theorem error_page_sent:
  assumes "buffer_ok s" "m_write_idx s = 0" "bytes_have_send s = 0" "error_page ret = Some p"
    and "n = int (length (error_response p (m_linger s)))"
  shows "\<exists>s1 s2. process_write ret s = Inr (True, s1) \<and>
    http_write [(n, e)] s1 wire = Some (Inr (m_linger s, s2, wire @ error_response p (m_linger s)))"
proof -
  obtain status title form where p: "p = (status, title, form)" by (cases p)
  note ret = assms(4) [unfolded p]
  obtain s' where s': "process_write ret s = Inr (True, answer_from_buffer s')"
    "appended s (error_response p (m_linger s)) s'" by (rule write_error_result [OF assms(1,2) ret, folded p])
  have "length (error_response p (m_linger s)) < 2 ^ 63"
    using error_response_short(1) [OF ret, folded p, of "m_linger s"] by simp
  note d = answer_data [OF s'(2) assms(2) this]
  have "iov_data (answer_from_buffer s') (m_iv0 (answer_from_buffer s')) = Inr (error_response p (m_linger s))"
    using d(3) by (simp add: answer_from_buffer_def iov_data_def)
  then have data: "writev_data (answer_from_buffer s') = Inr (error_response p (m_linger s))"
    by (simp add: writev_data_def answer_from_buffer_def)
  have n: "bytes_to_send (answer_from_buffer s') = n" "0 \<le> n" "n \<noteq> 0" "m_linger (answer_from_buffer s') = m_linger s"
    using d(2) assms(5) p appended_sel(4) [OF s'(2)]
    by (simp_all add: answer_from_buffer_def error_response_def response_head_def)
  have "take (nat n) (error_response p (m_linger s)) = error_response p (m_linger s)" by (simp add: assms(5))
  with n write_step [OF data n(2), of e "[]" wire] s'(1) show ?thesis by (simp add: http_write_def)
qed

theorem error_page_sent_witness:
  "\<exists>s1 s2. process_write FORBIDDEN_REQUEST demo_answer = Inr (True, s1) \<and>
    http_write [(125, 0)] s1 [] = Some (Inr (True, s2, error_response (403, error_403_title, error_403_form) True))"
proof -
  have "int (length (error_response (403, error_403_title, error_403_form) True)) = 125" by code_simp
  then show ?thesis
    using error_page_sent [of demo_answer FORBIDDEN_REQUEST "(403, error_403_title, error_403_form)" 125 0 "[]"]
      demo_answer_ready by (simp add: error_page_def file_ready_def)
qed

text \<open>
  C12. A file arrives whole: if the first \<^verbatim>\<open>writev\<close> takes at least the head, then however the
  rest is split over the later ones, the bytes on the wire are the head, with the length of the file,
  followed by the file, each byte once.
\<close>

theorem file_sent:
  assumes "file_ready file s" "int (length (file_head file s)) \<le> a" "\<forall>x \<in> set as. 0 \<le> fst x"
    and "a + sum_list (map fst as) = int (length (file_head file s) + length file)"
  shows "\<exists>s1 s2. process_write FILE_REQUEST s = Inr (True, s1) \<and>
    http_write ((a, e) # as) s1 wire = Some (Inr (m_linger s, s2, wire @ file_head file s @ file))"
proof -
  obtain s1 where s1: "process_write FILE_REQUEST s = Inr (True, with_file (length file) s1)"
    "appended s (file_head file s) s1" by (rule write_file_result [OF assms(1)])
  with file_written [OF assms(1) s1(2) assms(2-4)] show ?thesis by blast
qed

theorem file_sent_witness:
  "\<exists>s1 s2. process_write FILE_REQUEST demo_answer = Inr (True, s1) \<and>
    http_write [(61, 0), (0, 0), (1, 0)] s1 [] = Some (Inr (True, s2, file_head ''hi'' demo_answer @ ''hi''))"
proof -
  have "length (response_head 200 ok_200_title (int (length ''hi'')) True) = 60" by code_simp
  then have "length (file_head ''hi'' demo_answer) = 60" by (simp add: file_head_def)
  then show ?thesis using file_sent [of "''hi''" demo_answer 61 "[(0, 0), (1, 0)]" 0 "[]"] by simp
qed

text \<open>
  If the head goes out in two parts and the second reaches past \<^verbatim>\<open>m_iv[0].iov_len - bytes_have_send\<close>,
  the total is compared with a length from which the first part was already taken: the code moves on to
  the file before the head is out, and hands \<^verbatim>\<open>writev\<close> an address before the mapping.
\<close>

theorem partial_header_breaks:
  assumes "file_ready file s" "h = int (length (file_head file s))" "0 \<le> a" "0 \<le> b" "a + b < h" "h \<le> 2 * a + b"
  shows "\<exists>s1. process_write FILE_REQUEST s = Inr (True, s1) \<and>
    http_write [(a, e), (b, e'), (c, e'')] s1 wire = Some (Inl Out_Of_Bounds)"
proof -
  obtain s1 where s1: "process_write FILE_REQUEST s = Inr (True, with_file (length file) s1)"
    "appended s (file_head file s) s1" by (rule write_file_result [OF assms(1)])
  define s2 where "s2 = with_file (length file) s1"
  note ff = file_first [OF assms(1) s1(2), folded s2_def, folded assms(2)]
  have base: "iov_base (m_iv0 s2) = In_Buf 0" by (simp add: s2_def with_file_def)
  have buf: "m_write_buf s2 = m_write_buf s1" by (simp add: s2_def with_file_def)
  have len: "length (m_write_buf s1) = 1024"
    using appended_sel(1) [OF s1(2)] by (simp add: buffer_ok_def WRITE_BUFFER_SIZE_def)
  have h: "h < 100" "0 < int (length file)" "m_write_idx s2 = h" "iov_len (m_iv0 s2) = h"
    "bytes_to_send s2 = h + int (length file)"
    using ff(2,5,6,8) assms(1,2) by (auto simp: file_ready_def)
  have ah: "a < h" using assms(4,5) by linarith
  have d1: "writev_data s2 = Inr (file_head file s @ file)" by (rule ff(1))
  define s3 where "s3 = write_progress a s2"
  have s3: "m_iv0 s3 = \<lparr>iov_base = In_Buf a, iov_len = h - a\<rparr>" "m_iv1 s3 = m_iv1 s2" "bytes_have_send s3 = a"
    "m_iv_count s3 = 2" "m_write_buf s3 = m_write_buf s1" "m_file_address s3 = Mapped file" "m_write_idx s3 = h"
    "bytes_to_send s3 = h + int (length file) - a"
    using ff h ah assms(3) buf by (simp_all add: s3_def write_progress_def Let_def)
  have "slice (m_write_buf s1) a (h - a) = Inr (take (nat (h - a)) (drop (nat a) (m_write_buf s1)))"
    using assms(3) ah h(1) len by (simp add: slice_def)
  then have "iov_data s3 (m_iv0 s3) = Inr (take (nat (h - a)) (drop (nat a) (m_write_buf s1)))"
    using s3 by (simp add: iov_data_def)
  moreover have "iov_data s3 (m_iv1 s3) = Inr file" using ff(11) s3 by (simp add: iov_data_def slice_def)
  ultimately obtain d where d2: "writev_data s3 = Inr d" using s3(4) by (simp add: writev_data_def)
  define s4 where "s4 = write_progress b s3"
  have s4: "iov_len (m_iv0 s4) = 0" "iov_base (m_iv1 s4) = In_File (a + b - h)"
    "iov_len (m_iv1 s4) = to_size (h + int (length file) - a - b)" "m_iv_count s4 = 2" "m_file_address s4 = Mapped file"
    using s3 assms(3,4,5,6) h(1) by (simp_all add: s4_def write_progress_def Let_def)
  have "to_size (h + int (length file) - a - b) = h + int (length file) - a - b"
    using assms(3,4,5) h(1,2) ff(9) by (intro to_size_small) simp_all
  then have "writev_data s4 = Inl Out_Of_Bounds"
    using s4 iov_empty [OF s4(1)] assms(5) h(2) by (simp add: writev_data_def iov_data_def slice_def)
  then have "write_loop [(c, e'')] s4 w = Some (Inl Out_Of_Bounds)" for w by (simp add: write_loop.simps(2))
  moreover have "\<not> bytes_to_send s3 \<le> b" "\<not> bytes_to_send s2 \<le> a" "bytes_to_send s2 \<noteq> 0"
    using s3(8) h(2,5) ah assms(3,4,5) by linarith+
  ultimately have "http_write [(a, e), (b, e'), (c, e'')] s2 wire = Some (Inl Out_Of_Bounds)"
    by (simp add: http_write_def write_step [OF d1 assms(3)] write_step [OF d2 assms(4)] s3_def [symmetric] s4_def [symmetric])
  with s1(1) show ?thesis by (simp add: s2_def)
qed

theorem partial_header_breaks_witness:
  "\<exists>s1. process_write FILE_REQUEST demo_answer = Inr (True, s1) \<and>
    http_write [(40, 0), (1, 0), (22, 0)] s1 [] = Some (Inl Out_Of_Bounds)"
proof -
  have "length (response_head 200 ok_200_title (int (length ''hi'')) True) = 60" by code_simp
  then have "int (length (file_head ''hi'' demo_answer)) = 60" by (simp add: file_head_def)
  then show ?thesis using partial_header_breaks [of "''hi''" demo_answer 60 40 1 0 0 22 0 "[]"] by simp
qed

section \<open>A client from its first byte\<close>

definition fresh :: "string \<Rightarrow> bool \<Rightarrow> int \<Rightarrow> http_conn \<Rightarrow> bool" where
  "fresh root keepalive client s \<longleftrightarrow> (\<exists>s0. s = init_request s0) \<and> m_TRIGMode s = 0 \<and> doc_root s = root \<and>
     m_linger s = keepalive \<and> m_client s = client"

lemma init_request_sel [simp]:
  "doc_root (init_request s) = doc_root s" "m_TRIGMode (init_request s) = m_TRIGMode s"
  "m_linger (init_request s) = m_linger s" "m_client (init_request s) = m_client s"
  by (simp_all add: init_request_def)

lemma http_init_fresh:
  assumes "http_init client root 0 user passwd sqlname keepalive (c, s) = Inr (n, s1)"
  shows "n = c + 1" "fresh root keepalive client s1"
  using assms by (auto simp: http_init_def fresh_def Let_def result_bind_Inr_iff)

lemma client_request:
  assumes "fresh root keepalive client s" "length root + 14 < 200" "NUL \<notin> set root"
    and "url_ok url" "\<forall>h \<in> set hs. header_ok h" "foldl header_length 0 hs = 0"
    and "served_url url = dir @ CHR ''/'' # name" "CHR ''/'' \<notin> set name"
    and "length (request_bytes ''GET'' url hs) \<le> 2048"
    and "path = request_path root (hd (name @ [NUL])) (served_url url)"
  obtains s1 s2 where "read_once (Received (request_bytes ''GET'' url hs) # later) s = Some (Inr (True, s1))"
    "process_read env (Some 1) (s1\<lparr>mysql := m\<rparr>) us = Inr (serve env path, s2, us, [])"
    "buffer_ok s2" "m_write_idx s2 = 0" "bytes_have_send s2 = 0" "m_linger s2 = keepalive" "m_client s2 = client"
    "serve env path = FILE_REQUEST \<longrightarrow> m_file_address s2 = mapping_of env path \<and> stat_of env path = Some (m_file_stat s2)"
proof -
  obtain s0 where s: "s = init_request s0" and f: "m_TRIGMode s = 0" "doc_root s = root" "m_linger s = keepalive"
    "m_client s = client" using assms(1) by (auto simp: fresh_def)
  define q where "q = request_bytes ''GET'' url hs"
  define rest where "rest = replicate (2048 - length q) NUL"
  define s1 where "s1 = s\<lparr>m_read_buf := q @ rest, m_read_idx := int (length q)\<rparr>"
  have q: "length q \<le> 2048" "q \<noteq> []" using assms(9) by (simp_all add: q_def request_bytes_def)
  have "put_str (m_read_buf s) (m_read_idx s) q = Inr (q @ rest)"
    using put_str_layout [of "replicate (length q) NUL" q 0 "[]" rest] q(1)
    by (simp add: s init_request_def READ_BUFFER_SIZE_def rest_def flip: replicate_add)
  then have read: "read_once (Received q # later) s = Some (Inr (True, s1))"
    using q f(1) by (simp add: read_once_def s1_def s init_request_def READ_BUFFER_SIZE_def)
  define t where "t = s1\<lparr>mysql := m\<rparr>"
  have st: "m_check_state t = CHECK_STATE_REQUESTLINE" "m_checked_idx t = 0" "m_start_line t = 0" "m_content_length t = 0"
    "cgi t = 0" "m_real_file t = replicate 200 NUL" "doc_root t = root"
    using f by (simp_all add: t_def s1_def s init_request_def FILENAME_LEN_def)
  have buf: "m_read_buf t = request_bytes ''GET'' url hs @ rest" "m_read_idx t = int (length (request_bytes ''GET'' url hs))"
    "m_read_idx t < 2 ^ 63" using q(1) by (simp_all add: t_def s1_def q_def)
  have "length (doc_root t) + 14 < 200" "NUL \<notin> set (doc_root t)" using assms(2,3) st(7) by simp_all
  from get_request_result [OF st(1-4) buf assms(4-6) st(5) assms(7,8) st(6) this, of env us]
  obtain s2 where s2: "process_read env (Some 1) t us = Inr (serve env path, s2, us, [])"
    "serve env path = FILE_REQUEST \<longrightarrow> m_file_address s2 = mapping_of env path \<and> stat_of env path = Some (m_file_stat s2)"
    "keeps t (s2\<lparr>m_real_file := m_real_file t\<rparr>)"
    unfolding Let_def st(7) assms(10) by blast
  have "buffer_ok s2" "m_write_idx s2 = 0" "bytes_have_send s2 = 0" "m_linger s2 = keepalive" "m_client s2 = client"
    using s2(3) f by (simp_all add: keeps_def t_def s1_def s buffer_ok_def init_request_def WRITE_BUFFER_SIZE_def)
  with read s2(1,2) show thesis using that unfolding t_def q_def by blast
qed


definition demo_world :: http_world where
  "demo_world = \<lparr>user_count = 3, users = demo_cache, queries = []\<rparr>"

definition demo_round :: "string \<Rightarrow> client_round" where
  "demo_round url = \<lparr>connected = True, recv_answers = [Received (request_bytes ''GET'' url [''Host: a''])],
     writev_answers = [(61, 0), (1, 0)], round_env = demo_env, round_mysql = 1\<rparr>"

lemma demo_init: "\<exists>n s1. http_init 7 ''/srv'' 0 ''u'' ''p'' ''d'' True (user_count demo_world, demo_conn) = Inr (n, s1)"
  by (simp add: http_init_def demo_conn_def init_request_def strcpy_def put_str_def Let_def)

lemma demo_request:
  "length ''/srv'' + 14 < 200" "NUL \<notin> set ''/srv''" "\<forall>h \<in> set [''Host: a'']. header_ok h" "foldl header_length 0 [''Host: a''] = 0"
  by code_simp+


text \<open>
  C37. A missing file gets no answer: the same request for a path that \<^verbatim>\<open>stat\<close> does not know ends the
  client without a byte sent (\<^verbatim>\<open>process_write\<close> has no case for \<^verbatim>\<open>NO_RESOURCE\<close>; the page \<^verbatim>\<open>404\<close>
  is used for \<^verbatim>\<open>BAD_REQUEST\<close>), and the number of users is what it was before.
\<close>

theorem missing_file_unanswered:
  assumes "http_init client root 0 user passwd sqlname keepalive (user_count w, s) = Inr (n, s1)" "client \<noteq> - 1"
    and "length root + 14 < 200" "NUL \<notin> set root"
    and "url_ok url" "\<forall>h \<in> set hs. header_ok h" "foldl header_length 0 hs = 0"
    and "served_url url = dir @ CHR ''/'' # name" "CHR ''/'' \<notin> set name"
    and "length (request_bytes ''GET'' url hs) \<le> 2048"
    and "path = request_path root (hd (name @ [NUL])) (served_url url)"
    and "connected r" "recv_answers r = Received (request_bytes ''GET'' url hs) # later"
    and "stat_of (round_env r) path = None"
  shows "\<exists>s' w'. handleClient (Some 1) True client root user passwd sqlname keepalive (r # rs) (s, w) =
    Some (Inr (s', w', [])) \<and> user_count w' = user_count w"
proof -
  note fr = http_init_fresh [OF assms(1)]
  obtain s2 s3 where s2: "read_once (recv_answers r) s1 = Some (Inr (True, s2))"
    and s3: "process_read (round_env r) (Some 1) (s2\<lparr>mysql := Some (round_mysql r)\<rparr>) (users w) =
        Inr (serve (round_env r) path, s3, users w, [])" "m_client s3 = client"
    by (rule client_request [OF fr(2) assms(3-11), of later "round_env r" "Some (round_mysql r)" "users w", folded assms(13)])
  have sv: "serve (round_env r) path = NO_RESOURCE" using assms(14) by (simp add: serve_def)
  let ?w = "w\<lparr>user_count := n\<rparr>"
  have p: "process (round_env r) (Some 1) (s2\<lparr>mysql := Some (round_mysql r)\<rparr>, ?w) = Inr (False, s3, ?w\<lparr>user_count := n - 1\<rparr>)"
    using s3 sv assms(2) by (simp add: process_def Let_def process_write_def close_conn_def)
  have "handleClient (Some 1) True client root user passwd sqlname keepalive (r # rs) (s, w) =
      client_loop (Some 1) (r # rs) (s1, ?w) []" using assms(1) by (simp add: handleClient_def)
  also have "\<dots> = Some (Inr (s3, ?w\<lparr>user_count := n - 1\<rparr>, []))" using assms(12) s2 p by simp
  finally show ?thesis using fr(1) by (auto intro!: exI)
qed

theorem missing_file_unanswered_witness:
  "\<exists>s' w'. handleClient (Some 1) True 7 ''/srv'' ''u'' ''p'' ''d'' True [demo_round ''/none''] (demo_conn, demo_world) =
    Some (Inr (s', w', [])) \<and> user_count w' = 3"
proof -
  obtain n s1 where init: "http_init 7 ''/srv'' 0 ''u'' ''p'' ''d'' True (user_count demo_world, demo_conn) = Inr (n, s1)"
    using demo_init by blast
  have u: "url_ok ''/none''" by code_simp
  have sv: "served_url ''/none'' = [] @ CHR ''/'' # ''none''" "CHR ''/'' \<notin> set ''none''" by (simp_all add: served_url_def)
  have len: "length (request_bytes ''GET'' ''/none'' [''Host: a'']) \<le> 2048" by code_simp
  have path: "''/srv/none'' = request_path ''/srv'' (hd (''none'' @ [NUL])) (served_url ''/none'')"
    by (simp add: request_path_def page_of_def served_url_def)
  have "\<exists>s' w'. handleClient (Some 1) True 7 ''/srv'' ''u'' ''p'' ''d'' True [demo_round ''/none''] (demo_conn, demo_world) =
      Some (Inr (s', w', [])) \<and> user_count w' = user_count demo_world"
    by (rule missing_file_unanswered [where later = "[]", OF init _ demo_request(1,2) u demo_request(3,4) sv len path])
      (simp_all add: demo_round_def demo_env_def)
  then show ?thesis by (simp add: demo_world_def)
qed

text \<open>
  C36. What the server prints as a length its own parser reads back: the line \<^verbatim>\<open>add_content_length\<close>
  writes for \<open>n\<close>, received as a header line, sets \<^verbatim>\<open>m_content_length\<close> to \<open>n\<close>.
\<close>

theorem content_length_roundtrip:
  assumes "buffer_ok s" "m_write_idx s = 0" "0 \<le> n" "n < 2 ^ 31"
  shows "\<exists>s1 c1. add_content_length n s = Inr (True, s1) \<and>
    parse_line (c\<lparr>m_read_buf := written s1, m_read_idx := m_write_idx s1, m_checked_idx := 0\<rparr>) = Inr (LINE_OK, c1) \<and>
    parse_headers obj 0 d c1 = Inr (NO_REQUEST, d, c1\<lparr>m_content_length := n\<rparr>)"
proof -
  define line where "line = ''Content-Length:'' @ dec_int n"
  have dec: "dec_int n = dec_nat (nat n)" using assms(3) by (simp add: dec_int_def)
  have "length (dec_int n) \<le> 11" using assms(3,4) by (intro length_dec_int) simp
  then have short: "m_write_idx s + int (length (line @ CRLF)) < WRITE_BUFFER_SIZE - 1"
    using assms(2) by (simp add: line_def CRLF_def WRITE_BUFFER_SIZE_def)
  obtain s1 where s1: "add_response (line @ CRLF) s = Inr (True, s1)" "appended s (line @ CRLF) s1"
    by (rule add_response_appends [OF assms(1) short])
  have "length (line @ CRLF) < 2 ^ 63" using short assms(2) by (simp add: WRITE_BUFFER_SIZE_def)
  note w = answer_data [OF s1(2) assms(2) this]
  let ?c = "c\<lparr>m_read_buf := written s1, m_read_idx := m_write_idx s1, m_checked_idx := 0\<rparr>"
  have dd: "\<forall>x \<in> set (dec_nat (nat n)). is_digit x" by (rule dec_nat_digits)
  have plain: "\<forall>x \<in> set line. plain x" and nul: "NUL \<notin> set line"
    using dd by (auto simp: line_def dec plain_def is_digit_def Let_def)
  define c1 where "c1 = ?c\<lparr>m_read_buf := line @ [NUL, NUL], m_checked_idx := int (length line) + 2\<rparr>"
  have "parse_line ?c = Inr (LINE_OK, c1)"
    using parse_line_crlf [OF plain, of ?c "[]" "[]"] w(1,2) by (simp add: c1_def CRLF_def)
  moreover have "c_str (m_read_buf c1) 0 = Inr line" using c_str_layout [OF nul, of 0 "[]" "[NUL]"] by (simp add: c1_def)
  moreover have "starts_nocase ''Content-Len'' ''Connection:'' = False" "starts_nocase ''Content-Length:'' ''Content-length:''"
    by code_simp+
  then have "line \<noteq> []" "\<not> starts_nocase line ''Connection:''" "starts_nocase line ''Content-length:''"
    by (simp_all add: line_def starts_nocase_def)
  moreover have "\<not> blank (hd (dec_nat (nat n)))" using dd digit_no_space by (meson dec_nat_not_Nil hd_in_set)
  then have "blanks (dec_nat (nat n)) = 0" by (cases "dec_nat (nat n)") (simp_all add: blanks_Cons blanks_def)
  then have "atol (header_value ''Content-length:'' line) = n"
    using atol_dec_nat [of "nat n" "[]"] assms(3,4) by (simp add: header_value_def line_def dec)
  ultimately show ?thesis using s1(1) by (auto simp: parse_headers_def add_content_length_def line_def)
qed

theorem content_length_roundtrip_witness:
  "\<exists>s1 c1. add_content_length 1048 demo_conn = Inr (True, s1) \<and>
    parse_line (demo_conn\<lparr>m_read_buf := written s1, m_read_idx := m_write_idx s1, m_checked_idx := 0\<rparr>) = Inr (LINE_OK, c1) \<and>
    parse_headers (Some 1) 0 True c1 = Inr (NO_REQUEST, True, c1\<lparr>m_content_length := 1048\<rparr>)"
  by (rule content_length_roundtrip) (simp_all add: demo_conn_def init_request_def buffer_ok_def WRITE_BUFFER_SIZE_def)

end
