(* ===== verification/Http_Invariant.thy ===== *)
theory Http_Invariant
  imports Http_Response
begin

text \<open>
  What holds of a connection in every state \<^verbatim>\<open>handleClient\<close> brings it to: its arrays keep their sizes,
  the parser's positions stay in order inside the bytes received, and the answer stays inside its buffer.
\<close>

definition conn_wf :: "http_conn \<Rightarrow> bool" where
  "conn_wf s \<longleftrightarrow> int (length (m_read_buf s)) = READ_BUFFER_SIZE \<and> int (length (m_write_buf s)) = WRITE_BUFFER_SIZE \<and>
     int (length (m_real_file s)) = FILENAME_LEN \<and> 0 \<le> m_start_line s \<and> m_start_line s \<le> m_checked_idx s \<and>
     m_checked_idx s \<le> m_read_idx s \<and> m_read_idx s \<le> READ_BUFFER_SIZE \<and>
     0 \<le> m_write_idx s \<and> m_write_idx s < WRITE_BUFFER_SIZE - 1"

text \<open>The steps of a client: the ways one operation can leave the connection for the next one.\<close>

inductive conn_reach :: "http_conn \<Rightarrow> bool" where
  "http_init client root 0 user passwd sqlname keepalive (c, s) = Inr (n, s') \<Longrightarrow> conn_reach s'"
| "conn_reach s \<Longrightarrow> read_once as s = Some (Inr (True, s')) \<Longrightarrow> conn_reach s'"
| "conn_reach s \<Longrightarrow> process env obj (s\<lparr>mysql := m\<rparr>, w) = Inr (True, s', w') \<Longrightarrow> conn_reach s'"
| "conn_reach s \<Longrightarrow> http_write as s wire = Some (Inr (True, s', wire')) \<Longrightarrow> conn_reach s'"

section \<open>Reading and parsing\<close>

lemma conn_wf_init [simp]: "conn_wf (init_request s)"
  by (simp add: conn_wf_def init_request_def size_defs)

lemma put_str_room: "put_str buf i s = Inr buf' \<Longrightarrow> 0 \<le> i \<and> i + int (length s) \<le> int (length buf) \<and> length buf' = length buf"
  by (auto simp: put_str_def split: if_splits)

lemma read_all_wf: "read_all as s = Some (Inr (True, s')) \<Longrightarrow> conn_wf s \<Longrightarrow> conn_wf s'"
proof (induction as s rule: read_all.induct)
  case (3 d as s)
  then obtain b where b: "put_str (m_read_buf s) (m_read_idx s) d = Inr b"
    "read_all as (s\<lparr>m_read_buf := b, m_read_idx := m_read_idx s + int (length d)\<rparr>) = Some (Inr (True, s'))"
    by (auto split: if_splits sum.splits)
  with put_str_room [OF b(1)] 3 show ?case by (auto simp: conn_wf_def split: if_splits)
qed auto

lemma read_once_wf: "read_once as s = Some (Inr (True, s')) \<Longrightarrow> conn_wf s \<Longrightarrow> conn_wf s'"
  by (auto simp: read_once_def result_bind_Inr_iff conn_wf_def read_all_wf [unfolded conn_wf_def] dest!: put_str_room
      split: if_splits list.splits recv_answer.splits)

lemma end_line_wf: "end_line i s = Inr s' \<Longrightarrow> conn_wf s \<Longrightarrow> m_checked_idx s \<le> i + 2 \<Longrightarrow> i + 2 \<le> m_read_idx s \<Longrightarrow> conn_wf s'"
  by (auto simp: end_line_def result_bind_Inr_iff conn_wf_def dest!: char_put_length)

lemma parse_line_wf: "parse_line s = Inr (ls, s') \<Longrightarrow> conn_wf s \<Longrightarrow> conn_wf s'"
proof (induction s rule: measure_induct_rule [of "\<lambda>s. nat (m_read_idx s - m_checked_idx s)"])
  case (less s)
  define n where "n = m_checked_idx s + 1"
  show ?case
  proof (cases "m_checked_idx s < m_read_idx s \<and> parse_line (s\<lparr>m_checked_idx := n\<rparr>) = Inr (ls, s')")
    case True
    then show ?thesis using less.IH [of "s\<lparr>m_checked_idx := n\<rparr>"] less.prems(2) by (auto simp: n_def conn_wf_def)
  next
    case False
    then show ?thesis using less.prems
      by (auto simp: parse_line.simps [of s] Let_def result_bind_Inr_iff n_def elim!: end_line_wf split: if_splits)
  qed
qed

lemma request_url_wf: "request_url s = Inr (r, s') \<Longrightarrow> conn_wf s \<Longrightarrow> conn_wf s'"
  by (auto simp: request_url_def result_bind_Inr_iff conn_wf_def dest!: strcat_length split: option.splits if_splits)

lemma request_version_wf:
  assumes "request_version s u = Inr (r, s')" "conn_wf s"
  shows "conn_wf s'"
proof -
  from assms(1) obtain x where x: "cut_word (m_read_buf s) u = Inr x" by (auto simp: request_version_def result_bind_Inr_iff)
  show ?thesis
  proof (cases x)
    case None
    with x assms show ?thesis by (auto simp: request_version_def conn_wf_def)
  next
    case (Some w)
    obtain url b v where w: "w = (url, b, v)" by (cases w)
    have "length b = length (m_read_buf s)" using cut_word_length x Some w by blast
    then have "conn_wf (s\<lparr>m_read_buf := b, m_url := Some u, m_version := Some v1\<rparr>)" for v1
      using assms(2) by (simp add: conn_wf_def)
    with assms(1) x show ?thesis
      by (auto simp: request_version_def Some w result_bind_Inr_iff Let_def split: if_splits dest: request_url_wf)
  qed
qed

lemma request_line_wf:
  assumes "parse_request_line p s = Inr (r, s')" "conn_wf s"
  shows "conn_wf s'"
proof -
  from assms(1) obtain x where x: "cut_word (m_read_buf s) p = Inr x" by (auto simp: parse_request_line_def result_bind_Inr_iff)
  show ?thesis
  proof (cases x)
    case None
    with x assms show ?thesis by (auto simp: parse_request_line_def conn_wf_def)
  next
    case (Some w)
    obtain meth b u where w: "w = (meth, b, u)" by (cases w)
    have "length b = length (m_read_buf s)" using cut_word_length x Some w by blast
    then have "conn_wf (s\<lparr>m_read_buf := b, m_url := Some u\<rparr>)" "conn_wf (s\<lparr>m_read_buf := b, m_url := Some u, m_method := GET\<rparr>)"
      "conn_wf (s\<lparr>m_read_buf := b, m_url := Some u, m_method := POST, cgi := 1\<rparr>)"
      using assms(2) by (simp_all add: conn_wf_def)
    with assms(1) x show ?thesis
      by (auto simp: parse_request_line_def Some w result_bind_Inr_iff Let_def split: if_splits dest: request_version_wf)
  qed
qed

lemma headers_wf: "parse_headers obj p d s = Inr (r, d', s') \<Longrightarrow> conn_wf s \<Longrightarrow> conn_wf s'"
  by (auto simp: parse_headers_def result_bind_Inr_iff conn_wf_def split: if_splits option.splits)

lemma content_wf: "parse_content p s = Inr (r, s') \<Longrightarrow> conn_wf s \<Longrightarrow> conn_wf s'"
  by (auto simp: parse_content_def result_bind_Inr_iff Let_def conn_wf_def dest!: char_put_length split: if_splits)

lemma process_body_wf:
  assumes "process_body obj d s = Inr (e, ls, d', s')" "conn_wf s"
  shows "conn_wf s'"
proof -
  have "conn_wf (s\<lparr>m_start_line := m_checked_idx s\<rparr>)" using assms(2) by (simp add: conn_wf_def)
  with assms(1) show ?thesis
    by (auto simp: process_body_def Let_def result_bind_Inr_iff split: check_state.splits
        dest: request_line_wf headers_wf content_wf)
qed

lemma process_round_wf: "process_round obj (ls, d, s) = Inr (e, ls', d', s') \<Longrightarrow> conn_wf s \<Longrightarrow> conn_wf s'"
  by (auto simp: process_round_def result_bind_Inr_iff split: if_splits dest: process_body_wf parse_line_wf)

lemma process_loop_wf: "process_loop obj st = Inr (e, d', s') \<Longrightarrow> conn_wf (snd (snd st)) \<Longrightarrow> conn_wf s'"
proof (induction obj st rule: process_loop.induct)
  case (1 obj st)
  obtain ls d s where st: "st = (ls, d, s)" by (cases st) auto
  from 1(2) obtain x ls1 d1 s1 where r: "process_round obj st = Inr (x, ls1, d1, s1)"
    by (subst (asm) process_loop.simps) (cases "process_round obj st"; auto)
  have w: "conn_wf s1" using process_round_wf r 1(3) by (auto simp: st)
  show ?case
  proof (cases x)
    case None
    with r 1(2) have "process_loop obj (ls1, d1, s1) = Inr (e, d', s')" by (simp add: process_loop_more)
    with 1(1) [OF r] None w show ?thesis by auto
  next
    case (Some e')
    with r 1(2) w show ?thesis by (auto dest!: process_loop_exit)
  qed
qed

section \<open>Answering\<close>

lemma account_request_wf: "account_request env u p s us = Inr (s', us', qs) \<Longrightarrow> conn_wf s \<Longrightarrow> conn_wf s'"
  by (auto simp: account_request_def result_bind_Inr_iff Let_def conn_wf_def dest!: strncpy_length strcpy_length
      split: if_splits option.splits)

lemma choose_file_wf: "choose_file u p s = Inr s' \<Longrightarrow> conn_wf s \<Longrightarrow> conn_wf s'"
  by (auto simp: choose_file_def result_bind_Inr_iff Let_def conn_wf_def dest!: strncpy_length split: option.splits)

lemma open_file_wf: "open_file env s = Inr (r, s') \<Longrightarrow> conn_wf s \<Longrightarrow> conn_wf s'"
  by (auto simp: open_file_def result_bind_Inr_iff Let_def conn_wf_def split: option.splits if_splits)

lemma do_request_wf:
  assumes "do_request env obj d s us = Inr (r, s', us', qs)" "conn_wf s"
  shows "conn_wf s'"
proof (cases "r = BAD_REQUEST \<and> s' = s")
  case False
  with assms(1) obtain rf u k s2 s3 where rf: "strcpy (m_real_file s) 0 (doc_root s) = Inr rf"
    and s2: "s2 = s\<lparr>m_real_file := rf\<rparr> \<or> (\<exists>us1 qs1. account_request env u (u + int k) (s\<lparr>m_real_file := rf\<rparr>) us = Inr (s2, us1, qs1))"
    and s3: "choose_file u (u + int k) s2 = Inr s3" "open_file env s3 = Inr (r, s')"
    by (auto simp: do_request_def result_bind_Inr_iff Let_def split: option.splits if_splits) blast+
  have "conn_wf (s\<lparr>m_real_file := rf\<rparr>)" using assms(2) strcpy_length [OF rf] by (simp add: conn_wf_def)
  then have "conn_wf s2" using s2 account_request_wf by blast
  then show ?thesis using s3 choose_file_wf open_file_wf by blast
qed (use assms in simp)

lemma process_read_wf:
  assumes "process_read env obj s us = Inr (r, s', us', qs)" "conn_wf s"
  shows "conn_wf s'"
proof -
  from assms(1) obtain e d s1 where l: "process_loop obj (LINE_OK, True, s) = Inr (e, d, s1)"
    by (auto simp: process_read_def result_bind_Inr_iff)
  then have "conn_wf s1" using process_loop_wf assms(2) by fastforce
  with assms(1) l show ?thesis
    by (cases e) (auto simp: process_read_def result_bind_Inr_iff dest: do_request_wf split: if_splits)
qed

lemma add_response_wf: "add_response t s = Inr (b, s') \<Longrightarrow> conn_wf s \<Longrightarrow> conn_wf s'"
  by (auto simp: add_response_def Let_def result_bind_Inr_iff conn_wf_def size_defs dest!: put_str_length split: if_splits)

lemma add_headers_wf: "add_headers n s = Inr (b, s') \<Longrightarrow> conn_wf s \<Longrightarrow> conn_wf s'"
  by (auto simp: add_headers_def and_then_def result_bind_Inr_iff add_content_length_def add_linger_def add_blank_line_def
      dest: add_response_wf split: if_splits)

lemma write_error_wf: "write_error status title form s = Inr (b, s') \<Longrightarrow> conn_wf s \<Longrightarrow> conn_wf s'"
  by (auto simp: write_error_def result_bind_Inr_iff add_status_line_def add_content_def answer_from_buffer_def
      dest!: add_response_wf add_headers_wf split: if_splits) (auto simp: conn_wf_def)

lemma write_file_wf: "write_file s = Inr (b, s') \<Longrightarrow> conn_wf s \<Longrightarrow> conn_wf s'"
  by (auto simp: write_file_def result_bind_Inr_iff add_status_line_def add_content_def
      dest!: add_response_wf add_headers_wf split: if_splits) (auto simp: conn_wf_def)

lemma process_wf:
  assumes "process env obj (s, w) = Inr (True, s', w')" "conn_wf s"
  shows "conn_wf s'"
proof -
  from assms(1) obtain r s1 us qs where r: "process_read env obj s (users w) = Inr (r, s1, us, qs)"
    "process_write r s1 = Inr (True, s')"
    by (auto simp: process_def result_bind_Inr_iff Let_def split: if_splits prod.splits)
  with process_read_wf assms(2) have "conn_wf s1" by blast
  with r(2) show ?thesis
    by (auto simp: process_write_def split: http_code.splits dest: write_error_wf write_file_wf)
qed

lemma write_loop_wf: "write_loop as s wire = Some (Inr (True, s', wire')) \<Longrightarrow> conn_wf s \<Longrightarrow> conn_wf s'"
proof (induction as s wire rule: write_loop.induct)
  case (2 temp e as s wire)
  have p: "conn_wf (write_progress temp s)" using 2(3) by (simp add: conn_wf_def write_progress_def Let_def)
  from 2(2) show ?case
    by (subst (asm) write_loop.simps(2)) (use 2(1,3) p in \<open>auto simp: Let_def split: sum.splits if_splits\<close>)
qed simp

lemma http_write_wf: "http_write as s wire = Some (Inr (True, s', wire')) \<Longrightarrow> conn_wf s \<Longrightarrow> conn_wf s'"
  by (auto simp: http_write_def write_loop_wf split: if_splits)

text \<open>
  C13. In every state in which an operation of \<^verbatim>\<open>handleClient\<close> leaves a connection for the next one the
  arrays have their sizes, \<^verbatim>\<open>m_start_line\<close>, \<^verbatim>\<open>m_checked_idx\<close> and \<^verbatim>\<open>m_read_idx\<close> are in this order within the
  read buffer, and \<^verbatim>\<open>m_write_idx\<close> leaves room for the terminating NUL, whatever the client sends and
  whatever data base and file system answer.
\<close>

theorem connection_stays_well_formed:
  assumes "conn_reach s"
  shows "conn_wf s"
  using assms
proof induction
  case (1 client root user passwd sqlname keepalive c s n s')
  then show ?case by (auto simp: http_init_def Let_def result_bind_Inr_iff)
next
  case (3 s env obj m w s' w')
  then show ?case using process_wf [of env obj "s\<lparr>mysql := m\<rparr>" w s' w'] by (simp add: conn_wf_def)
qed (blast intro: read_once_wf http_write_wf)+

theorem connection_stays_well_formed_witness:
  "\<exists>s. conn_reach s \<and> m_read_idx s = 6 \<and> conn_wf s"
proof -
  obtain n s1 where init: "http_init 7 ''/srv'' 0 ''u'' ''p'' ''d'' True (user_count demo_world, demo_conn) = Inr (n, s1)"
    using demo_init by blast
  have r1: "conn_reach s1" by (rule conn_reach.intros(1) [OF init])
  obtain s0 where s1: "s1 = init_request s0" "m_TRIGMode s1 = 0" using http_init_fresh(2) [OF init] by (auto simp: fresh_def)
  define s2 where "s2 = s1\<lparr>m_read_buf := ''GET /6'' @ replicate 2042 NUL, m_read_idx := 6\<rparr>"
  have "read_once [Received ''GET /6''] s1 = Some (Inr (True, s2))"
    using s1 by (simp add: read_once_def s2_def init_request_def put_str_def READ_BUFFER_SIZE_def)
  then have "conn_reach s2" by (rule conn_reach.intros(2) [OF r1])
  with connection_stays_well_formed [OF this] show ?thesis by (auto simp: s2_def)
qed

end
