(* ===== verification/Find_Cache.thy ===== *)
theory Find_Cache
  imports Memory_Pool
begin

text \<open>
  \<^verbatim>\<open>FindCache\<close> of \<^verbatim>\<open>src/my_stl/my_stl.hpp\<close>: a singly linked list of pairs behind an auxiliary node, searched
  from the front. A node lives at the address the allocator gave, so the list is a store of nodes with
  \<^verbatim>\<open>next\<close> pointers; 0 is the null pointer. The loops follow pointers and are \<open>None\<close> when they do not end.
\<close>

section \<open>State and operations\<close>

record 'k find_node =
  f_key :: 'k
  f_value :: 'k
  f_next :: nat

record ('k, 'a) find_cache =
  f_nodes :: "nat \<rightharpoonup> 'k find_node"
  f_head :: nat
  f_aider :: nat
  f_size :: int
  f_alloc :: 'a

text \<open>\<^verbatim>\<open>FindNode()\<close> leaves key and value to the default of their type, \<open>dflt\<close>.\<close>

definition find_cache_ctor :: "(nat \<Rightarrow> 'a \<Rightarrow> nat \<times> 'a) \<Rightarrow> (nat \<Rightarrow> nat \<Rightarrow> 'a \<Rightarrow> 'a) \<Rightarrow> nat \<Rightarrow> nat \<Rightarrow> 'k \<Rightarrow> 'a \<Rightarrow>
    ('k, 'a) find_cache" where
  "find_cache_ctor al co nb w dflt a =
     (let (p, a1) = al nb a in
      \<lparr>f_nodes = [p \<mapsto> \<lparr>f_key = dflt, f_value = dflt, f_next = 0\<rparr>], f_head = 0, f_aider = p, f_size = 0,
       f_alloc = co p w a1\<rparr>)"

text \<open>\<^verbatim>\<open>aider->next\<close>\<close>

definition first_node :: "('k, 'a) find_cache \<Rightarrow> nat result" where
  "first_node s = (case f_nodes s (f_aider s) of None \<Rightarrow> Inl Undefined_Behaviour | Some n \<Rightarrow> Inr (f_next n))"

partial_function (option) find_loop :: "(nat \<rightharpoonup> 'k find_node) \<Rightarrow> 'k \<Rightarrow> nat \<Rightarrow> int \<Rightarrow> (int \<times> 'k option) result option" where
  "find_loop ns key temp index =
     (if temp = 0 then Some (Inr (- 1, None))
      else case ns temp of
        None \<Rightarrow> Some (Inl Undefined_Behaviour)
      | Some n \<Rightarrow> if f_key n = key then Some (Inr (index, Some (f_value n))) else find_loop ns key (f_next n) (index + 1))"

definition cache_find :: "'k \<Rightarrow> ('k, 'a) find_cache \<Rightarrow> (int \<times> 'k option) result option" where
  "cache_find key s =
     (case first_node s of Inl e \<Rightarrow> Some (Inl e) | Inr temp \<Rightarrow> find_loop (f_nodes s) key temp 1)"

definition link_next :: "nat \<Rightarrow> nat \<Rightarrow> (nat \<rightharpoonup> 'k find_node) \<Rightarrow> (nat \<rightharpoonup> 'k find_node) result" where
  "link_next p q ns = (case ns p of None \<Rightarrow> Inl Undefined_Behaviour | Some n \<Rightarrow> Inr (ns(p \<mapsto> n\<lparr>f_next := q\<rparr>)))"

definition cache_insert :: "(nat \<Rightarrow> 'a \<Rightarrow> nat \<times> 'a) \<Rightarrow> (nat \<Rightarrow> nat \<Rightarrow> 'a \<Rightarrow> 'a) \<Rightarrow> nat \<Rightarrow> nat \<Rightarrow> 'k \<Rightarrow> 'k \<Rightarrow>
    ('k, 'a) find_cache \<Rightarrow> ('k, 'a) find_cache result" where
  "cache_insert al co nb w key val s =
     (let (newnode, a1) = al nb (f_alloc s);
          ns = (f_nodes s)(newnode \<mapsto> \<lparr>f_key = key, f_value = val, f_next = f_head s\<rparr>)
      in result_bind (link_next (f_aider s) newnode ns) (\<lambda>ns1.
           Inr (s\<lparr>f_nodes := ns1, f_alloc := co newnode w a1, f_head := newnode, f_size := f_size s + 1\<rparr>)))"

definition cache_push :: "(nat \<Rightarrow> 'a \<Rightarrow> nat \<times> 'a) \<Rightarrow> (nat \<Rightarrow> nat \<Rightarrow> 'a \<Rightarrow> 'a) \<Rightarrow> nat \<Rightarrow> nat \<Rightarrow> 'k \<Rightarrow> 'k \<Rightarrow>
    ('k, 'a) find_cache \<Rightarrow> (bool \<times> ('k, 'a) find_cache) result option" where
  "cache_push al co nb w key val s =
     map_option (\<lambda>r. result_bind r (\<lambda>(index, _).
         if index \<noteq> - 1 then Inr (False, s)
         else result_bind (cache_insert al co nb w key val s) (\<lambda>s1. Inr (True, s1))))
       (cache_find key s)"

text \<open>\<^verbatim>\<open>pop\<close>: what happens when the node \<open>temp\<close> behind \<open>last_temp\<close> matches, and the search.\<close>

definition unlink :: "(nat \<Rightarrow> 'a \<Rightarrow> 'a) \<Rightarrow> nat \<Rightarrow> nat \<Rightarrow> 'k find_node \<Rightarrow> ('k, 'a) find_cache \<Rightarrow> ('k, 'a) find_cache result" where
  "unlink de last_temp temp n s =
     result_bind (link_next last_temp (f_next n) (f_nodes s)) (\<lambda>ns.
       Inr (s\<lparr>f_nodes := ns(temp := None), f_size := f_size s - 1,
         f_head := (if f_head s = temp then f_next n else f_head s), f_alloc := de temp (f_alloc s)\<rparr>))"

partial_function (option) pop_loop :: "(nat \<Rightarrow> 'a \<Rightarrow> 'a) \<Rightarrow> 'k \<Rightarrow> 'k \<Rightarrow> nat \<Rightarrow> nat \<Rightarrow> ('k, 'a) find_cache \<Rightarrow>
    (bool \<times> ('k, 'a) find_cache) result option" where
  "pop_loop de key val last_temp temp s =
     (if temp = 0 then Some (Inr (False, s))
      else case f_nodes s temp of
        None \<Rightarrow> Some (Inl Undefined_Behaviour)
      | Some n \<Rightarrow>
          if f_key n = key \<and> f_value n = val
          then Some (result_bind (unlink de last_temp temp n s) (\<lambda>s1. Inr (True, s1)))
          else case f_nodes s last_temp of
            None \<Rightarrow> Some (Inl Undefined_Behaviour)
          | Some l \<Rightarrow> pop_loop de key val (f_next l) (f_next n) s)"

definition cache_pop :: "(nat \<Rightarrow> 'a \<Rightarrow> 'a) \<Rightarrow> 'k \<Rightarrow> 'k \<Rightarrow> ('k, 'a) find_cache \<Rightarrow>
    (bool \<times> ('k, 'a) find_cache) result option" where
  "cache_pop de key val s =
     (case first_node s of Inl e \<Rightarrow> Some (Inl e) | Inr temp \<Rightarrow> pop_loop de key val (f_aider s) temp s)"

partial_function (option) update_loop :: "'k \<Rightarrow> 'k \<Rightarrow> nat \<Rightarrow> ('k, 'a) find_cache \<Rightarrow>
    (bool \<times> ('k, 'a) find_cache) result option" where
  "update_loop key val temp s =
     (if temp = 0 then Some (Inr (False, s))
      else case f_nodes s temp of
        None \<Rightarrow> Some (Inl Undefined_Behaviour)
      | Some n \<Rightarrow>
          if f_key n = key
          then Some (Inr (True, s\<lparr>f_nodes := (f_nodes s)(temp \<mapsto> n\<lparr>f_value := val\<rparr>)\<rparr>))
          else update_loop key val (f_next n) s)"

definition cache_update :: "'k \<Rightarrow> 'k \<Rightarrow> ('k, 'a) find_cache \<Rightarrow> (bool \<times> ('k, 'a) find_cache) result option" where
  "cache_update key val s =
     (case first_node s of Inl e \<Rightarrow> Some (Inl e) | Inr temp \<Rightarrow> update_loop key val temp s)"

text \<open>\<^verbatim>\<open>clear\<close>, which the destructor calls; the printed pairs are the extra result.\<close>

partial_function (option) clear_loop :: "(nat \<Rightarrow> 'a \<Rightarrow> 'a) \<Rightarrow> nat \<Rightarrow> ('k, 'a) find_cache \<Rightarrow> ('k \<times> 'k) list \<Rightarrow>
    (('k \<times> 'k) list \<times> ('k, 'a) find_cache) result option" where
  "clear_loop de temp s out =
     (if temp = 0 then Some (Inr (out, s))
      else case f_nodes s temp of
        None \<Rightarrow> Some (Inl Undefined_Behaviour)
      | Some n \<Rightarrow>
          (case link_next (f_aider s) (f_next n) (f_nodes s) of
             Inl e \<Rightarrow> Some (Inl e)
           | Inr ns \<Rightarrow> clear_loop de (f_next n) (s\<lparr>f_nodes := ns(temp := None), f_alloc := de temp (f_alloc s)\<rparr>)
               (out @ [(f_key n, f_value n)])))"

definition cache_clear :: "(nat \<Rightarrow> 'a \<Rightarrow> 'a) \<Rightarrow> ('k, 'a) find_cache \<Rightarrow> (('k \<times> 'k) list \<times> ('k, 'a) find_cache) result option" where
  "cache_clear de s =
     (case first_node s of
        Inl e \<Rightarrow> Some (Inl e)
      | Inr temp \<Rightarrow> map_option (\<lambda>r. result_bind r (\<lambda>(out, s1).
            Inr (out, s1\<lparr>f_nodes := (f_nodes s1)(f_aider s1 := None), f_alloc := de (f_aider s1) (f_alloc s1)\<rparr>)))
          (clear_loop de temp s []))"

declare find_loop.simps [code] pop_loop.simps [code] update_loop.simps [code] clear_loop.simps [code]

section \<open>The list behind a pointer\<close>

text \<open>The nodes from \<open>p\<close> on, each with its address, key and value.\<close>

fun flist :: "(nat \<rightharpoonup> 'k find_node) \<Rightarrow> nat \<Rightarrow> (nat \<times> 'k \<times> 'k) list \<Rightarrow> bool" where
  "flist ns p [] \<longleftrightarrow> p = 0"
| "flist ns p ((q, k, v) # xs) \<longleftrightarrow>
     p = q \<and> q \<noteq> 0 \<and> (\<exists>r. ns q = Some \<lparr>f_key = k, f_value = v, f_next = r\<rparr> \<and> flist ns r xs)"

text \<open>The position of a key, counted from \<open>i\<close>, and its value.\<close>

fun find_in :: "'k \<Rightarrow> ('k \<times> 'k) list \<Rightarrow> int \<Rightarrow> int \<times> 'k option" where
  "find_in key [] i = (- 1, None)"
| "find_in key ((k, v) # ys) i = (if k = key then (i, Some v) else find_in key ys (i + 1))"

lemma find_in_value: "snd (find_in key ys i) = map_of ys key"
  by (induction key ys i rule: find_in.induct) auto

lemma find_in_index:
  "0 \<le> i \<Longrightarrow> fst (find_in key ys i) = - 1 \<longleftrightarrow> key \<notin> fst ` set ys"
  by (induction key ys i rule: find_in.induct) auto

lemma find_in_nth:
  "distinct (map fst ys) \<Longrightarrow> j < length ys \<Longrightarrow> find_in (fst (ys ! j)) ys i = (i + int j, Some (snd (ys ! j)))"
proof (induction ys arbitrary: i j)
  case (Cons y ys)
  obtain k v where y: "y = (k, v)" by (cases y)
  show ?case
  proof (cases j)
    case (Suc j')
    then have "ys ! j' \<in> set ys" using Cons.prems(2) by simp
    with Cons.prems(1) y have "k \<noteq> fst (ys ! j')" by auto
    with Cons Suc y show ?thesis by simp
  qed (simp add: y)
qed simp

lemma flist_frame: "q \<notin> fst ` set xs \<Longrightarrow> flist (ns(q := x)) p xs = flist ns p xs"
  by (induction ns p xs rule: flist.induct) auto

lemma flist_head: "flist ns p ((q, k, v) # xs) \<Longrightarrow> p = q \<and> q \<noteq> 0 \<and> ns q \<noteq> None"
  by auto

lemma find_loop_result: "flist ns p xs \<Longrightarrow> find_loop ns key p i = Some (Inr (find_in key (map snd xs) i))"
proof (induction xs arbitrary: p i)
  case Nil
  then show ?case by (simp add: find_loop.simps)
next
  case (Cons x xs)
  obtain q k v where x: "x = (q, k, v)" by (cases x)
  with Cons.prems obtain r where r: "p = q" "q \<noteq> 0" "ns q = Some \<lparr>f_key = k, f_value = v, f_next = r\<rparr>" "flist ns r xs" by auto
  show ?case by (subst find_loop.simps) (simp add: x r Cons.IH [OF r(4)])
qed

text \<open>Taking a node out: its predecessor, or the one before the list, is linked past it.\<close>

lemma flist_remove:
  assumes "ns lp = Some l" "f_next l = p" "flist ns p (as @ (q, k, v) # bs)" "ns q = Some n"
    and "distinct (lp # map fst (as @ (q, k, v) # bs))"
  shows "\<exists>ns' l'. link_next (last (lp # map fst as)) (f_next n) ns = Inr ns' \<and>
    (ns'(q := None)) lp = Some l' \<and> f_key l' = f_key l \<and> f_value l' = f_value l \<and>
    f_next l' = (if as = [] then f_next n else p) \<and> flist (ns'(q := None)) (f_next l') (as @ bs)"
  using assms
proof (induction as arbitrary: lp l p)
  case Nil
  then have "flist ns (f_next n) bs" "lp \<noteq> q" "lp \<notin> fst ` set bs" "q \<notin> fst ` set bs" by auto
  then show ?case
    using Nil.prems(1) by (intro exI [of _ "ns(lp \<mapsto> l\<lparr>f_next := f_next n\<rparr>)"] exI [of _ "l\<lparr>f_next := f_next n\<rparr>"])
      (simp add: link_next_def flist_frame fun_upd_same fun_upd_other del: fun_upd_apply)
next
  case (Cons a as)
  obtain q1 k1 v1 where a: "a = (q1, k1, v1)" by (cases a)
  with Cons.prems obtain r1 where r1: "p = q1" "q1 \<noteq> 0" "ns q1 = Some \<lparr>f_key = k1, f_value = v1, f_next = r1\<rparr>"
    "flist ns r1 (as @ (q, k, v) # bs)" by auto
  have "distinct (q1 # map fst (as @ (q, k, v) # bs))" using Cons.prems(5) a by simp
  from Cons.IH [OF r1(3) _ r1(4) Cons.prems(4) this]
  obtain ns' l' where IH: "link_next (last (q1 # map fst as)) (f_next n) ns = Inr ns'" "(ns'(q := None)) q1 = Some l'"
    "f_key l' = f_key \<lparr>f_key = k1, f_value = v1, f_next = r1\<rparr>"
    "f_value l' = f_value \<lparr>f_key = k1, f_value = v1, f_next = r1\<rparr>"
    "flist (ns'(q := None)) (f_next l') (as @ bs)" by (metis find_node.select_convs(3))
  have "lp \<notin> set (q1 # map fst as)" using Cons.prems(5) a by auto
  moreover have "last (q1 # map fst as) \<in> set (q1 # map fst as)" by (rule last_in_set) simp
  ultimately have "lp \<noteq> last (q1 # map fst as)" by metis
  then have "ns' lp = ns lp" using IH(1) by (auto simp: link_next_def split: option.splits)
  moreover have "lp \<noteq> q" using Cons.prems(5) by auto
  ultimately have "(ns'(q := None)) lp = Some l" using Cons.prems(1) by simp
  moreover have "l' = \<lparr>f_key = k1, f_value = v1, f_next = f_next l'\<rparr>" using IH(3,4) by (cases l') simp
  with IH(2) have "(ns'(q := None)) q1 = Some \<lparr>f_key = k1, f_value = v1, f_next = f_next l'\<rparr>" by metis
  with IH(5) r1(2) have "flist (ns'(q := None)) q1 ((q1, k1, v1) # as @ bs)" by (simp del: fun_upd_apply)
  ultimately show ?case
    using IH(1) Cons.prems(2) r1(1) a by (intro exI [of _ ns'] exI [of _ l]) (simp del: fun_upd_apply)
qed

lemma pop_loop_miss:
  assumes "f_nodes s lp = Some l" "f_next l = p" "flist (f_nodes s) p xs" "(key, val) \<notin> snd ` set xs"
  shows "pop_loop de key val lp p s = Some (Inr (False, s))"
  using assms
proof (induction xs arbitrary: lp l p)
  case Nil
  then show ?case by (simp add: pop_loop.simps)
next
  case (Cons x xs)
  obtain q k v where x: "x = (q, k, v)" by (cases x)
  with Cons.prems obtain r where r: "p = q" "q \<noteq> 0" "f_nodes s q = Some \<lparr>f_key = k, f_value = v, f_next = r\<rparr>"
    "flist (f_nodes s) r xs" by auto
  from Cons.IH [OF r(3) _ r(4)] Cons.prems(1,2,4) x r show ?case
    by (subst pop_loop.simps) auto
qed

lemma pop_loop_hit:
  assumes "f_nodes s lp = Some l" "f_next l = p" "flist (f_nodes s) p (as @ (q, key, val) # bs)"
    and "(key, val) \<notin> snd ` set as" "f_nodes s q = Some n"
  shows "pop_loop de key val lp p s =
    Some (result_bind (unlink de (last (lp # map fst as)) q n s) (\<lambda>s1. Inr (True, s1)))"
  using assms
proof (induction as arbitrary: lp l p)
  case Nil
  then show ?case by (subst pop_loop.simps) auto
next
  case (Cons a as)
  obtain q1 k1 v1 where a: "a = (q1, k1, v1)" by (cases a)
  with Cons.prems obtain r where r: "p = q1" "q1 \<noteq> 0" "f_nodes s q1 = Some \<lparr>f_key = k1, f_value = v1, f_next = r\<rparr>"
    "flist (f_nodes s) r (as @ (q, key, val) # bs)" by auto
  from Cons.IH [OF r(3) _ r(4)] Cons.prems(1,2,4,5) a r show ?case
    by (subst pop_loop.simps) auto
qed

lemma update_loop_miss:
  "flist (f_nodes s) p xs \<Longrightarrow> key \<notin> fst ` snd ` set xs \<Longrightarrow> update_loop key val p s = Some (Inr (False, s))"
proof (induction xs arbitrary: p)
  case Nil
  then show ?case by (simp add: update_loop.simps)
next
  case (Cons x xs)
  obtain q k v where x: "x = (q, k, v)" by (cases x)
  with Cons.prems Cons.IH show ?case by (subst update_loop.simps) auto
qed

lemma update_loop_hit:
  assumes "flist (f_nodes s) p (as @ (q, key, v) # bs)" "key \<notin> fst ` snd ` set as" "f_nodes s q = Some n"
  shows "update_loop key val p s = Some (Inr (True, s\<lparr>f_nodes := (f_nodes s)(q \<mapsto> n\<lparr>f_value := val\<rparr>)\<rparr>))"
  using assms
proof (induction as arbitrary: p)
  case Nil
  then have "p = q" "q \<noteq> 0" "f_key n = key" by auto
  with Nil.prems(3) show ?case by (simp add: update_loop.simps del: fun_upd_apply)
next
  case (Cons a as)
  obtain q1 k1 v1 where a: "a = (q1, k1, v1)" by (cases a)
  with Cons.prems obtain r where r: "p = q1" "q1 \<noteq> 0" "f_nodes s q1 = Some \<lparr>f_key = k1, f_value = v1, f_next = r\<rparr>"
    "flist (f_nodes s) r (as @ (q, key, v) # bs)" by auto
  have "k1 \<noteq> key" "key \<notin> fst ` snd ` set as" using Cons.prems(2) a by auto
  with Cons.IH [OF r(4) _ Cons.prems(3)] r(1-3) show ?case
    by (subst update_loop.simps) (simp del: fun_upd_apply)
qed

lemma flist_set_value:
  assumes "flist ns p (as @ (q, k, v) # bs)" "ns q = Some n" "distinct (map fst (as @ (q, k, v) # bs))"
  shows "flist (ns(q \<mapsto> n\<lparr>f_value := val\<rparr>)) p (as @ (q, k, val) # bs)"
  using assms
proof (induction as arbitrary: p)
  case Nil
  then have "p = q" "q \<noteq> 0" "n\<lparr>f_value := val\<rparr> = \<lparr>f_key = k, f_value = val, f_next = f_next n\<rparr>"
    "flist ns (f_next n) bs" "q \<notin> fst ` set bs" by auto
  then show ?case by (simp add: flist_frame del: fun_upd_apply) (simp add: fun_upd_same)
next
  case (Cons a as)
  obtain q1 k1 v1 where a: "a = (q1, k1, v1)" by (cases a)
  with Cons.prems have "q1 \<noteq> q" by auto
  with a Cons.prems Cons.IH show ?case by (simp del: fun_upd_apply add: fun_upd_other) blast
qed

section \<open>The invariant, for any allocator\<close>

text \<open>
  The nodes are those of the list and the auxiliary one, which points to the first; each lies in memory of
  the allocator, no key occurs twice, and \<^verbatim>\<open>size_\<close> is the length.
\<close>

definition find_inv :: "('a \<Rightarrow> nat set \<Rightarrow> bool) \<Rightarrow> ('k, 'a) find_cache \<Rightarrow> (nat \<times> 'k \<times> 'k) list \<Rightarrow> bool" where
  "find_inv live s xs \<longleftrightarrow>
     (\<exists>n. f_nodes s (f_aider s) = Some n \<and> f_next n = f_head s) \<and> flist (f_nodes s) (f_head s) xs \<and>
     distinct (f_aider s # map fst xs) \<and> dom (f_nodes s) = insert (f_aider s) (fst ` set xs) \<and>
     live (f_alloc s) (insert (f_aider s) (fst ` set xs)) \<and> distinct (map (\<lambda>e. fst (snd e)) xs) \<and>
     f_size s = int (length xs)"

lemma find_inv_first: "find_inv live s xs \<Longrightarrow> first_node s = Inr (f_head s)"
  by (auto simp: find_inv_def first_node_def)

lemma find_inv_find:
  "find_inv live s xs \<Longrightarrow> cache_find key s = Some (Inr (find_in key (map snd xs) 1))"
  using find_inv_first [of live s xs] find_loop_result [of "f_nodes s" "f_head s" xs key 1]
  by (auto simp: cache_find_def find_inv_def)

lemma entry_split:
  assumes "e \<in> snd ` set xs"
  obtains as q bs where "xs = as @ (q, e) # bs" "e \<notin> snd ` set as"
  using assms
proof (induction xs arbitrary: thesis)
  case (Cons x xs)
  show ?case
  proof (cases "snd x = e")
    case True
    then show ?thesis by (intro Cons.prems(1) [of "[]" "fst x" xs]) auto
  next
    case False
    with Cons.prems(2) have "e \<in> snd ` set xs" by auto
    then obtain as q bs where "xs = as @ (q, e) # bs" "e \<notin> snd ` set as" using Cons.IH by blast
    with False show ?thesis by (intro Cons.prems(1) [of "x # as" q bs]) auto
  qed
qed simp

lemma set_next_dom: "link_next p q ns = Inr ns' \<Longrightarrow> dom ns' = dom ns"
  by (cases "ns p") (simp_all add: link_next_def insert_absorb domI flip: fun_upd_def, metis dom_fun_upd domI insert_absorb option.distinct(1))

context allocator
begin

lemma find_push:
  assumes inv: "find_inv live s xs" and new: "fresh nb (f_alloc s)" and key: "key \<notin> fst ` snd ` set xs"
  shows "\<exists>q s'. cache_push alloc constr nb w key val s = Some (Inr (True, s')) \<and> find_inv live s' ((q, key, val) # xs)"
proof -
  obtain n where n: "f_nodes s (f_aider s) = Some n" "f_next n = f_head s" using inv by (auto simp: find_inv_def)
  obtain q a1 where al: "alloc nb (f_alloc s) = (q, a1)" by (cases "alloc nb (f_alloc s)")
  have lv: "live (f_alloc s) (insert (f_aider s) (fst ` set xs))" using inv by (simp add: find_inv_def)
  note q = alloc_constr [OF lv new al]
  let ?s = "s\<lparr>f_nodes := (f_nodes s)(q \<mapsto> \<lparr>f_key = key, f_value = val, f_next = f_head s\<rparr>, f_aider s \<mapsto> n\<lparr>f_next := q\<rparr>),
    f_alloc := constr q w a1, f_head := q, f_size := f_size s + 1\<rparr>"
  have "find_in key (map snd xs) 1 = (- 1, None)"
    using find_in_index [of 1 key "map snd xs"] find_in_value [of key "map snd xs" 1] key
    by (auto simp: prod_eq_iff image_image map_of_eq_None_iff)
  moreover have ne: "q \<noteq> f_aider s" using q(2) by auto
  ultimately have "cache_push alloc constr nb w key val s = Some (Inr (True, ?s))"
    using find_inv_find [OF inv, of key] al n by (simp add: cache_push_def cache_insert_def link_next_def)
  moreover have "f_aider s \<notin> fst ` set xs" "q \<notin> fst ` set xs" using inv q(2) by (auto simp: find_inv_def)
  then have "find_inv live ?s ((q, key, val) # xs)"
    using inv key q ne n(1) unfolding find_inv_def
    by (auto simp: flist_frame insert_commute simp del: fun_upd_apply) (auto simp: flist_frame insert_commute)
  ultimately show ?thesis by blast
qed

lemma find_pop:
  assumes inv: "find_inv live s (as @ (q, key, val) # bs)" and first: "(key, val) \<notin> snd ` set as"
  shows "\<exists>s'. cache_pop dealloc key val s = Some (Inr (True, s')) \<and> find_inv live s' (as @ bs)"
proof -
  let ?xs = "as @ (q, key, val) # bs"
  obtain l where l: "f_nodes s (f_aider s) = Some l" "f_next l = f_head s" using inv by (auto simp: find_inv_def)
  have list: "flist (f_nodes s) (f_head s) ?xs" and dist: "distinct (f_aider s # map fst ?xs)"
    and dom: "dom (f_nodes s) = insert (f_aider s) (fst ` set ?xs)"
    and lv: "live (f_alloc s) (insert (f_aider s) (fst ` set ?xs))" using inv by (auto simp: find_inv_def)
  have "q \<in> dom (f_nodes s)" using dom by simp
  then obtain n where n: "f_nodes s q = Some n" by blast
  obtain ns' l' where rm: "link_next (last (f_aider s # map fst as)) (f_next n) (f_nodes s) = Inr ns'"
    "(ns'(q := None)) (f_aider s) = Some l'" "f_next l' = (if as = [] then f_next n else f_head s)"
    "flist (ns'(q := None)) (f_next l') (as @ bs)"
    using flist_remove [OF l(1,2) list n dist] by blast
  have head: "f_head s = q \<longleftrightarrow> as = []" using list dist by (cases as) auto
  let ?s = "s\<lparr>f_nodes := ns'(q := None), f_size := f_size s - 1,
    f_head := (if f_head s = q then f_next n else f_head s), f_alloc := dealloc q (f_alloc s)\<rparr>"
  have run: "cache_pop dealloc key val s = Some (Inr (True, ?s))"
    using pop_loop_hit [OF l(1,2) list first n] find_inv_first [OF inv] rm(1) by (simp add: cache_pop_def unlink_def)
  have "dom ns' = dom (f_nodes s)" using rm(1) by (rule set_next_dom)
  then have "dom (ns'(q := None)) = insert (f_aider s) (fst ` set (as @ bs))"
    using dom dist by auto
  moreover have "live (dealloc q (f_alloc s)) (insert (f_aider s) (fst ` set (as @ bs)))"
  proof -
    have "insert (f_aider s) (fst ` set ?xs) - {q} = insert (f_aider s) (fst ` set (as @ bs))" using dist by auto
    with dealloc_live [OF lv, of q] show ?thesis by simp
  qed
  ultimately have "find_inv live ?s (as @ bs)"
    using inv rm(2-4) head dist unfolding find_inv_def by (auto simp del: fun_upd_apply)
  with run show ?thesis by blast
qed

lemma find_update:
  assumes inv: "find_inv live s (as @ (q, key, v) # bs)" and first: "key \<notin> fst ` snd ` set as"
  shows "\<exists>s'. cache_update key val s = Some (Inr (True, s')) \<and> find_inv live s' (as @ (q, key, val) # bs)"
proof -
  let ?xs = "as @ (q, key, v) # bs"
  have list: "flist (f_nodes s) (f_head s) ?xs" and dist: "distinct (f_aider s # map fst ?xs)"
    and dom: "dom (f_nodes s) = insert (f_aider s) (fst ` set ?xs)" using inv by (auto simp: find_inv_def)
  have "q \<in> dom (f_nodes s)" using dom by simp
  then obtain n where n: "f_nodes s q = Some n" by blast
  let ?s = "s\<lparr>f_nodes := (f_nodes s)(q \<mapsto> n\<lparr>f_value := val\<rparr>)\<rparr>"
  have "cache_update key val s = Some (Inr (True, ?s))"
    using update_loop_hit [OF list first n] find_inv_first [OF inv] by (simp add: cache_update_def)
  moreover have "flist (f_nodes ?s) (f_head s) (as @ (q, key, val) # bs)"
    using flist_set_value [OF list n] dist by simp
  moreover have "dom (f_nodes ?s) = dom (f_nodes s)" using n by auto
  moreover have "f_aider s \<noteq> q" using dist by auto
  ultimately show ?thesis
    using inv dom unfolding find_inv_def by (intro exI [of _ ?s]) (auto simp: fun_upd_other simp del: fun_upd_apply)
qed

lemma find_clear_loop:
  assumes "f_nodes s (f_aider s) = Some n0" "flist (f_nodes s) p xs" "distinct (f_aider s # map fst xs)"
    and "dom (f_nodes s) = insert (f_aider s) (fst ` set xs)" "live (f_alloc s) (insert (f_aider s) (fst ` set xs))"
  shows "\<exists>s'. clear_loop dealloc p s out = Some (Inr (out @ map snd xs, s')) \<and> f_aider s' = f_aider s \<and>
    dom (f_nodes s') = {f_aider s} \<and> live (f_alloc s') {f_aider s}"
  using assms
proof (induction xs arbitrary: s p n0 out)
  case Nil
  then show ?case by (simp add: clear_loop.simps)
next
  case (Cons x xs)
  obtain q k v where x: "x = (q, k, v)" by (cases x)
  with Cons.prems(2) obtain r where r: "p = q" "q \<noteq> 0" "f_nodes s q = Some \<lparr>f_key = k, f_value = v, f_next = r\<rparr>"
    "flist (f_nodes s) r xs" by auto
  let ?ns = "(f_nodes s)(f_aider s \<mapsto> n0\<lparr>f_next := r\<rparr>, q := None)"
  let ?s = "s\<lparr>f_nodes := ?ns, f_alloc := dealloc q (f_alloc s)\<rparr>"
  have out: "f_aider s \<noteq> q" "f_aider s \<notin> fst ` set xs" "q \<notin> fst ` set xs" "distinct (f_aider s # map fst xs)"
    using Cons.prems(3) x by auto
  have "clear_loop dealloc p s out = clear_loop dealloc r ?s (out @ [(k, v)])"
    using r Cons.prems(1) by (subst clear_loop.simps) (simp add: link_next_def del: fun_upd_apply)
  moreover have "\<exists>s'. clear_loop dealloc r ?s (out @ [(k, v)]) = Some (Inr ((out @ [(k, v)]) @ map snd xs, s')) \<and>
      f_aider s' = f_aider ?s \<and> dom (f_nodes s') = {f_aider ?s} \<and> live (f_alloc s') {f_aider ?s}"
  proof (rule Cons.IH)
    show "f_nodes ?s (f_aider ?s) = Some (n0\<lparr>f_next := r\<rparr>)" using out by simp
    show "flist (f_nodes ?s) r xs" using r(4) out by (simp add: flist_frame del: fun_upd_apply)
    show "distinct (f_aider ?s # map fst xs)" using out by simp
    show "dom (f_nodes ?s) = insert (f_aider ?s) (fst ` set xs)" using Cons.prems(4) out x by auto
    show "live (f_alloc ?s) (insert (f_aider ?s) (fst ` set xs))"
      using dealloc_live [OF Cons.prems(5), of q] x out by (auto simp: insert_Diff_if)
  qed
  ultimately show ?case using x by simp
qed

lemma find_clear:
  assumes inv: "find_inv live s xs"
  shows "\<exists>s'. cache_clear dealloc s = Some (Inr (map snd xs, s')) \<and> f_nodes s' = Map.empty \<and> live (f_alloc s') {}"
proof -
  obtain n0 where "f_nodes s (f_aider s) = Some n0" using inv by (auto simp: find_inv_def)
  then obtain s' where s': "clear_loop dealloc (f_head s) s [] = Some (Inr (map snd xs, s'))" "f_aider s' = f_aider s"
    "dom (f_nodes s') = {f_aider s}" "live (f_alloc s') {f_aider s}"
    using find_clear_loop [of s n0 "f_head s" xs "[]"] inv by (auto simp: find_inv_def)
  let ?s = "s'\<lparr>f_nodes := (f_nodes s')(f_aider s' := None), f_alloc := dealloc (f_aider s') (f_alloc s')\<rparr>"
  have "cache_clear dealloc s = Some (Inr (map snd xs, ?s))"
    using s' find_inv_first [OF inv] by (simp add: cache_clear_def)
  moreover have "dom ((f_nodes s')(f_aider s' := None)) = {}" using s'(2,3) by auto
  then have "(f_nodes s')(f_aider s' := None) = Map.empty" by (simp only: dom_eq_empty_conv)
  moreover have "live (dealloc (f_aider s') (f_alloc s')) {}" using dealloc_live [OF s'(4), of "f_aider s'"] s'(2) by simp
  ultimately show ?thesis by (intro exI [of _ ?s]) (simp del: fun_upd_apply)
qed

lemma find_ctor:
  assumes "live a {}" "fresh nb a"
  shows "find_inv live (find_cache_ctor alloc constr nb w dflt a) []"
proof -
  obtain p a1 where al: "alloc nb a = (p, a1)" by (cases "alloc nb a")
  show ?thesis using alloc_constr [OF assms al] al by (simp add: find_inv_def find_cache_ctor_def)
qed

end

section \<open>On the memory pool\<close>

lemma alist_update:
  assumes "distinct (map fst (as @ (key, v) # bs))"
  shows "map (\<lambda>(k, u). (k, if k = key then val else u)) (as @ (key, v) # bs) = as @ (key, val) # bs"
proof -
  have "map (\<lambda>(k, u). (k, if k = key then val else u)) cs = cs" if "key \<notin> fst ` set cs" for cs
    using that by (induction cs) auto
  with assms show ?thesis by auto
qed

text \<open>
  C29. Over the memory pool \<^verbatim>\<open>FindCache\<close> implements a list of pairs with distinct keys: \<^verbatim>\<open>push\<close> adds an unknown key
  in front and refuses a known one, \<^verbatim>\<open>find\<close> gives position and value, \<^verbatim>\<open>pop\<close> takes out exactly the given
  pair, \<^verbatim>\<open>update\<close> replaces the value of a known key, and \<^verbatim>\<open>clear\<close> frees every node. No operation faults or
  runs forever.
\<close>

theorem find_cache_refines:
  assumes inv: "find_inv (pool_live c) s xs" and new: "block_fresh c nb (f_alloc s)"
  shows "cache_find key s = Some (Inr (find_in key (map snd xs) 1)) \<and>
    (\<exists>s' xs'. cache_push (allocate c) construct nb w key val s = Some (Inr (key \<notin> fst ` snd ` set xs, s')) \<and>
       find_inv (pool_live c) s' xs' \<and>
       map snd xs' = (if key \<in> fst ` snd ` set xs then map snd xs else (key, val) # map snd xs)) \<and>
    (\<exists>s' xs'. cache_pop deallocate key val s = Some (Inr ((key, val) \<in> snd ` set xs, s')) \<and>
       find_inv (pool_live c) s' xs' \<and> map snd xs' = filter (\<lambda>e. e \<noteq> (key, val)) (map snd xs)) \<and>
    (\<exists>s' xs'. cache_update key val s = Some (Inr (key \<in> fst ` snd ` set xs, s')) \<and>
       find_inv (pool_live c) s' xs' \<and> map snd xs' = map (\<lambda>(k, u). (k, if k = key then val else u)) (map snd xs)) \<and>
    (\<exists>s'. cache_clear deallocate s = Some (Inr (map snd xs, s')) \<and> f_nodes s' = Map.empty \<and>
       pool_live c (f_alloc s') {})"
proof (intro conjI)
  have list: "flist (f_nodes s) (f_head s) xs" and keys: "distinct (map fst (map snd xs))"
    and aider: "\<exists>n. f_nodes s (f_aider s) = Some n \<and> f_next n = f_head s"
    using inv by (auto simp: find_inv_def comp_def)
  show find: "cache_find key s = Some (Inr (find_in key (map snd xs) 1))" by (rule find_inv_find [OF inv])
  show "\<exists>s' xs'. cache_push (allocate c) construct nb w key val s = Some (Inr (key \<notin> fst ` snd ` set xs, s')) \<and>
       find_inv (pool_live c) s' xs' \<and>
       map snd xs' = (if key \<in> fst ` snd ` set xs then map snd xs else (key, val) # map snd xs)"
  proof (cases "key \<in> fst ` snd ` set xs")
    case True
    then have "fst (find_in key (map snd xs) 1) \<noteq> - 1"
      using find_in_index [of 1 key "map snd xs"] by (simp add: image_image)
    with find inv True show ?thesis by (intro exI [of _ s] exI [of _ xs]) (simp add: cache_push_def case_prod_unfold)
  next
    case False
    from mpool.find_push [OF inv new this, of w val] False show ?thesis by fastforce
  qed
  show "\<exists>s' xs'. cache_pop deallocate key val s = Some (Inr ((key, val) \<in> snd ` set xs, s')) \<and>
       find_inv (pool_live c) s' xs' \<and> map snd xs' = filter (\<lambda>e. e \<noteq> (key, val)) (map snd xs)"
  proof (cases "(key, val) \<in> snd ` set xs")
    case True
    then obtain as q bs where xs: "xs = as @ (q, key, val) # bs" "(key, val) \<notin> snd ` set as" by (rule entry_split)
    have "(key, val) \<notin> snd ` set bs" using keys xs(1) by force
    then have "map snd (as @ bs) = filter (\<lambda>e. e \<noteq> (key, val)) (map snd xs)"
      using xs by (auto simp: filter_id_conv intro!: arg_cong2 [where f = append] filter_True [symmetric])
    moreover obtain s' where "cache_pop deallocate key val s = Some (Inr (True, s'))" "find_inv (pool_live c) s' (as @ bs)"
      using mpool.find_pop [of c s as q key val bs] inv xs by blast
    ultimately show ?thesis using True by (intro exI [of _ s'] exI [of _ "as @ bs"]) simp
  next
    case False
    have "cache_pop deallocate key val s = Some (Inr (False, s))"
      using aider pop_loop_miss [OF _ _ list False] find_inv_first [OF inv] by (auto simp: cache_pop_def)
    moreover have "map snd xs = filter (\<lambda>e. e \<noteq> (key, val)) (map snd xs)"
      using False by (intro filter_True [symmetric]) force
    ultimately show ?thesis using False inv by (intro exI [of _ s] exI [of _ xs]) simp
  qed
  show "\<exists>s' xs'. cache_update key val s = Some (Inr (key \<in> fst ` snd ` set xs, s')) \<and>
       find_inv (pool_live c) s' xs' \<and> map snd xs' = map (\<lambda>(k, u). (k, if k = key then val else u)) (map snd xs)"
  proof (cases "key \<in> fst ` snd ` set xs")
    case True
    then obtain v where "(key, v) \<in> snd ` set xs" by force
    then obtain as q bs where xs: "xs = as @ (q, key, v) # bs" by (rule entry_split)
    then have "key \<notin> fst ` snd ` set as" using keys by force
    then obtain s' where "cache_update key val s = Some (Inr (True, s'))" "find_inv (pool_live c) s' (as @ (q, key, val) # bs)"
      using mpool.find_update [of c s as q key v bs] inv xs by blast
    with True keys xs alist_update [of "map snd as" key v "map snd bs" val] show ?thesis
      by (intro exI [of _ s'] exI [of _ "as @ (q, key, val) # bs"]) simp
  next
    case False
    have "map (\<lambda>(k, u). (k, if k = key then val else u)) (map snd xs) = map snd xs"
      using False by (intro map_idI) force
    then show ?thesis
      using False inv update_loop_miss [OF list False] find_inv_first [OF inv]
      by (intro exI [of _ s] exI [of _ xs]) (simp add: cache_update_def)
  qed
  show "\<exists>s'. cache_clear deallocate s = Some (Inr (map snd xs, s')) \<and> f_nodes s' = Map.empty \<and> pool_live c (f_alloc s') {}"
    by (rule mpool.find_clear [OF inv])
qed

theorem find_cache_refines_witness:
  "\<exists>s s' xs'. s = find_cache_ctor (allocate demo_cfg) construct 4096 7 [] (pool_new (\<lambda>_. 0)) \<and>
     cache_push (allocate demo_cfg) construct 12288 7 ''ann'' ''pw'' s = Some (Inr (True, s')) \<and>
     find_inv (pool_live demo_cfg) s' xs' \<and> map snd xs' = [(''ann'', ''pw'')]"
proof -
  let ?p = "pool_new (\<lambda>_. 0)"
  let ?s = "find_cache_ctor (allocate demo_cfg) construct 4096 7 [] ?p"
  have "pool_live demo_cfg ?p {}" using pool_inv_new [OF demo_cfg_ok] by (auto simp: pool_live_def)
  moreover have "block_fresh demo_cfg 4096 ?p" by (simp add: block_fresh_def pool_new_def)
  ultimately have inv: "find_inv (pool_live demo_cfg) ?s []" by (rule mpool.find_ctor)
  obtain p1 where "allocate demo_cfg 4096 ?p = (4112, p1)" "currentBlock p1 = 4096" "store p1 4096 = 0"
    by (simp add: allocate_def pool_new_def new_block_def first_slot_def demo_cfg_def Let_def)
  then have "currentBlock (f_alloc ?s) = 4096" "store (f_alloc ?s) 4096 = 0"
    by (simp_all add: find_cache_ctor_def construct_def)
  moreover have "block_fresh demo_cfg 12288 a" if "currentBlock a = 4096" "store a 4096 = 0" for a
    using that by (auto simp: block_fresh_def chain_Cons_ptr apart_def demo_cfg_def)
  ultimately have "block_fresh demo_cfg 12288 (f_alloc ?s)" by blast
  from find_cache_refines [OF inv this, of "''ann''" 7 "''pw''"] show ?thesis by simp
qed

end
