(* ===== verification/Threads.thy ===== *)
theory Threads
  imports Prelude
begin

text \<open>
  \<^verbatim>\<open>src/CoroutineLibrary/thread.h\<close> and \<^verbatim>\<open>thread.cpp\<close>: the semaphore made of a mutex and a condition variable,
  and a thread whose constructor waits on it for the new thread's first steps; and \<^verbatim>\<open>Sem\<close> of
  \<^verbatim>\<open>src/util/locker.h\<close>, a POSIX semaphore. What happens under the mutex is one step; a thread in
  \<^verbatim>\<open>cv.wait\<close> is blocked until a notification, or for no reason, makes it look again.
\<close>

section \<open>Semaphores\<close>

text \<open>\<^verbatim>\<open>Sem\<close>: \<open>rc\<close> is the answer of \<^verbatim>\<open>sem_init\<close>; \<open>None\<close> is a wait that blocks.\<close>

definition Sem_ctor :: "int \<Rightarrow> int \<Rightarrow> int result" where
  "Sem_ctor rc num = (if rc \<noteq> 0 then Inl Uncaught_Exception else Inr num)"

definition Sem_wait :: "int \<Rightarrow> int option" where
  "Sem_wait v = (if 0 < v then Some (v - 1) else None)"

definition Sem_post :: "int \<Rightarrow> int" where
  "Sem_post v = v + 1"

text \<open>\<^verbatim>\<open>Semaphore\<close>: the threads inside of \<^verbatim>\<open>cv.wait\<close>, and those that left it and have to look again.\<close>

record semaphore =
  sem_count :: int
  blocked :: "nat set"
  woken :: "nat set"

definition semaphore_ctor :: "int \<Rightarrow> semaphore" where
  "semaphore_ctor n = \<lparr>sem_count = n, blocked = {}, woken = {}\<rparr>"

text \<open>One look at the count, on arrival or after \<^verbatim>\<open>cv.wait\<close>: true when the thread leaves \<^verbatim>\<open>wait\<close>.\<close>

definition sem_look :: "nat \<Rightarrow> semaphore \<Rightarrow> bool \<times> semaphore" where
  "sem_look t s =
     (if sem_count s = 0 then (False, s\<lparr>blocked := insert t (blocked s), woken := woken s - {t}\<rparr>)
      else (True, s\<lparr>sem_count := sem_count s - 1, woken := woken s - {t}\<rparr>))"

definition sem_wake :: "nat \<Rightarrow> semaphore \<Rightarrow> semaphore" where
  "sem_wake t s = s\<lparr>blocked := blocked s - {t}, woken := insert t (woken s)\<rparr>"

text \<open>\<^verbatim>\<open>signal\<close>; \<open>t\<close> is the thread \<^verbatim>\<open>notify_one\<close> picks, when one is blocked.\<close>

definition sem_signal :: "nat \<Rightarrow> semaphore \<Rightarrow> semaphore" where
  "sem_signal t s =
     (let s1 = s\<lparr>sem_count := sem_count s + 1\<rparr> in if blocked s1 = {} then s1 else sem_wake t s1)"

text \<open>Any use of one semaphore; the second component counts the signals and the waits that returned.\<close>

inductive sem_step :: "semaphore \<times> nat \<times> nat \<Rightarrow> semaphore \<times> nat \<times> nat \<Rightarrow> bool" where
  arrive: "t \<notin> blocked s \<Longrightarrow> t \<notin> woken s \<Longrightarrow> sem_look t s = (passed, s') \<Longrightarrow>
    sem_step (s, posts, waits) (s', posts, if passed then Suc waits else waits)"
| look: "t \<in> woken s \<Longrightarrow> sem_look t s = (passed, s') \<Longrightarrow>
    sem_step (s, posts, waits) (s', posts, if passed then Suc waits else waits)"
| spurious: "t \<in> blocked s \<Longrightarrow> sem_step (s, posts, waits) (sem_wake t s, posts, waits)"
| signal: "t \<in> blocked s \<or> blocked s = {} \<Longrightarrow> sem_step (s, posts, waits) (sem_signal t s, Suc posts, waits)"

text \<open>A count with somebody blocked is matched by threads on their way out of \<^verbatim>\<open>cv.wait\<close>.\<close>

definition sem_inv :: "nat \<Rightarrow> semaphore \<times> nat \<times> nat \<Rightarrow> bool" where
  "sem_inv n x \<longleftrightarrow> (case x of (s, posts, waits) \<Rightarrow>
     finite (blocked s) \<and> finite (woken s) \<and> blocked s \<inter> woken s = {} \<and> 0 \<le> sem_count s \<and>
     sem_count s + int waits = int n + int posts \<and>
     (blocked s \<noteq> {} \<longrightarrow> sem_count s \<le> int (card (woken s))))"

lemma card_remove_int: "finite A \<Longrightarrow> int (card (A - {t})) = int (card A) - (if t \<in> A then 1 else 0)"
  using card_gt_0_iff [of A] by (cases "t \<in> A") (auto simp: card_Diff_singleton of_nat_diff Suc_leI)

lemma sem_step_inv:
  assumes "sem_step x y" "sem_inv n x"
  shows "sem_inv n y"
  using assms
proof (induction rule: sem_step.induct)
  case (arrive t s passed s' posts waits)
  then show ?case by (auto simp: sem_inv_def sem_look_def split: if_splits)
next
  case (look t s passed s' posts waits)
  then have "sem_inv n (s, posts, waits)" by simp
  then show ?case
    using look(1,2) card_remove_int [of "woken s" t] by (auto simp: sem_inv_def sem_look_def split: if_splits)
next
  case (spurious t s posts waits)
  then have "t \<notin> woken s" by (auto simp: sem_inv_def)
  with spurious show ?case by (auto simp: sem_inv_def sem_wake_def card_insert_if)
next
  case (signal t s posts waits)
  show ?case
  proof (cases "blocked s = {}")
    case True
    with signal(2) show ?thesis by (auto simp: sem_inv_def sem_signal_def)
  next
    case False
    with signal(1) have t: "t \<in> blocked s" by simp
    with signal(2) have "t \<notin> woken s" by (auto simp: sem_inv_def)
    with t False signal(2) show ?thesis by (auto simp: sem_inv_def sem_signal_def sem_wake_def card_insert_if)
  qed
qed

definition sem_started :: "nat \<Rightarrow> semaphore \<times> nat \<times> nat \<Rightarrow> bool" where
  "sem_started n x \<longleftrightarrow> x = (semaphore_ctor (int n), 0, 0)"

lemma sem_started_inv: "sem_started n x \<Longrightarrow> sem_inv n x"
  by (simp add: sem_started_def sem_inv_def semaphore_ctor_def)

interpretation sem: step_invariant "sem_started n" sem_step "sem_inv n" for n
  by unfold_locales (rule sem_started_inv sem_step_inv; assumption)+

section \<open>A thread and its constructor\<close>

text \<open>Where the constructing thread and the new one are. The constructing thread is number 0 for the semaphore.\<close>

datatype creator_pc = Creating | Waiting | In_Wait | Constructed | Joined | Threw

datatype runner_pc = No_Thread | Started | Ready | Calling | Returned

record thread_sys =
  th_sem :: semaphore
  creator :: creator_pc
  runner :: runner_pc
  th_handle :: bool
  th_id :: int
  th_cb :: bool
  cb_runs :: nat

definition thread_new :: thread_sys where
  "thread_new = \<lparr>th_sem = semaphore_ctor 0, creator = Creating, runner = No_Thread, th_handle = False, th_id = - 1,
     th_cb = True, cb_runs = 0\<rparr>"

text \<open>\<^verbatim>\<open>pthread_create\<close>, with its answer \<open>rt\<close>; then \<^verbatim>\<open>m_semaphore.wait()\<close>.\<close>

definition thread_create :: "int \<Rightarrow> thread_sys \<Rightarrow> thread_sys" where
  "thread_create rt s = (if rt \<noteq> 0 then s\<lparr>creator := Threw\<rparr>
     else s\<lparr>creator := Waiting, runner := Started, th_handle := True\<rparr>)"

definition creator_look :: "thread_sys \<Rightarrow> thread_sys" where
  "creator_look s =
     (case sem_look 0 (th_sem s) of (passed, sem1) \<Rightarrow>
        s\<lparr>th_sem := sem1, creator := (if passed then Constructed else In_Wait)\<rparr>)"

text \<open>\<^verbatim>\<open>run\<close>: the members are set and the callback is swapped out; the signal; the call.\<close>

definition run_init :: "int \<Rightarrow> thread_sys \<Rightarrow> thread_sys" where
  "run_init tid s = s\<lparr>th_id := tid, th_cb := False, runner := Ready\<rparr>"

definition run_signal :: "thread_sys \<Rightarrow> thread_sys" where
  "run_signal s = s\<lparr>th_sem := sem_signal 0 (th_sem s), runner := Calling\<rparr>"

definition run_call :: "thread_sys \<Rightarrow> thread_sys" where
  "run_call s = s\<lparr>cb_runs := Suc (cb_runs s), runner := Returned\<rparr>"

text \<open>\<^verbatim>\<open>join\<close> returns when the thread has ended; \<open>rt\<close> is the answer of \<^verbatim>\<open>pthread_join\<close>.\<close>

definition thread_join :: "int \<Rightarrow> thread_sys \<Rightarrow> thread_sys" where
  "thread_join rt s =
     (if th_handle s then if rt \<noteq> 0 then s\<lparr>creator := Threw\<rparr> else s\<lparr>th_handle := False, creator := Joined\<rparr>
      else s)"

definition thread_dtor :: "thread_sys \<Rightarrow> thread_sys" where
  "thread_dtor s = (if th_handle s then s\<lparr>th_handle := False\<rparr> else s)"

text \<open>The steps of the two threads, and beside them wake-ups for no reason.\<close>

inductive thread_work :: "int \<Rightarrow> thread_sys \<Rightarrow> thread_sys \<Rightarrow> bool" for tid where
  create: "creator s = Creating \<Longrightarrow> thread_work tid s (thread_create rt s)"
| arrive: "creator s = Waiting \<Longrightarrow> thread_work tid s (creator_look s)"
| look: "creator s = In_Wait \<Longrightarrow> 0 \<in> woken (th_sem s) \<Longrightarrow> thread_work tid s (creator_look s)"
| init: "runner s = Started \<Longrightarrow> thread_work tid s (run_init tid s)"
| signal: "runner s = Ready \<Longrightarrow> thread_work tid s (run_signal s)"
| call: "runner s = Calling \<Longrightarrow> thread_work tid s (run_call s)"
| join: "creator s = Constructed \<Longrightarrow> runner s = Returned \<Longrightarrow> thread_work tid s (thread_join rt s)"

inductive thread_step :: "int \<Rightarrow> thread_sys \<Rightarrow> thread_sys \<Rightarrow> bool" for tid where
  work: "thread_work tid s s' \<Longrightarrow> thread_step tid s s'"
| spurious: "0 \<in> blocked (th_sem s) \<Longrightarrow> thread_step tid s (s\<lparr>th_sem := sem_wake 0 (th_sem s)\<rparr>)"

definition thread_inv :: "int \<Rightarrow> thread_sys \<Rightarrow> bool" where
  "thread_inv tid s \<longleftrightarrow>
     (creator s = Creating \<longleftrightarrow> runner s = No_Thread \<and> creator s \<noteq> Threw) \<and>
     (runner s \<in> {Ready, Calling, Returned} \<longrightarrow> th_id s = tid \<and> \<not> th_cb s) \<and>
     cb_runs s = (if runner s = Returned then 1 else 0) \<and>
     (creator s \<in> {Constructed, Joined} \<longrightarrow> runner s \<in> {Calling, Returned}) \<and>
     (creator s = Joined \<longrightarrow> runner s = Returned) \<and>
     (creator s \<in> {Creating, Waiting} \<longrightarrow> blocked (th_sem s) = {} \<and> woken (th_sem s) = {}) \<and>
     (creator s = In_Wait \<longrightarrow> blocked (th_sem s) = {0} \<and> woken (th_sem s) = {} \<or>
        blocked (th_sem s) = {} \<and> woken (th_sem s) = {0}) \<and>
     (creator s \<in> {Constructed, Joined} \<longrightarrow> blocked (th_sem s) = {} \<and> woken (th_sem s) = {}) \<and>
     (creator s \<in> {Creating, Waiting, In_Wait} \<longrightarrow>
        sem_count (th_sem s) = (if runner s \<in> {Calling, Returned} then 1 else 0)) \<and>
     (creator s = In_Wait \<and> runner s \<in> {Calling, Returned} \<longrightarrow> 0 \<in> woken (th_sem s))"

lemma thread_inv_work:
  assumes "thread_work tid s s'" "thread_inv tid s"
  shows "thread_inv tid s'"
  using assms
proof (induction rule: thread_work.induct)
  case (create s rt)
  then show ?case by (auto simp: thread_inv_def thread_create_def)
next
  case (arrive s)
  then show ?case by (auto simp: thread_inv_def creator_look_def sem_look_def split: if_splits)
next
  case (look s)
  then show ?case by (auto simp: thread_inv_def creator_look_def sem_look_def split: if_splits)
next
  case (init s)
  then show ?case by (auto simp: thread_inv_def run_init_def)
next
  case (signal s)
  have "creator s \<noteq> Constructed" "creator s \<noteq> Joined" "creator s \<noteq> Creating"
    using signal by (auto simp: thread_inv_def)
  then consider "creator s = Waiting" | "creator s = In_Wait" | "creator s = Threw" by (cases "creator s") auto
  then show ?case
  proof cases
    case 1
    with signal show ?thesis by (simp add: thread_inv_def run_signal_def sem_signal_def)
  next
    case 2
    with signal have "blocked (th_sem s) = {0} \<and> woken (th_sem s) = {} \<or> blocked (th_sem s) = {} \<and> woken (th_sem s) = {0}"
      by (simp add: thread_inv_def)
    with 2 signal show ?thesis
      by (elim disjE) (simp_all add: thread_inv_def run_signal_def sem_signal_def sem_wake_def)
  next
    case 3
    with signal show ?thesis by (simp add: thread_inv_def run_signal_def)
  qed
next
  case (call s)
  then show ?case by (auto simp: thread_inv_def run_call_def)
next
  case (join s rt)
  then show ?case by (auto simp: thread_inv_def thread_join_def)
qed

lemma thread_inv_step:
  assumes "thread_step tid s s'" "thread_inv tid s"
  shows "thread_inv tid s'"
  using assms
proof cases
  case work
  then show ?thesis using thread_inv_work assms(2) by blast
next
  case spurious
  with assms(2) show ?thesis by (cases "creator s") (auto simp: thread_inv_def sem_wake_def)
qed

lemma thread_new_inv: "s = thread_new \<Longrightarrow> thread_inv tid s"
  by (simp add: thread_inv_def thread_new_def semaphore_ctor_def)

interpretation threads: step_invariant "(=) thread_new" "thread_step tid" "thread_inv tid" for tid
  by unfold_locales (auto intro: thread_new_inv thread_inv_step)

lemma creator_passes:
  assumes "thread_inv tid s" "creator s \<in> {Waiting, In_Wait}" "runner s \<in> {Calling, Returned}"
  shows "\<exists>s'. thread_work tid s s' \<and> creator s' = Constructed"
proof -
  have c: "sem_count (th_sem s) = 1" and w: "creator s = In_Wait \<Longrightarrow> 0 \<in> woken (th_sem s)"
    using assms by (auto simp: thread_inv_def)
  have "creator (creator_look s) = Constructed" using c by (simp add: creator_look_def sem_look_def)
  moreover have "thread_work tid s (creator_look s)"
    using assms(2) w thread_work.arrive [of s tid] thread_work.look [of s tid] by blast
  ultimately show ?thesis by blast
qed

text \<open>
  The thread-local pointer to the own \<^verbatim>\<open>Thread\<close> (none on a thread the system made) and the thread-local name,
  beside the names of the \<^verbatim>\<open>Thread\<close> objects.
\<close>

record thread_names =
  t_thread :: "nat \<Rightarrow> nat option"
  t_thread_name :: "nat \<Rightarrow> string"
  thread_name :: "nat \<Rightarrow> string"

definition thread_names0 :: thread_names where
  "thread_names0 = \<lparr>t_thread = (\<lambda>_. None), t_thread_name = (\<lambda>_. ''UNKNOWN''), thread_name = (\<lambda>_. [])\<rparr>"

definition Thread_GetThis :: "nat \<Rightarrow> thread_names \<Rightarrow> nat option" where
  "Thread_GetThis t w = t_thread w t"

definition GetName :: "nat \<Rightarrow> thread_names \<Rightarrow> string" where
  "GetName t w = t_thread_name w t"

definition SetName :: "nat \<Rightarrow> string \<Rightarrow> thread_names \<Rightarrow> thread_names" where
  "SetName t name w =
     (let w1 = (case t_thread w t of None \<Rightarrow> w | Some th \<Rightarrow> w\<lparr>thread_name := (thread_name w)(th := name)\<rparr>)
      in w1\<lparr>t_thread_name := (t_thread_name w1)(t := name)\<rparr>)"

text \<open>The first two assignments of \<^verbatim>\<open>run\<close> on the new thread \<open>t\<close>, and the name the kernel is given.\<close>

definition run_names :: "nat \<Rightarrow> nat \<Rightarrow> thread_names \<Rightarrow> string \<times> thread_names" where
  "run_names t th w =
     (take 15 (thread_name w th),
      w\<lparr>t_thread := (t_thread w)(t := Some th), t_thread_name := (t_thread_name w)(t := thread_name w th)\<rparr>)"

text \<open>A thread that was started and the object that stands for it agree on the name, whoever sets it.\<close>

definition names_agree :: "thread_names \<Rightarrow> bool" where
  "names_agree w \<longleftrightarrow> (\<forall>t th. t_thread w t = Some th \<longrightarrow> t_thread_name w t = thread_name w th) \<and>
     (\<forall>t t' th. t_thread w t = Some th \<longrightarrow> t_thread w t' = Some th \<longrightarrow> t = t')"

lemma names_agree_run: "names_agree w \<Longrightarrow> (\<And>t'. t_thread w t' \<noteq> Some th) \<Longrightarrow> names_agree (snd (run_names t th w))"
  by (auto simp: names_agree_def run_names_def)

lemma names_agree_SetName: "names_agree w \<Longrightarrow> names_agree (SetName t name w) \<and> GetName t (SetName t name w) = name"
  by (auto simp: names_agree_def SetName_def GetName_def split: option.splits)

section \<open>Properties\<close>

text \<open>
  C30. No wake-up of the semaphore is lost, whatever the threads do: the count is what was signalled and not yet
  taken, never negative, and whenever it is positive while somebody is blocked, some thread has left \<^verbatim>\<open>cv.wait\<close> and
  takes from the count as soon as it looks.
\<close>

theorem semaphore_no_lost_wakeup:
  assumes "sem_started n x" "sem_step\<^sup>*\<^sup>* x (s, posts, waits)"
  shows "sem_count s = int n + int posts - int waits \<and> waits \<le> n + posts \<and>
    (0 < sem_count s \<longrightarrow> blocked s \<noteq> {} \<longrightarrow>
       (\<exists>t \<in> woken s. sem_look t s = (True, s\<lparr>sem_count := sem_count s - 1, woken := woken s - {t}\<rparr>)))"
proof -
  have inv: "sem_inv n (s, posts, waits)" using assms by (rule sem.reachable_inv)
  have "\<exists>t. t \<in> woken s" if "0 < sem_count s" "blocked s \<noteq> {}"
  proof -
    have "0 < int (card (woken s))" using inv that by (auto simp: sem_inv_def)
    then have "woken s \<noteq> {}" by auto
    then show ?thesis by blast
  qed
  then show ?thesis using inv by (auto simp: sem_inv_def sem_look_def)
qed

text \<open>Two threads wait for a semaphore of count 0; a signal wakes one of them.\<close>

theorem semaphore_no_lost_wakeup_witness:
  "\<exists>s. sem_step\<^sup>*\<^sup>* (semaphore_ctor 0, 0, 0) (s, 1, 0) \<and> sem_count s = 1 \<and> blocked s = {2} \<and>
     (\<exists>t \<in> woken s. fst (sem_look t s))"
proof -
  let ?s1 = "\<lparr>sem_count = 0, blocked = {1}, woken = {}\<rparr>" and ?s2 = "\<lparr>sem_count = 0, blocked = {2, 1}, woken = {}\<rparr>"
  let ?s3 = "\<lparr>sem_count = 1, blocked = {2}, woken = {1}\<rparr>"
  have step1: "sem_step (semaphore_ctor 0, 0, 0) (?s1, 0, 0)"
    using sem_step.arrive [of 1 "semaphore_ctor 0" False ?s1 0 0] by (simp add: semaphore_ctor_def sem_look_def)
  have step2: "sem_step (?s1, 0, 0) (?s2, 0, 0)"
    using sem_step.arrive [of 2 ?s1 False ?s2 0 0] by (simp add: sem_look_def)
  have "sem_signal 1 ?s2 = ?s3" by (auto simp: sem_signal_def sem_wake_def)
  then have step3: "sem_step (?s2, 0, 0) (?s3, 1, 0)" using sem_step.signal [of 1 ?s2 0 0] by simp
  have run: "sem_step\<^sup>*\<^sup>* (semaphore_ctor 0, 0, 0) (?s3, 1, 0)"
    by (rule rtranclp.rtrancl_into_rtrancl [OF rtranclp.rtrancl_into_rtrancl [OF r_into_rtranclp]], rule step1, rule step2, rule step3)
  have "sem_started 0 (semaphore_ctor 0, 0, 0)" by (simp add: sem_started_def)
  from semaphore_no_lost_wakeup [OF this run] run show ?thesis by (intro exI [of _ ?s3]) auto
qed

text \<open>
  C31. The constructor of \<^verbatim>\<open>Thread\<close> returns only when the new thread has noted its id and taken the callback; it always
  can return once the thread was made, without a wake-up for no reason; and the callback runs once, before
  \<^verbatim>\<open>join\<close> returns.
\<close>

theorem thread_ready_when_constructed:
  assumes "(thread_step tid)\<^sup>*\<^sup>* thread_new s"
  shows "(creator s \<in> {Constructed, Joined} \<longrightarrow> th_id s = tid \<and> \<not> th_cb s) \<and> cb_runs s \<le> 1 \<and>
    (creator s = Joined \<longrightarrow> cb_runs s = 1) \<and>
    (creator s \<in> {Waiting, In_Wait} \<longrightarrow> (\<exists>s'. (thread_work tid)\<^sup>*\<^sup>* s s' \<and> creator s' = Constructed))"
proof -
  have inv: "thread_inv tid s" using refl assms by (rule threads.reachable_inv)
  have called: "\<exists>s'. (thread_work tid)\<^sup>*\<^sup>* u s' \<and> creator s' = Constructed"
    if "thread_inv tid u" "creator u \<in> {Waiting, In_Wait}" "runner u \<in> {Calling, Returned}" for u
    using creator_passes [OF that] by blast
  have ready: "\<exists>s'. (thread_work tid)\<^sup>*\<^sup>* u s' \<and> creator s' = Constructed"
    if u: "thread_inv tid u" "creator u \<in> {Waiting, In_Wait}" "runner u = Ready" for u
  proof -
    have step: "thread_work tid u (run_signal u)" using u(3) by (rule thread_work.signal)
    have "creator (run_signal u) \<in> {Waiting, In_Wait}" "runner (run_signal u) \<in> {Calling, Returned}"
      using u(2) by (simp_all add: run_signal_def)
    from called [OF thread_inv_work [OF step u(1)] this] show ?thesis
      using step by (meson converse_rtranclp_into_rtranclp)
  qed
  have started: "\<exists>s'. (thread_work tid)\<^sup>*\<^sup>* u s' \<and> creator s' = Constructed"
    if u: "thread_inv tid u" "creator u \<in> {Waiting, In_Wait}" "runner u = Started" for u
  proof -
    have step: "thread_work tid u (run_init tid u)" using u(3) by (rule thread_work.init)
    have "creator (run_init tid u) \<in> {Waiting, In_Wait}" "runner (run_init tid u) = Ready"
      using u(2) by (simp_all add: run_init_def)
    from ready [OF thread_inv_work [OF step u(1)] this] show ?thesis
      using step by (meson converse_rtranclp_into_rtranclp)
  qed
  have returns: "\<exists>s'. (thread_work tid)\<^sup>*\<^sup>* s s' \<and> creator s' = Constructed" if c: "creator s \<in> {Waiting, In_Wait}"
  proof -
    have "runner s \<noteq> No_Thread" using inv [unfolded thread_inv_def, THEN conjunct1] c by force
    then consider "runner s = Started" | "runner s = Ready" | "runner s \<in> {Calling, Returned}" by (cases "runner s") simp_all
    then show ?thesis by cases (rule started [OF inv c] ready [OF inv c] called [OF inv c]; assumption)+
  qed
  have "creator s \<in> {Constructed, Joined} \<longrightarrow> th_id s = tid \<and> \<not> th_cb s"
    using inv by (cases "creator s"; cases "runner s"; simp add: thread_inv_def)
  moreover have "cb_runs s \<le> 1" "creator s = Joined \<longrightarrow> cb_runs s = 1"
    using inv by (simp_all add: thread_inv_def)
  moreover have "creator s \<in> {Waiting, In_Wait} \<longrightarrow> (\<exists>s'. (thread_work tid)\<^sup>*\<^sup>* s s' \<and> creator s' = Constructed)"
    using returns by (rule impI)
  ultimately show ?thesis by (intro conjI)
qed

theorem thread_ready_when_constructed_witness:
  "\<exists>s. (thread_step 7)\<^sup>*\<^sup>* thread_new s \<and> creator s = In_Wait \<and> runner s = Started \<and>
     (\<exists>s'. (thread_work 7)\<^sup>*\<^sup>* s s' \<and> creator s' = Constructed)"
proof -
  define s1 where "s1 = thread_create 0 thread_new"
  define s2 where "s2 = creator_look s1"
  have c1: "creator s1 = Waiting" by (simp add: s1_def thread_new_def thread_create_def)
  have at: "creator s2 = In_Wait" "runner s2 = Started"
    by (simp_all add: s2_def s1_def creator_look_def sem_look_def thread_create_def thread_new_def semaphore_ctor_def)
  have "creator thread_new = Creating" by (simp add: thread_new_def)
  then have "thread_step 7 thread_new s1" unfolding s1_def by (rule thread_step.work [OF thread_work.create])
  moreover have "thread_step 7 s1 s2" unfolding s2_def using c1 by (rule thread_step.work [OF thread_work.arrive])
  ultimately have run: "(thread_step 7)\<^sup>*\<^sup>* thread_new s2" by (rule rtranclp.rtrancl_into_rtrancl [OF r_into_rtranclp])
  from thread_ready_when_constructed [OF run] at
  have "\<exists>s'. (thread_work 7)\<^sup>*\<^sup>* s2 s' \<and> creator s' = Constructed" by simp
  with at have "creator s2 = In_Wait \<and> runner s2 = Started \<and> (\<exists>s'. (thread_work 7)\<^sup>*\<^sup>* s2 s' \<and> creator s' = Constructed)"
    by (intro conjI)
  with run have "(thread_step 7)\<^sup>*\<^sup>* thread_new s2 \<and> creator s2 = In_Wait \<and> runner s2 = Started \<and>
      (\<exists>s'. (thread_work 7)\<^sup>*\<^sup>* s2 s' \<and> creator s' = Constructed)" by (rule conjI)
  then show ?thesis by (rule exI [of _ s2])
qed

end
