(* ===== verification/Byte_Order.thy ===== *)
theory Byte_Order
  imports Prelude
begin

text \<open>
  \<^verbatim>\<open>src/util/endian.h\<close> on a little-endian host, and the two bit tricks of \<^verbatim>\<open>src/util/address.cc\<close>:
  \<^verbatim>\<open>CreateMask\<close>, a mask of host bits, and \<^verbatim>\<open>CountBytes\<close>, the number of bits that are set.
\<close>

section \<open>Byte order\<close>

text \<open>\<^verbatim>\<open>bswap_16\<close>, \<^verbatim>\<open>bswap_32\<close> and \<^verbatim>\<open>bswap_64\<close>, which \<^verbatim>\<open>byteswap\<close> chooses by the size of its type.\<close>

definition bswap_16 :: "u16 \<Rightarrow> u16" where
  "bswap_16 x = push_bit 8 x OR drop_bit 8 x"

definition bswap_32 :: "u32 \<Rightarrow> u32" where
  "bswap_32 x = push_bit 24 x OR push_bit 8 (x AND 0xFF00) OR (drop_bit 8 x AND 0xFF00) OR drop_bit 24 x"

definition bswap_64 :: "u64 \<Rightarrow> u64" where
  "bswap_64 x = push_bit 32 (ucast (bswap_32 (ucast x))) OR ucast (bswap_32 (ucast (drop_bit 32 x)))"

definition byteswapOnLittleEndian16 :: "u16 \<Rightarrow> u16" where "byteswapOnLittleEndian16 = bswap_16"
definition byteswapOnLittleEndian32 :: "u32 \<Rightarrow> u32" where "byteswapOnLittleEndian32 = bswap_32"
definition byteswapOnLittleEndian64 :: "u64 \<Rightarrow> u64" where "byteswapOnLittleEndian64 = bswap_64"

definition byteswapOnBigEndian :: "'a::len word \<Rightarrow> 'a word" where "byteswapOnBigEndian t = t"

text \<open>Where the bits of a swapped word come from.\<close>

lemma bit_bswap_16: "bit (bswap_16 x) n \<longleftrightarrow> n < 16 \<and> bit x (if n < 8 then n + 8 else n - 8)"
  by (auto simp: bswap_16_def bit_simps add.commute dest: bit_imp_le_length)

lemma bit_FF00: "bit (0xFF00 :: u32) n \<longleftrightarrow> 8 \<le> n \<and> n < 16"
proof -
  have "(0xFF00 :: u32) = push_bit 8 (mask 8)" by (simp add: mask_eq_exp_minus_1 push_bit_eq_mult)
  moreover have "bit (push_bit 8 (mask 8) :: u32) n \<longleftrightarrow> 8 \<le> n \<and> n < 16"
    by (auto simp only: bit_push_bit_iff bit_mask_iff) auto
  ultimately show ?thesis by (simp only:)
qed

lemma bit_bswap_32:
  "bit (bswap_32 x) n \<longleftrightarrow> n < 32 \<and>
    bit x (if n < 8 then n + 24 else if n < 16 then n + 8 else if n < 24 then n - 8 else n - 24)"
  by (simp only: bswap_32_def bit_or_iff bit_and_iff bit_push_bit_iff bit_drop_bit_eq bit_FF00 comp_def)
    (auto simp: add.commute dest: bit_imp_le_length)

lemma bit_bswap_64:
  "bit (bswap_64 x) n \<longleftrightarrow> n < 64 \<and>
    bit x (if n < 8 then n + 56 else if n < 16 then n + 40 else if n < 24 then n + 24 else if n < 32 then n + 8
      else if n < 40 then n - 8 else if n < 48 then n - 24 else if n < 56 then n - 40 else n - 56)"
  by (simp only: bswap_64_def bit_or_iff bit_push_bit_iff bit_drop_bit_eq bit_ucast_iff bit_bswap_32 comp_def)
    (auto simp: add.commute dest: bit_imp_le_length)

text \<open>
  What the addresses rely on: a byte order moves every bit to its place and back. The laws of the
  bitwise operations follow.
\<close>

locale byte_order =
  fixes swap :: "'a::len word \<Rightarrow> 'a word" and place :: "nat \<Rightarrow> nat"
  assumes bit_swap: "bit (swap x) n \<longleftrightarrow> n < LENGTH('a) \<and> bit x (place n)"
    and place_less: "n < LENGTH('a) \<Longrightarrow> place n < LENGTH('a)"
    and place_place: "n < LENGTH('a) \<Longrightarrow> place (place n) = n"
begin

lemma swap_swap [simp]: "swap (swap x) = x"
  by (rule bit_word_eqI) (simp add: bit_swap place_less place_place)

lemma swap_inject: "swap x = swap y \<longleftrightarrow> x = y"
  by (metis swap_swap)

lemma swap_and: "swap (x AND y) = swap x AND swap y"
  by (rule bit_word_eqI) (simp add: bit_swap bit_simps)

lemma swap_or: "swap (x OR y) = swap x OR swap y"
  by (rule bit_word_eqI) (simp add: bit_swap bit_simps)

lemma swap_not: "swap (NOT x) = NOT (swap x)"
  by (rule bit_word_eqI) (simp add: bit_swap bit_simps place_less)

lemma swap_zero [simp]: "swap 0 = 0"
  by (rule bit_word_eqI) (simp add: bit_swap)

lemmas swap_ops = swap_and swap_or swap_not

lemma card_bits_swap: "card {n. bit (swap x) n} = card {n. bit x n}"
proof (rule bij_betw_same_card)
  show "bij_betw place {n. bit (swap x) n} {n. bit x n}"
  proof (rule bij_betw_byWitness [of _ place])
    show "\<forall>n \<in> {n. bit x n}. place (place n) = n" using place_place bit_imp_le_length by blast
    show "place ` {n. bit x n} \<subseteq> {n. bit (swap x) n}"
      using place_place place_less bit_imp_le_length by (fastforce simp: bit_swap)
  qed (auto simp: bit_swap place_place)
qed

end

definition place16 :: "nat \<Rightarrow> nat" where
  "place16 n = (if n < 8 then n + 8 else n - 8)"

definition place32 :: "nat \<Rightarrow> nat" where
  "place32 n = (if n < 8 then n + 24 else if n < 16 then n + 8 else if n < 24 then n - 8 else n - 24)"

definition place64 :: "nat \<Rightarrow> nat" where
  "place64 n = (if n < 8 then n + 56 else if n < 16 then n + 40 else if n < 24 then n + 24 else if n < 32 then n + 8
      else if n < 40 then n - 8 else if n < 48 then n - 24 else if n < 56 then n - 40 else n - 56)"

interpretation net16: byte_order byteswapOnLittleEndian16 place16
  by unfold_locales (auto simp: byteswapOnLittleEndian16_def place16_def bit_bswap_16)

interpretation net32: byte_order byteswapOnLittleEndian32 place32
  by unfold_locales (auto simp: byteswapOnLittleEndian32_def place32_def bit_bswap_32)

interpretation net64: byte_order byteswapOnLittleEndian64 place64
  by unfold_locales (auto simp: byteswapOnLittleEndian64_def place64_def bit_bswap_64)

section \<open>Masks\<close>

text \<open>
  \<^verbatim>\<open>(1 << (sizeof(T) * 8 - bits)) - 1\<close> for a type of \<open>width\<close> bytes. The literal 1 is an \<^verbatim>\<open>int\<close>: a shift by its
  width is undefined, and so is the subtraction from the smallest \<^verbatim>\<open>int\<close>.
\<close>

definition CreateMask :: "nat \<Rightarrow> u32 \<Rightarrow> int result" where
  "CreateMask width bits =
     (let sh = of_nat (width * 8) - (ucast bits :: u64) in
      if 32 \<le> sh then Inl Undefined_Behaviour
      else let v = sint (push_bit (unat sh) (1 :: u32)) in
        if v - 1 < - (2 ^ 31) then Inl Undefined_Behaviour else Inr (v - 1))"

text \<open>\<^verbatim>\<open>CountBytes\<close>: the lowest bit that is set is cleared until none is left.\<close>

lemma and_minus_one_less:
  fixes v :: "'a::len word"
  assumes "v \<noteq> 0"
  shows "unat (v AND (v - 1)) < unat v"
proof -
  have "v AND (v - 1) \<le> v - 1" by (metis and.commute word_and_le1)
  also have "v - 1 < v" using assms by (simp add: word_gt_0 measure_unat word_less_nat_alt)
  finally show ?thesis by (simp add: word_less_nat_alt)
qed

function CountBytes :: "'a::len word \<Rightarrow> u32" where
  "CountBytes v = (if v = 0 then 0 else CountBytes (v AND (v - 1)) + 1)"
  by pat_completeness auto
termination by (relation "measure unat") (auto simp: and_minus_one_less)

declare CountBytes.simps [simp del]

lemma bits_double: "{n. bit (2 * k :: nat) n} = Suc ` {n. bit k n}"
proof -
  have "bit (2 * k) n \<longleftrightarrow> (\<exists>j. n = Suc j \<and> bit k j)" for n by (cases n) (simp_all add: bit_double_iff bit_0)
  then show ?thesis by auto
qed

lemma bits_double_one: "{n. bit (2 * k + 1 :: nat) n} = insert 0 (Suc ` {n. bit k n})"
proof -
  have "bit (2 * k + 1) n \<longleftrightarrow> n = 0 \<or> (\<exists>j. n = Suc j \<and> bit k j)" for n
    by (cases n) (simp_all add: bit_Suc bit_0)
  then show ?thesis by auto
qed

lemma finite_bits: "finite {n. bit (m :: nat) n}"
proof (rule finite_subset)
  have "\<not> bit m n" if "m < n" for n
  proof -
    have "m < 2 ^ n" using that less_exp [of n] by linarith
    then show ?thesis by (simp add: bit_nat_def)
  qed
  then show "{n. bit m n} \<subseteq> {..m}" by (auto simp: not_less [symmetric])
qed simp

lemma even_and_odd: "(2 * k) AND (2 * j + 1) = 2 * (k AND j :: nat)" "(2 * k + 1) AND (2 * k) = 2 * (k :: nat)"
proof -
  have "bit ((2 * k) AND (2 * j + 1)) n = bit (2 * (k AND j)) n" "bit ((2 * k + 1) AND (2 * k)) n = bit (2 * k) n" for n
    by (simp_all only: bit_and_iff bit_double_iff) (cases n; auto simp: bit_Suc bit_0 bit_and_iff)+
  then show "(2 * k) AND (2 * j + 1) = 2 * (k AND j)" "(2 * k + 1) AND (2 * k) = 2 * k" by (intro bit_eqI; simp)+
qed

lemma card_bits_clear_lowest:
  "0 < m \<Longrightarrow> card {n. bit (m :: nat) n} = Suc (card {n. bit (m AND (m - 1)) n})"
proof (induction m rule: less_induct)
  case (less m)
  show ?case
  proof (cases "even m")
    case True
    then obtain k where k: "m = 2 * k" by (elim evenE)
    with less.prems have "0 < k" "k < m" by simp_all
    have "m - 1 = 2 * (k - 1) + 1" using \<open>0 < k\<close> k by simp
    then have "m AND (m - 1) = 2 * (k AND (k - 1))" using even_and_odd(1) [of k "k - 1"] k by simp
    then show ?thesis using less.IH [OF \<open>k < m\<close> \<open>0 < k\<close>]
      by (simp add: k bits_double card_image)
  next
    case False
    then obtain k where k: "m = 2 * k + 1" by (elim oddE)
    have "m AND (m - 1) = 2 * k" using even_and_odd(2) [of k] by (simp add: k)
    have "card {n. bit m n} = Suc (card {n. bit (2 * k) n})"
      unfolding k bits_double_one bits_double by (simp add: card_insert_disjoint finite_bits card_image)
    with \<open>m AND (m - 1) = 2 * k\<close> show ?thesis by (simp only:)
  qed
qed

lemma CountBytes_card: "CountBytes v = of_nat (card {n. bit v n})"
proof (induction v rule: CountBytes.induct)
  case (1 v)
  show ?case
  proof (cases "v = 0")
    case False
    have bits: "{n. bit w n} = {n. bit (unat w) n}" for w :: "'a word"
      by (auto simp: bit_unsigned_iff dest: bit_imp_le_length)
    have "unat (v AND (v - 1)) = unat v AND (unat v - 1)"
      using False by (simp add: unsigned_and_eq unat_minus_one)
    then have "card {n. bit v n} = Suc (card {n. bit (v AND (v - 1)) n})"
      unfolding bits using card_bits_clear_lowest [of "unat v"] False by (simp add: unat_gt_0)
    then show ?thesis using 1 [OF False] False by (subst CountBytes.simps) simp
  next
    case True
    have "{n. bit (0 :: 'a word) n} = {}" by simp
    with True show ?thesis by (simp only: CountBytes.simps [of 0] card.empty) simp
  qed
qed

end
