(* ===== verification/Address.thy ===== *)
theory Address
  imports Byte_Order C_String "HOL-Library.List_Lexorder"
begin

text \<open>
  The addresses of \<^verbatim>\<open>src/util/address.h\<close> and \<^verbatim>\<open>address.cc\<close>. The structures of the socket API are records
  with their fields as the host reads them, so ports and IPv4 addresses are in network order; the bytes
  in memory matter only for comparing. What \<^verbatim>\<open>inet_pton\<close>, \<^verbatim>\<open>getaddrinfo\<close> and \<^verbatim>\<open>getifaddrs\<close> answer is an argument.
\<close>

section \<open>The structures\<close>

definition AF_UNSPEC :: u16 where "AF_UNSPEC = 0"
definition AF_UNIX :: u16 where "AF_UNIX = 1"
definition AF_INET :: u16 where "AF_INET = 2"
definition AF_INET6 :: u16 where "AF_INET6 = 10"

lemmas AF_defs = AF_UNSPEC_def AF_UNIX_def AF_INET_def AF_INET6_def

record sockaddr_in =
  sin_family :: u16
  sin_port :: u16
  s_addr :: u32
  sin_zero :: "u8 list"

record sockaddr_in6 =
  sin6_family :: u16
  sin6_port :: u16
  sin6_flowinfo :: u32
  s6_addr :: "u8 list"
  sin6_scope_id :: u32

record sockaddr_un =
  sun_family :: u16
  sun_path :: string

record sockaddr =
  sa_family :: u16
  sa_data :: "u8 list"

text \<open>An object of a subclass of \<^verbatim>\<open>Address\<close>; the one of \<^verbatim>\<open>UnixAddress\<close> also has \<^verbatim>\<open>m_length\<close>.\<close>

datatype address =
    IPv4Address sockaddr_in
  | IPv6Address sockaddr_in6
  | UnixAddress sockaddr_un u32
  | UnknownAddress sockaddr

text \<open>What a \<^verbatim>\<open>const sockaddr *\<close> of the library points at.\<close>

datatype sockaddr_any = Sa_In sockaddr_in | Sa_In6 sockaddr_in6 | Sa_Other sockaddr

section \<open>IPv4\<close>

definition ipv4_ctor :: "u32 \<Rightarrow> u16 \<Rightarrow> sockaddr_in" where
  "ipv4_ctor addr port = \<lparr>sin_family = AF_INET, sin_port = byteswapOnLittleEndian16 port,
     s_addr = byteswapOnLittleEndian32 addr, sin_zero = replicate 8 0\<rparr>"

definition ipv4_Create :: "(string \<Rightarrow> u32 option) \<Rightarrow> string \<Rightarrow> u16 \<Rightarrow> sockaddr_in option" where
  "ipv4_Create pton text port =
     (let rt = (ipv4_ctor 0 0)\<lparr>sin_port := byteswapOnLittleEndian16 port\<rparr> in
      case pton text of None \<Rightarrow> None | Some a \<Rightarrow> Some (rt\<lparr>s_addr := a\<rparr>))"

definition ipv4_insert :: "sockaddr_in \<Rightarrow> string" where
  "ipv4_insert s =
     (let addr = byteswapOnLittleEndian32 (s_addr s) in
      dec_nat (unat (drop_bit 24 addr AND 0xFF)) @ ''.'' @
      dec_nat (unat (drop_bit 16 addr AND 0xFF)) @ ''.'' @
      dec_nat (unat (drop_bit 8 addr AND 0xFF)) @ ''.'' @
      dec_nat (unat (addr AND 0xFF)) @ '':'' @
      dec_nat (unat (byteswapOnLittleEndian16 (sin_port s))))"

definition ipv4_broadcastAddress :: "u32 \<Rightarrow> sockaddr_in \<Rightarrow> sockaddr_in option result" where
  "ipv4_broadcastAddress prefix_len s =
     (if 32 < prefix_len then Inr None
      else result_bind (CreateMask 4 prefix_len) (\<lambda>m.
        Inr (Some (s\<lparr>s_addr := s_addr s OR byteswapOnLittleEndian32 (of_int m)\<rparr>))))"

definition ipv4_networdAddress :: "u32 \<Rightarrow> sockaddr_in \<Rightarrow> sockaddr_in option result" where
  "ipv4_networdAddress prefix_len s =
     (if 32 < prefix_len then Inr None
      else result_bind (CreateMask 4 prefix_len) (\<lambda>m.
        Inr (Some (s\<lparr>s_addr := s_addr s AND byteswapOnLittleEndian32 (of_int m)\<rparr>))))"

definition ipv4_subnetMask :: "u32 \<Rightarrow> sockaddr_in result" where
  "ipv4_subnetMask prefix_len =
     result_bind (CreateMask 4 prefix_len) (\<lambda>m.
       Inr \<lparr>sin_family = AF_INET, sin_port = 0, s_addr = NOT (byteswapOnLittleEndian32 (of_int m)), sin_zero = replicate 8 0\<rparr>)"

definition ipv4_getPort :: "sockaddr_in \<Rightarrow> u32" where
  "ipv4_getPort s = ucast (byteswapOnLittleEndian16 (sin_port s))"

definition ipv4_setPort :: "u16 \<Rightarrow> sockaddr_in \<Rightarrow> sockaddr_in" where
  "ipv4_setPort v s = s\<lparr>sin_port := byteswapOnLittleEndian16 v\<rparr>"

section \<open>IPv6\<close>

definition ipv6_default :: sockaddr_in6 where
  "ipv6_default = \<lparr>sin6_family = AF_INET6, sin6_port = 0, sin6_flowinfo = 0, s6_addr = replicate 16 0, sin6_scope_id = 0\<rparr>"

definition ipv6_ctor :: "u8 list \<Rightarrow> u16 \<Rightarrow> sockaddr_in6" where
  "ipv6_ctor addr port = ipv6_default\<lparr>sin6_port := byteswapOnLittleEndian16 port, s6_addr := take 16 addr\<rparr>"

definition ipv6_Create :: "(string \<Rightarrow> u8 list option) \<Rightarrow> string \<Rightarrow> u16 \<Rightarrow> sockaddr_in6 option" where
  "ipv6_Create pton text port =
     (let rt = ipv6_default\<lparr>sin6_port := byteswapOnLittleEndian16 port\<rparr> in
      case pton text of None \<Rightarrow> None | Some a \<Rightarrow> Some (rt\<lparr>s6_addr := a\<rparr>))"

text \<open>\<^verbatim>\<open>(uint16_t *)s6_addr\<close>: the eight groups as the host reads them.\<close>

fun v6_groups :: "u8 list \<Rightarrow> u16 list" where
  "v6_groups (a # b # bs) = (ucast a OR push_bit 8 (ucast b)) # v6_groups bs"
| "v6_groups _ = []"

text \<open>What \<^verbatim>\<open>std::hex\<close> prints.\<close>

definition hex_char :: "nat \<Rightarrow> char" where
  "hex_char n = (if n < 10 then char_of (48 + n) else char_of (87 + n))"

fun hex_nat :: "nat \<Rightarrow> string" where
  "hex_nat n = (if n < 16 then [hex_char n] else hex_nat (n div 16) @ [hex_char (n mod 16)])"

declare hex_nat.simps [simp del]

text \<open>The loop of \<^verbatim>\<open>insert\<close>: \<open>i\<close> counts the groups, \<open>prev\<close> is the one before; its text and \<^verbatim>\<open>used_zeros\<close>.\<close>

fun v6_loop :: "nat \<Rightarrow> u16 \<Rightarrow> bool \<Rightarrow> u16 list \<Rightarrow> string \<times> bool" where
  "v6_loop i prev used [] = ([], used)"
| "v6_loop i prev used (g # gs) =
     (if g = 0 \<and> \<not> used then v6_loop (Suc i) g used gs
      else
        let gap = (i \<noteq> 0 \<and> prev = 0 \<and> \<not> used);
            (text, used') = v6_loop (Suc i) g (used \<or> gap) gs
        in ((if gap then '':'' else []) @ (if i \<noteq> 0 then '':'' else []) @
             hex_nat (unat (byteswapOnLittleEndian16 g)) @ text, used'))"

definition v6_text :: "u16 list \<Rightarrow> string" where
  "v6_text gs = (let (t, used) = v6_loop 0 0 False gs in t @ (if \<not> used \<and> gs ! 7 = 0 then ''::'' else []))"

definition ipv6_insert :: "sockaddr_in6 \<Rightarrow> string" where
  "ipv6_insert s = ''['' @ v6_text (v6_groups (s6_addr s)) @ '']:'' @ dec_nat (unat (byteswapOnLittleEndian16 (sin6_port s)))"

definition ipv6_broadcastAddress :: "u32 \<Rightarrow> sockaddr_in6 \<Rightarrow> sockaddr_in6 result" where
  "ipv6_broadcastAddress prefix_len s =
     (let k = unat (prefix_len div 8) in
      result_bind (CreateMask 1 (prefix_len mod 8)) (\<lambda>m.
      result_bind (vec_at (s6_addr s) k) (\<lambda>b.
      result_bind (vec_put (s6_addr s) k (b OR of_int m)) (\<lambda>bs.
      Inr (s\<lparr>s6_addr := take (k + 1) bs @ replicate (16 - (k + 1)) 0xFF\<rparr>)))))"

definition ipv6_networdAddress :: "u32 \<Rightarrow> sockaddr_in6 \<Rightarrow> sockaddr_in6 result" where
  "ipv6_networdAddress prefix_len s =
     (let k = unat (prefix_len div 8) in
      result_bind (CreateMask 1 (prefix_len mod 8)) (\<lambda>m.
      result_bind (vec_at (s6_addr s) k) (\<lambda>b.
      result_bind (vec_put (s6_addr s) k (b AND of_int m)) (\<lambda>bs.
      Inr (s\<lparr>s6_addr := take (k + 1) bs @ replicate (16 - (k + 1)) 0\<rparr>)))))"

definition ipv6_subnetMask :: "u32 \<Rightarrow> sockaddr_in6 result" where
  "ipv6_subnetMask prefix_len =
     (let k = unat (prefix_len div 8) in
      result_bind (CreateMask 1 (prefix_len mod 8)) (\<lambda>m.
      result_bind (vec_put (replicate 16 0) k (NOT (of_int m))) (\<lambda>bs.
      Inr (ipv6_default\<lparr>s6_addr := replicate k 0xFF @ drop k bs\<rparr>))))"

definition ipv6_getPort :: "sockaddr_in6 \<Rightarrow> u32" where
  "ipv6_getPort s = ucast (byteswapOnLittleEndian16 (sin6_port s))"

definition ipv6_setPort :: "u16 \<Rightarrow> sockaddr_in6 \<Rightarrow> sockaddr_in6" where
  "ipv6_setPort v s = s\<lparr>sin6_port := byteswapOnLittleEndian16 v\<rparr>"

section \<open>Unix and other addresses\<close>

text \<open>\<^verbatim>\<open>sun_path\<close> has 108 characters and stands at offset 2.\<close>

definition MAX_PATH_LEN :: nat where "MAX_PATH_LEN = 107"

definition unix_default :: "sockaddr_un \<times> u32" where
  "unix_default = (\<lparr>sun_family = AF_UNIX, sun_path = replicate 108 NUL\<rparr>, 2 + of_nat MAX_PATH_LEN)"

definition unix_ctor :: "string \<Rightarrow> (sockaddr_un \<times> u32) result" where
  "unix_ctor path =
     (let n0 = of_nat (length path + 1) :: u32;
          n = (if path \<noteq> [] \<and> hd path = NUL then n0 - 1 else n0)
      in if 108 < n then Inl Uncaught_Exception
         else result_bind (put_str (replicate 108 NUL) 0 (take (unat n) (path @ [NUL]))) (\<lambda>p.
           Inr (\<lparr>sun_family = AF_UNIX, sun_path = p\<rparr>, n + 2)))"

definition unix_getPath :: "sockaddr_un \<Rightarrow> u32 \<Rightarrow> string result" where
  "unix_getPath a m_length =
     (if 2 < m_length \<and> hd (sun_path a) = NUL then
        (if 110 < m_length then Inl Out_Of_Bounds
         else Inr ([CHR 0x5C, CHR ''0''] @ take (unat m_length - 2 - 1) (tl (sun_path a))))
      else c_str (sun_path a) 0)"

definition unix_insert :: "sockaddr_un \<Rightarrow> u32 \<Rightarrow> string result" where
  "unix_insert a m_length =
     (if 2 < m_length \<and> hd (sun_path a) = NUL then
        (if 110 < m_length then Inl Out_Of_Bounds
         else Inr ([CHR 0x5C, CHR ''0''] @ take (unat m_length - 2 - 1) (tl (sun_path a))))
      else c_str (sun_path a) 0)"

definition setAddrLen :: "u32 \<Rightarrow> address \<Rightarrow> address" where
  "setAddrLen v a = (case a of UnixAddress s n \<Rightarrow> UnixAddress s v | _ \<Rightarrow> a)"

definition unknown_ctor :: "u16 \<Rightarrow> sockaddr" where
  "unknown_ctor family = \<lparr>sa_family = family, sa_data = replicate 14 0\<rparr>"

definition unknown_insert :: "sockaddr \<Rightarrow> string" where
  "unknown_insert a = ''[UnknownAddress family='' @ dec_nat (unat (sa_family a)) @ '']''"

section \<open>Any address\<close>

definition getFamily :: "address \<Rightarrow> u16" where
  "getFamily a = (case a of IPv4Address s \<Rightarrow> sin_family s | IPv6Address s \<Rightarrow> sin6_family s
     | UnixAddress s _ \<Rightarrow> sun_family s | UnknownAddress s \<Rightarrow> sa_family s)"

definition getAddrLen :: "address \<Rightarrow> u32" where
  "getAddrLen a = (case a of IPv4Address _ \<Rightarrow> 16 | IPv6Address _ \<Rightarrow> 28 | UnixAddress _ n \<Rightarrow> n | UnknownAddress _ \<Rightarrow> 16)"

definition toString :: "address \<Rightarrow> string result" where
  "toString a = (case a of IPv4Address s \<Rightarrow> Inr (ipv4_insert s) | IPv6Address s \<Rightarrow> Inr (ipv6_insert s)
     | UnixAddress s n \<Rightarrow> unix_insert s n | UnknownAddress s \<Rightarrow> Inr (unknown_insert s))"

definition address_Create :: "sockaddr_any option \<Rightarrow> address option" where
  "address_Create addr =
     (case addr of
        None \<Rightarrow> None
      | Some (Sa_In s) \<Rightarrow> Some (IPv4Address s)
      | Some (Sa_In6 s) \<Rightarrow> Some (IPv6Address s)
      | Some (Sa_Other s) \<Rightarrow> Some (UnknownAddress s))"

definition is_ip :: "address \<Rightarrow> bool" where
  "is_ip a = (case a of IPv4Address _ \<Rightarrow> True | IPv6Address _ \<Rightarrow> True | _ \<Rightarrow> False)"

definition setPort :: "u16 \<Rightarrow> address \<Rightarrow> address" where
  "setPort v a = (case a of IPv4Address s \<Rightarrow> IPv4Address (ipv4_setPort v s)
     | IPv6Address s \<Rightarrow> IPv6Address (ipv6_setPort v s) | _ \<Rightarrow> a)"

text \<open>\<^verbatim>\<open>IPAddress::Create\<close>, over the first answer of \<^verbatim>\<open>getaddrinfo\<close> for a numeric host.\<close>

definition ip_Create :: "(string \<Rightarrow> sockaddr_any option) \<Rightarrow> string \<Rightarrow> u16 \<Rightarrow> address option" where
  "ip_Create resolve text port =
     (case resolve text of
        None \<Rightarrow> None
      | Some sa \<Rightarrow> (case address_Create (Some sa) of
            Some a \<Rightarrow> if is_ip a then Some (setPort port a) else None
          | None \<Rightarrow> None))"

text \<open>The bytes of an address in memory, and comparing them.\<close>

definition bytes16 :: "u16 \<Rightarrow> u8 list" where
  "bytes16 x = [ucast x, ucast (drop_bit 8 x)]"

definition bytes32 :: "u32 \<Rightarrow> u8 list" where
  "bytes32 x = [ucast x, ucast (drop_bit 8 x), ucast (drop_bit 16 x), ucast (drop_bit 24 x)]"

definition addr_bytes :: "address \<Rightarrow> u8 list" where
  "addr_bytes a =
     (case a of
        IPv4Address s \<Rightarrow> bytes16 (sin_family s) @ bytes16 (sin_port s) @ bytes32 (s_addr s) @ sin_zero s
      | IPv6Address s \<Rightarrow> bytes16 (sin6_family s) @ bytes16 (sin6_port s) @ bytes32 (sin6_flowinfo s) @
          s6_addr s @ bytes32 (sin6_scope_id s)
      | UnixAddress s _ \<Rightarrow> bytes16 (sun_family s) @ map of_char (sun_path s)
      | UnknownAddress s \<Rightarrow> bytes16 (sa_family s) @ sa_data s)"

definition addr_read :: "address \<Rightarrow> u32 \<Rightarrow> u8 list result" where
  "addr_read a n = (if length (addr_bytes a) < unat n then Inl Out_Of_Bounds else Inr (take (unat n) (addr_bytes a)))"

fun memcmp :: "u8 list \<Rightarrow> u8 list \<Rightarrow> int" where
  "memcmp (x # xs) (y # ys) = (if x < y then - 1 else if y < x then 1 else memcmp xs ys)"
| "memcmp _ _ = 0"

definition addr_less :: "address \<Rightarrow> address \<Rightarrow> bool result" where
  "addr_less a b =
     (let minlen = min (getAddrLen a) (getAddrLen b) in
      result_bind (addr_read a minlen) (\<lambda>x.
      result_bind (addr_read b minlen) (\<lambda>y.
        let r = memcmp x y in
        Inr (if r < 0 then True else if 0 < r then False
             else if getAddrLen a < getAddrLen b then True else False))))"

definition addr_eq :: "address \<Rightarrow> address \<Rightarrow> bool result" where
  "addr_eq a b =
     (if getAddrLen a \<noteq> getAddrLen b then Inr False
      else result_bind (addr_read a (getAddrLen a)) (\<lambda>x.
        result_bind (addr_read b (getAddrLen a)) (\<lambda>y. Inr (memcmp x y = 0))))"

definition addr_neq :: "address \<Rightarrow> address \<Rightarrow> bool result" where
  "addr_neq a b = result_bind (addr_eq a b) (\<lambda>e. Inr (\<not> e))"

section \<open>Looking up\<close>

text \<open>\<^verbatim>\<open>host\<close> cut into a node and a service.\<close>

definition bracket_split :: "string \<Rightarrow> string \<times> string option" where
  "bracket_split host =
     (if host \<noteq> [] \<and> hd host = CHR ''['' then
        (case find_index (\<lambda>c. c = CHR '']'') (tl host) of
           None \<Rightarrow> ([], None)
         | Some k \<Rightarrow> (take k (tl host),
             (case drop (k + 1) (tl host) of c # rest \<Rightarrow> if c = CHR '':'' then Some rest else None | [] \<Rightarrow> None)))
      else ([], None))"

definition split_host :: "string \<Rightarrow> string \<times> string option" where
  "split_host host =
     (let (node, service) = bracket_split host;
          (node1, service1) =
            (if node = [] then
               (case find_index (\<lambda>c. c = CHR '':'') host of
                  None \<Rightarrow> (node, None)
                | Some k \<Rightarrow> if CHR '':'' \<notin> set (drop (k + 1) host)
                    then (take k host, Some (drop (k + 1) host)) else (node, Some (drop k host)))
             else (node, service))
      in (if node1 = [] then host else node1, service1))"

text \<open>
  \<^verbatim>\<open>Lookup\<close>: the resolver is asked with the node and the service (its answer is \<open>None\<close> when it fails);
  what is pushed back goes after what was in the vector.
\<close>

definition Lookup :: "(string \<Rightarrow> string option \<Rightarrow> sockaddr_any list option) \<Rightarrow> string \<Rightarrow> address option list \<Rightarrow>
    bool \<times> address option list" where
  "Lookup resolve host res =
     (let (node, service) = split_host host in
      case resolve node service of
        None \<Rightarrow> (False, res)
      | Some sas \<Rightarrow> let res1 = res @ map (\<lambda>sa. address_Create (Some sa)) sas in (res1 \<noteq> [], res1))"

definition LookupAny :: "(string \<Rightarrow> string option \<Rightarrow> sockaddr_any list option) \<Rightarrow> string \<Rightarrow> address option" where
  "LookupAny resolve host = (let (ok, res) = Lookup resolve host [] in if ok then hd res else None)"

definition LookupAnyIPAddress :: "(string \<Rightarrow> string option \<Rightarrow> sockaddr_any list option) \<Rightarrow> string \<Rightarrow> address option" where
  "LookupAnyIPAddress resolve host =
     (let (ok, res) = Lookup resolve host [] in
      if ok then (case find (\<lambda>a. a \<noteq> None \<and> is_ip (the a)) res of None \<Rightarrow> None | Some a \<Rightarrow> a) else None)"

text \<open>The entries of \<^verbatim>\<open>getifaddrs\<close>; an interface without an address has a null \<^verbatim>\<open>ifa_addr\<close>.\<close>

record ifaddrs =
  ifa_name :: string
  ifa_addr :: "sockaddr_any option"
  ifa_netmask :: "sockaddr_any option"

definition any_family :: "sockaddr_any \<Rightarrow> u16" where
  "any_family sa = (case sa of Sa_In s \<Rightarrow> sin_family s | Sa_In6 s \<Rightarrow> sin6_family s | Sa_Other s \<Rightarrow> sa_family s)"

definition interface_entry :: "u16 \<Rightarrow> ifaddrs \<Rightarrow> (string \<times> address \<times> u32) option result" where
  "interface_entry family e =
     (case (ifa_addr e, ifa_netmask e) of
        (None, _) \<Rightarrow> Inl Null_Deref
      | (Some sa, nm) \<Rightarrow>
          if family \<noteq> AF_UNSPEC \<and> family \<noteq> any_family sa then Inr None
          else (case sa of
              Sa_In s \<Rightarrow> (case nm of
                  Some (Sa_In m) \<Rightarrow> Inr (Some (ifa_name e, IPv4Address s, CountBytes (s_addr m)))
                | _ \<Rightarrow> Inl Null_Deref)
            | Sa_In6 s \<Rightarrow> (case nm of
                  Some (Sa_In6 m) \<Rightarrow> Inr (Some (ifa_name e, IPv6Address s, sum_list (map CountBytes (s6_addr m))))
                | _ \<Rightarrow> Inl Null_Deref)
            | Sa_Other _ \<Rightarrow> Inr None))"

fun interface_loop :: "u16 \<Rightarrow> ifaddrs list \<Rightarrow> (string \<times> address \<times> u32) list \<Rightarrow> (string \<times> address \<times> u32) list result" where
  "interface_loop family [] acc = Inr acc"
| "interface_loop family (e # es) acc =
     result_bind (interface_entry family e) (\<lambda>r.
       interface_loop family es (case r of None \<Rightarrow> acc | Some x \<Rightarrow> acc @ [x]))"

definition GetInterfaceAddresses :: "ifaddrs list option \<Rightarrow> u16 \<Rightarrow> (bool \<times> (string \<times> address \<times> u32) list) result" where
  "GetInterfaceAddresses answer family =
     (case answer of
        None \<Rightarrow> Inr (False, [])
      | Some es \<Rightarrow> result_bind (interface_loop family es []) (\<lambda>r. Inr (r \<noteq> [], r)))"

text \<open>The addresses of one interface: the entries of the multimap with its name, in their order.\<close>

definition interface_addresses :: "ifaddrs list option \<Rightarrow> string \<Rightarrow> u16 \<Rightarrow> (bool \<times> (address \<times> u32) list) result" where
  "interface_addresses answer iface family =
     (if iface = [] \<or> iface = ''*'' then
        Inr (True,
          (if family = AF_INET \<or> family = AF_UNSPEC then [(IPv4Address (ipv4_ctor 0 0), 0)] else []) @
          (if family = AF_INET6 \<or> family = AF_UNSPEC then [(IPv6Address ipv6_default, 0)] else []))
      else
        result_bind (GetInterfaceAddresses answer family) (\<lambda>(ok, es).
          if \<not> ok then Inr (False, [])
          else let r = map snd (filter (\<lambda>e. fst e = iface) es) in Inr (r \<noteq> [], r)))"

section \<open>The text of an IPv6 address\<close>

text \<open>A reader of the notation: fields between colons, and an empty one for a run of zeros.\<close>

fun split_on :: "char \<Rightarrow> string \<Rightarrow> string list" where
  "split_on c [] = [[]]"
| "split_on c (x # xs) = (if x = c then [] # split_on c xs
     else (case split_on c xs of [] \<Rightarrow> [[x]] | y # ys \<Rightarrow> (x # y) # ys))"

definition hex_digit :: "char \<Rightarrow> nat" where
  "hex_digit c = (let n = of_char c in if n < 58 then n - 48 else n - 87)"

definition hex_val :: "string \<Rightarrow> nat" where
  "hex_val = foldl (\<lambda>acc c. acc * 16 + hex_digit c) 0"

definition read_v6 :: "string \<Rightarrow> u16 list" where
  "read_v6 t =
     (let fields = split_on (CHR '':'') t; num = map (\<lambda>f. of_nat (hex_val f)) in
      if [] \<notin> set fields then num fields
      else let l = takeWhile (\<lambda>f. f \<noteq> []) fields; r = rev (takeWhile (\<lambda>f. f \<noteq> []) (rev fields))
        in num l @ replicate (8 - length l - length r) 0 @ num r)"

lemma split_on_not_Nil [simp]: "split_on c xs \<noteq> []"
  by (induction xs) (auto split: list.splits)

lemma split_on_append: "split_on c (xs @ c # ys) = split_on c xs @ split_on c ys"
  by (induction xs) (auto split: list.splits)

lemma split_on_plain: "c \<notin> set xs \<Longrightarrow> split_on c xs = [xs]"
  by (induction xs) auto

lemma hex_char: "n < 16 \<Longrightarrow> hex_digit (hex_char n) = n \<and> hex_char n \<noteq> CHR '':'' \<and> CHR '':'' \<noteq> hex_char n"
proof -
  assume n: "n < 16"
  then have "of_char (hex_char n) = (if n < 10 then 48 + n else 87 + n)"
    by (simp add: hex_char_def of_char_of)
  moreover from this n have "of_char (hex_char n) \<noteq> (58 :: nat)" by (auto split: if_splits)
  then have "hex_char n \<noteq> CHR '':''" by auto
  ultimately show ?thesis using n by (auto simp: hex_digit_def Let_def)
qed

lemma hex_nat_facts: "hex_nat n \<noteq> [] \<and> CHR '':'' \<notin> set (hex_nat n) \<and> hex_val (hex_nat n) = n"
proof (induction n rule: hex_nat.induct)
  case (1 n)
  show ?case
  proof (cases "n < 16")
    case True
    then show ?thesis using hex_char [of n] by (simp add: hex_nat.simps [of n] hex_val_def)
  next
    case False
    with 1 show ?thesis using hex_char [of "n mod 16"] by (simp add: hex_nat.simps [of n] hex_val_def)
  qed
qed

definition v6_field :: "u16 \<Rightarrow> string" where
  "v6_field g = hex_nat (unat (byteswapOnLittleEndian16 g))"

lemma v6_field: "v6_field g \<noteq> []" "CHR '':'' \<notin> set (v6_field g)" "of_nat (hex_val (v6_field g)) = byteswapOnLittleEndian16 g"
  by (simp_all add: v6_field_def hex_nat_facts)

text \<open>The loop before, in and after the first run of zeros.\<close>

definition v6_seg :: "u16 list \<Rightarrow> string" where
  "v6_seg gs = concat (map (\<lambda>g. CHR '':'' # v6_field g) gs)"

lemma v6_loop_used: "i \<noteq> 0 \<Longrightarrow> v6_loop i prev True gs = (v6_seg gs, True)"
  by (induction gs arbitrary: i prev) (auto simp: v6_seg_def v6_field_def Let_def)

lemma v6_loop_zeros:
  "i \<noteq> 0 \<Longrightarrow> v6_loop i 0 False gs =
    (let post = dropWhile (\<lambda>g. g = 0) gs in (if post = [] then [] else CHR '':'' # v6_seg post, post \<noteq> []))"
  by (induction gs arbitrary: i) (auto simp: v6_seg_def v6_field_def Let_def v6_loop_used)

lemma v6_loop_before:
  "i \<noteq> 0 \<Longrightarrow> prev \<noteq> 0 \<Longrightarrow> v6_loop i prev False gs =
    (let pre = takeWhile (\<lambda>g. g \<noteq> 0) gs; post = dropWhile (\<lambda>g. g = 0) (dropWhile (\<lambda>g. g \<noteq> 0) gs)
     in (v6_seg pre @ (if post = [] then [] else CHR '':'' # v6_seg post), post \<noteq> []))"
proof (induction gs arbitrary: i prev)
  case (Cons g gs)
  show ?case
  proof (cases "g = 0")
    case True
    then show ?thesis using v6_loop_zeros [of "Suc i" gs] by (simp add: v6_seg_def)
  next
    case False
    define t where "t = v6_seg (takeWhile (\<lambda>g. g \<noteq> 0) gs)"
    define post where "post = dropWhile (\<lambda>g. g = 0) (dropWhile (\<lambda>g. g \<noteq> 0) gs)"
    have "v6_loop (Suc i) g False gs = (t @ (if post = [] then [] else CHR '':'' # v6_seg post), post \<noteq> [])"
      using Cons.IH [of "Suc i" g] False by (simp only: Let_def t_def post_def) simp
    then have "v6_loop i prev False (g # gs) =
        ((CHR '':'' # v6_field g) @ t @ (if post = [] then [] else CHR '':'' # v6_seg post), post \<noteq> [])"
      using False Cons.prems by (simp add: v6_field_def)
    moreover have "v6_seg (takeWhile (\<lambda>g. g \<noteq> 0) (g # gs)) = (CHR '':'' # v6_field g) @ t" using False by (simp add: v6_seg_def t_def)
    moreover have "dropWhile (\<lambda>g. g = 0) (dropWhile (\<lambda>g. g \<noteq> 0) (g # gs)) = post" using False by (simp add: post_def)
    ultimately show ?thesis by (simp only: Let_def append.assoc)
  qed
qed (simp add: v6_seg_def)

definition v6_join :: "u16 list \<Rightarrow> string" where
  "v6_join gs = (case gs of [] \<Rightarrow> [] | g # gs \<Rightarrow> v6_field g @ v6_seg gs)"

lemma v6_seg_join: "gs \<noteq> [] \<Longrightarrow> v6_seg gs = CHR '':'' # v6_join gs"
  by (cases gs) (simp_all add: v6_seg_def v6_join_def)

lemma v6_loop_all:
  "v6_loop 0 0 False gs =
    (let pre = takeWhile (\<lambda>g. g \<noteq> 0) gs; post = dropWhile (\<lambda>g. g = 0) (dropWhile (\<lambda>g. g \<noteq> 0) gs)
     in (v6_join pre @ (if post = [] then [] else CHR '':'' # v6_seg post), post \<noteq> []))"
proof (cases gs)
  case (Cons g gs')
  show ?thesis
  proof (cases "g = 0")
    case True
    then show ?thesis using v6_loop_zeros [of 1 gs'] by (simp add: Cons v6_join_def)
  next
    case False
    then show ?thesis using v6_loop_before [of 1 g gs'] by (simp add: Cons v6_join_def v6_field_def Let_def)
  qed
qed (simp add: v6_join_def)

lemma v6_text_shape:
  assumes "length gs = 8"
  defines "pre \<equiv> takeWhile (\<lambda>g. g \<noteq> 0) gs" and "zs \<equiv> takeWhile (\<lambda>g. g = 0) (dropWhile (\<lambda>g. g \<noteq> 0) gs)"
    and "post \<equiv> dropWhile (\<lambda>g. g = 0) (dropWhile (\<lambda>g. g \<noteq> 0) gs)"
  shows "gs = pre @ zs @ post" "zs = replicate (8 - length pre - length post) 0"
    "v6_text gs = (if zs = [] then v6_join pre else v6_join pre @ CHR '':'' # CHR '':'' # v6_join post)"
    "zs = [] \<Longrightarrow> pre = gs"
proof -
  show gs: "gs = pre @ zs @ post" by (simp add: pre_def zs_def post_def)
  have "set zs \<subseteq> {0}" by (auto simp: zs_def dest: set_takeWhileD)
  then have "zs = replicate (length zs) 0" by (induction zs) auto
  moreover have "length zs = 8 - length pre - length post" using arg_cong [OF gs, of length] assms(1) by simp
  ultimately show zs: "zs = replicate (8 - length pre - length post) 0" by simp
  have none: "post = []" if "zs = []"
  proof -
    have "dropWhile (\<lambda>g. g \<noteq> 0) gs = post" using that unfolding zs_def post_def by (metis append_Nil takeWhile_dropWhile_id)
    moreover have "zs \<noteq> []" if "dropWhile (\<lambda>g. g \<noteq> 0) gs \<noteq> []"
    proof -
      obtain x xs where d: "dropWhile (\<lambda>g. g \<noteq> 0) gs = x # xs" using \<open>dropWhile (\<lambda>g. g \<noteq> 0) gs \<noteq> []\<close> by (meson neq_Nil_conv)
      then have "x = 0" using hd_dropWhile [OF that] by simp
      then show ?thesis unfolding zs_def d by simp
    qed
    ultimately show ?thesis using \<open>zs = []\<close> by blast
  qed
  then show "zs = [] \<Longrightarrow> pre = gs" using gs by simp
  have last: "gs ! 7 = 0 \<longleftrightarrow> zs \<noteq> []" if "post = []"
  proof (cases "zs = []")
    case True
    then have "gs = pre" using that gs by simp
    moreover have "gs ! 7 \<in> set gs" using assms(1) by (intro nth_mem) simp
    ultimately have "gs ! 7 \<in> set pre" by simp
    then show ?thesis using True unfolding pre_def by (auto dest: set_takeWhileD)
  next
    case False
    then have "last gs = last zs" using that gs by simp
    moreover have "last gs = gs ! 7" using assms(1) by (subst last_conv_nth) auto
    moreover have "last zs \<in> {0}" using False \<open>set zs \<subseteq> {0}\<close> last_in_set by blast
    ultimately show ?thesis using False by simp
  qed
  show "v6_text gs = (if zs = [] then v6_join pre else v6_join pre @ CHR '':'' # CHR '':'' # v6_join post)"
    using none last by (auto simp: v6_text_def v6_loop_all Let_def pre_def [symmetric] post_def [symmetric] v6_seg_join v6_join_def)
qed

lemma split_v6_join: "split_on (CHR '':'') (v6_join gs) = (if gs = [] then [[]] else map v6_field gs)"
proof (induction gs)
  case (Cons g gs)
  show ?case
  proof (cases gs)
    case Nil
    then show ?thesis using v6_field(2) [of g] by (simp add: v6_join_def v6_seg_def split_on_plain)
  next
    case (Cons g' gs')
    then have "v6_join (g # gs) = v6_field g @ CHR '':'' # v6_join gs" using v6_seg_join [of gs] by (simp add: v6_join_def)
    then show ?thesis using Cons.IH Cons v6_field(2) [of g] by (simp add: split_on_append split_on_plain)
  qed
qed (simp add: v6_join_def)

lemma read_v6_text:
  assumes "length gs = 8"
  shows "read_v6 (v6_text gs) = map byteswapOnLittleEndian16 gs"
proof -
  define pre where "pre = takeWhile (\<lambda>g. g \<noteq> 0) gs"
  define zs where "zs = takeWhile (\<lambda>g. g = 0) (dropWhile (\<lambda>g. g \<noteq> 0) gs)"
  define post where "post = dropWhile (\<lambda>g. g = 0) (dropWhile (\<lambda>g. g \<noteq> 0) gs)"
  note sh = v6_text_shape [OF assms, folded pre_def zs_def post_def]
  have num: "map (\<lambda>f. of_nat (hex_val f)) (map v6_field xs) = map byteswapOnLittleEndian16 xs" for xs
    using v6_field(3) by simp
  have ne: "takeWhile (\<lambda>f. f \<noteq> []) (map v6_field xs @ ys) = map v6_field xs @ takeWhile (\<lambda>f. f \<noteq> []) ys" for xs ys
    using v6_field(1) by (induction xs) auto
  show ?thesis
  proof (cases "zs = []")
    case True
    have "gs \<noteq> []" using assms by auto
    then have "split_on (CHR '':'') (v6_text gs) = map v6_field gs" using True sh(3,4) by (simp add: split_v6_join)
    moreover have "[] \<notin> set (map v6_field gs)" by (metis imageE set_map v6_field(1))
    ultimately show ?thesis using num by (simp add: read_v6_def Let_def)
  next
    case False
    define fields where "fields = split_on (CHR '':'') (v6_text gs)"
    have f: "fields = (if pre = [] then [[]] else map v6_field pre) @ [] # (if post = [] then [[]] else map v6_field post)"
      using False sh(3) by (simp add: fields_def split_on_append split_v6_join)
    have l: "takeWhile (\<lambda>f. f \<noteq> []) fields = map v6_field pre"
      by (auto simp: f ne)
    have r: "rev (takeWhile (\<lambda>f. f \<noteq> []) (rev fields)) = map v6_field post"
      by (auto simp: f ne rev_map)
    have "[] \<in> set fields" by (simp add: f)
    then have "read_v6 (v6_text gs) = map byteswapOnLittleEndian16 pre @ replicate (8 - length pre - length post) 0 @
        map byteswapOnLittleEndian16 post"
      using l r num [of pre] num [of post] by (simp add: read_v6_def Let_def fields_def [symmetric])
    also have "replicate (8 - length pre - length post) 0 = map byteswapOnLittleEndian16 zs" by (subst sh(2)) simp
    finally show ?thesis using sh(1) by (metis map_append)
  qed
qed

section \<open>Subnets\<close>

lemma CreateMask4:
  assumes "2 \<le> p" "p \<le> 32"
  shows "CreateMask 4 p = Inr (2 ^ (32 - unat p) - 1)"
proof -
  define n where "n = 32 - unat p"
  have p: "2 \<le> unat p" "unat p \<le> 32" using assms by (simp_all add: word_le_nat_alt)
  then have u: "unat (ucast p :: u64) = unat p" by (simp add: unsigned_ucast_eq take_bit_nat_eq_self)
  then have "(ucast p :: u64) \<le> 32" using p by (simp add: word_le_nat_alt)
  then have sh: "unat (32 - ucast p :: u64) = n" using u by (simp add: unat_sub n_def)
  have n: "n \<le> 30" using p by (simp add: n_def)
  then have "sint (word_of_int (2 ^ n) :: u32) = 2 ^ n"
    using signed_take_bit_int_eq_self [of 31 "2 ^ n"] power_increasing [of n 30 "2 :: int"]
    by (subst sint_sbintrunc') (simp add: order_trans [of _ 0])
  then have v: "sint (push_bit n (1 :: u32)) = 2 ^ n" by (simp add: push_bit_eq_mult)
  have "\<not> 32 \<le> (32 - ucast p :: u64)" using n sh by (simp add: word_le_nat_alt)
  moreover have "- (2 ^ 31) \<le> 2 ^ n - (1 :: int)" by (smt (verit) zero_less_power)
  ultimately show ?thesis using v sh by (simp add: CreateMask_def Let_def n_def)
qed

lemma CreateMask4_undefined: "p \<le> 1 \<Longrightarrow> CreateMask 4 p = Inl Undefined_Behaviour"
proof -
  assume "p \<le> 1"
  then have "unat p = 0 \<or> unat p = 1" by (auto simp: word_le_nat_alt)
  then have "p = 0 \<or> p = 1" by (auto simp: word_unat_eq_iff)
  moreover have "CreateMask 4 0 = Inl Undefined_Behaviour" "CreateMask 4 1 = Inl Undefined_Behaviour" by code_simp+
  ultimately show ?thesis by auto
qed

lemma of_int_mask: "of_int (2 ^ k - 1) = (mask k :: 'a::len word)"
  by (simp add: mask_eq_exp_minus_1)

lemma card_bits_mask: "k \<le> 32 \<Longrightarrow> card {n. bit (NOT (mask k) :: u32) n} = 32 - k"
proof -
  assume "k \<le> 32"
  moreover have "{n. bit (NOT (mask k) :: u32) n} = {k..<32}" by (auto simp: bit_simps)
  ultimately show ?thesis by simp
qed

lemma swap_octets:
  "byteswapOnLittleEndian16 (ucast (a :: u8) OR push_bit 8 (ucast (b :: u8))) = push_bit 8 (ucast a) OR ucast b"
  by (rule bit_word_eqI) (auto simp: net16.bit_swap place16_def bit_simps dest: bit_imp_le_length)

text \<open>The groups of an address as they are meant: the first byte of each is the high one.\<close>

fun net_groups :: "u8 list \<Rightarrow> u16 list" where
  "net_groups (a # b # bs) = (push_bit 8 (ucast a) OR ucast b) # net_groups bs"
| "net_groups _ = []"

lemma swap_groups: "map byteswapOnLittleEndian16 (v6_groups bs) = net_groups bs"
  by (induction bs rule: v6_groups.induct) (simp_all add: swap_octets)

lemma length_v6_groups: "length (v6_groups bs) = length bs div 2"
  by (induction bs rule: v6_groups.induct) simp_all

section \<open>Comparing\<close>

lemma nil_less: "[] < (ys :: u8 list) \<longleftrightarrow> ys \<noteq> []"
  by (cases ys) simp_all

lemma memcmp_lex:
  fixes xs ys :: "u8 list"
  assumes "n = min (length xs) (length ys)"
  shows "xs < ys \<longleftrightarrow> memcmp (take n xs) (take n ys) < 0 \<or> memcmp (take n xs) (take n ys) = 0 \<and> length xs < length ys"
  using assms by (induction xs ys arbitrary: n rule: memcmp.induct) (auto simp: less_list_code nil_less)

lemma memcmp_eq: "length xs = length ys \<Longrightarrow> memcmp xs ys = 0 \<longleftrightarrow> xs = ys"
  by (induction xs ys rule: memcmp.induct) auto

text \<open>The bytes that count, and an address whose length stays inside its structure.\<close>

definition addr_image :: "address \<Rightarrow> u8 list" where
  "addr_image a = take (unat (getAddrLen a)) (addr_bytes a)"

definition addr_ok :: "address \<Rightarrow> bool" where
  "addr_ok a \<longleftrightarrow> unat (getAddrLen a) \<le> length (addr_bytes a)"

lemma addr_read_image:
  assumes "addr_ok a" "n \<le> getAddrLen a"
  shows "addr_read a n = Inr (take (unat n) (addr_image a))" "length (addr_image a) = unat (getAddrLen a)"
  using assms by (simp_all add: addr_read_def addr_ok_def addr_image_def word_le_nat_alt min_def)

section \<open>Properties\<close>

text \<open>
  C34. What is printed for an IPv6 address reads back: the text between the brackets, with at most one
  run of zeros left out, gives exactly the eight groups of the address, and the port follows.
\<close>

theorem ipv6_text_roundtrip:
  assumes "length bytes = 16"
  shows "\<exists>t. ipv6_insert (ipv6_ctor bytes port) = ''['' @ t @ '']:'' @ dec_nat (unat port) \<and> read_v6 t = net_groups bytes"
  using assms read_v6_text [of "v6_groups bytes"]
  by (simp add: ipv6_insert_def ipv6_ctor_def ipv6_default_def length_v6_groups swap_groups)

theorem ipv6_text_roundtrip_witness:
  "\<exists>t. ipv6_insert (ipv6_ctor (0x20 # 0x01 # replicate 13 0 @ [1]) 80) = ''['' @ t @ '']:'' @ dec_nat 80 \<and>
    read_v6 t = [0x2001, 0, 0, 0, 0, 0, 0, 1]"
proof -
  have "net_groups (0x20 # 0x01 # replicate 13 0 @ [1]) = [0x2001, 0, 0, 0, 0, 0, 0, 1]" "unat (80 :: u16) = 80" by code_simp+
  then show ?thesis using ipv6_text_roundtrip [of "0x20 # 0x01 # replicate 13 0 @ [1]" 80] by (simp only:) simp
qed


definition dotted :: "u8 \<Rightarrow> u8 \<Rightarrow> u8 \<Rightarrow> u8 \<Rightarrow> string" where
  "dotted a b c d = dec_nat (unat a) @ ''.'' @ dec_nat (unat b) @ ''.'' @ dec_nat (unat c) @ ''.'' @ dec_nat (unat d)"

lemma unat_low_byte: "unat (drop_bit k w AND 0xFF :: u32) = unat (ucast (drop_bit k w) :: u8)"
proof -
  have "drop_bit k w AND 0xFF = take_bit 8 (drop_bit k w)" by (simp add: take_bit_eq_mask mask_eq_exp_minus_1)
  then show ?thesis by (simp add: unsigned_ucast_eq unsigned_take_bit_eq)
qed

lemma net_bytes:
  fixes a b c d :: u8
  defines "w \<equiv> byteswapOnLittleEndian32 (ucast a OR push_bit 8 (ucast b) OR push_bit 16 (ucast c) OR push_bit 24 (ucast d))"
  shows "ucast (drop_bit 24 w) = a" "ucast (drop_bit 16 w) = b" "ucast (drop_bit 8 w) = c" "ucast w = d"
  unfolding w_def
  by (rule bit_word_eqI; auto simp: net32.bit_swap place32_def bit_simps dest: bit_imp_le_length)+

text \<open>
  A dotted IPv4 address given to \<^verbatim>\<open>Create\<close> is printed as it was given, with the port: the two changes
  of byte order cancel. Assumed of \<^verbatim>\<open>inet_pton\<close> is that it stores the four numbers in order.
\<close>

theorem ipv4_text_roundtrip:
  assumes "\<forall>a b c d. pton (dotted a b c d) = Some (ucast a OR push_bit 8 (ucast b) OR push_bit 16 (ucast c) OR push_bit 24 (ucast d))"
  shows "map_option ipv4_insert (ipv4_Create pton (dotted a b c d) port) = Some (dotted a b c d @ '':'' @ dec_nat (unat port))"
  using assms net_bytes [of a b c d] unat_low_byte [of 0]
  by (simp add: ipv4_Create_def ipv4_insert_def Let_def unat_low_byte dotted_def)

definition read_dotted :: "string \<Rightarrow> u32 option" where
  "read_dotted t =
     (case map (\<lambda>f. of_int (digits_val 0 f) :: u8) (split_on (CHR ''.'') t) of
        [a, b, c, d] \<Rightarrow> Some (ucast a OR push_bit 8 (ucast b) OR push_bit 16 (ucast c) OR push_bit 24 (ucast d))
      | _ \<Rightarrow> None)"

lemma read_dotted:
  "read_dotted (dotted a b c d) = Some (ucast a OR push_bit 8 (ucast b) OR push_bit 16 (ucast c) OR push_bit 24 (ucast d))"
proof -
  have no: "CHR ''.'' \<notin> set (dec_nat n)" for n
    using dec_nat_digits [of n] by (auto simp: is_digit_def Let_def)
  have "split_on (CHR ''.'') (dotted a b c d) = [dec_nat (unat a), dec_nat (unat b), dec_nat (unat c), dec_nat (unat d)]"
    by (simp add: dotted_def split_on_append split_on_plain no)
  moreover have "of_int (digits_val 0 (dec_nat (unat x))) = x" for x :: u8 by (simp add: digits_val_dec)
  ultimately show ?thesis by (simp add: read_dotted_def)
qed

theorem ipv4_text_roundtrip_witness:
  "map_option ipv4_insert (ipv4_Create read_dotted (dotted 127 0 0 1) 9006) = Some (dotted 127 0 0 1 @ '':'' @ dec_nat 9006)"
proof -
  have "\<forall>a b c d. read_dotted (dotted a b c d) = Some (ucast a OR push_bit 8 (ucast b) OR push_bit 16 (ucast c) OR push_bit 24 (ucast d))"
    using read_dotted by blast
  from ipv4_text_roundtrip [OF this, of 127 0 0 1 9006] show ?thesis by simp
qed

text \<open>
  C35. The order of addresses is that of their bytes: \<^verbatim>\<open><\<close> is the lexicographic order and \<^verbatim>\<open>==\<close> equality of
  what \<^verbatim>\<open>getAddr\<close> and \<^verbatim>\<open>getAddrLen\<close> show, so it is a linear order on that.
\<close>

theorem address_order:
  assumes "addr_ok a" "addr_ok b"
  shows "addr_less a b = Inr (addr_image a < addr_image b) \<and> addr_eq a b = Inr (addr_image a = addr_image b)"
proof -
  let ?m = "min (getAddrLen a) (getAddrLen b)"
  note len = addr_read_image(2) [OF assms(1) order_refl] addr_read_image(2) [OF assms(2) order_refl]
  have n: "unat ?m = min (length (addr_image a)) (length (addr_image b))" by (simp add: len min_def word_le_nat_alt)
  have "addr_read a ?m = Inr (take (unat ?m) (addr_image a))" "addr_read b ?m = Inr (take (unat ?m) (addr_image b))"
    using assms by (simp_all add: addr_read_image(1))
  then have "addr_less a b = Inr (addr_image a < addr_image b)"
    using memcmp_lex [OF n] len by (auto simp: addr_less_def Let_def word_less_nat_alt)
  moreover have "addr_eq a b = Inr (addr_image a = addr_image b)"
  proof (cases "getAddrLen a = getAddrLen b")
    case True
    with len assms show ?thesis by (simp add: addr_eq_def addr_read_image(1) memcmp_eq)
  next
    case False
    with len have "addr_image a \<noteq> addr_image b" by (metis word_unat_eq_iff)
    with False show ?thesis by (simp add: addr_eq_def)
  qed
  ultimately show ?thesis by blast
qed

theorem address_order_witness:
  "addr_less (IPv4Address (ipv4_ctor 0x7F000001 80)) (IPv4Address (ipv4_ctor 0x7F000002 80)) = Inr True"
proof -
  have "addr_ok (IPv4Address (ipv4_ctor 0x7F000001 80))" "addr_ok (IPv4Address (ipv4_ctor 0x7F000002 80))" by code_simp+
  from address_order [OF this] have "addr_less (IPv4Address (ipv4_ctor 0x7F000001 80)) (IPv4Address (ipv4_ctor 0x7F000002 80)) =
      Inr (addr_image (IPv4Address (ipv4_ctor 0x7F000001 80)) < addr_image (IPv4Address (ipv4_ctor 0x7F000002 80)))" by blast
  moreover have "addr_image (IPv4Address (ipv4_ctor 0x7F000001 80)) < addr_image (IPv4Address (ipv4_ctor 0x7F000002 80))" by code_simp
  ultimately show ?thesis by simp
qed

text \<open>
  C38. Subnets of an IPv4 address, for the prefix lengths from 2 to 32: the broadcast address has the host
  bits set, the subnet mask has exactly the bits of the prefix (and \<^verbatim>\<open>CountBytes\<close> gives the prefix length back),
  but \<^verbatim>\<open>networdAddress\<close> keeps the host bits where it should clear them, so nothing of the network is
  left. Prefix lengths 0 and 1 are undefined behaviour.
\<close>

theorem ipv4_subnets:
  "if prefix \<le> 1 then ipv4_subnetMask prefix = Inl Undefined_Behaviour \<and> ipv4_broadcastAddress prefix s = Inl Undefined_Behaviour
   else if 32 < prefix then ipv4_broadcastAddress prefix s = Inr None \<and> ipv4_networdAddress prefix s = Inr None
   else \<exists>b n m. ipv4_broadcastAddress prefix s = Inr (Some b) \<and> ipv4_networdAddress prefix s = Inr (Some n) \<and>
     ipv4_subnetMask prefix = Inr m \<and>
     byteswapOnLittleEndian32 (s_addr b) = byteswapOnLittleEndian32 (s_addr s) OR mask (32 - unat prefix) \<and>
     byteswapOnLittleEndian32 (s_addr m) = NOT (mask (32 - unat prefix)) \<and> CountBytes (s_addr m) = prefix \<and>
     byteswapOnLittleEndian32 (s_addr n) = byteswapOnLittleEndian32 (s_addr s) AND mask (32 - unat prefix) \<and>
     s_addr n AND s_addr m = 0"
proof -
  consider "prefix \<le> 1" | "32 < prefix" "\<not> prefix \<le> 1" | "2 \<le> prefix" "prefix \<le> 32" "\<not> prefix \<le> 1" "\<not> 32 < prefix"
    by (force simp: word_le_nat_alt word_less_nat_alt)
  then show ?thesis
  proof cases
    case 1
    then have "\<not> 32 < prefix" by (simp add: word_le_nat_alt word_less_nat_alt)
    with 1 CreateMask4_undefined [OF 1] show ?thesis by (simp add: ipv4_subnetMask_def ipv4_broadcastAddress_def)
  next
    case 2
    then show ?thesis by (simp add: ipv4_broadcastAddress_def ipv4_networdAddress_def)
  next
    case 3
    define k where "k = 32 - unat prefix"
    define M :: u32 where "M = mask k"
    have "unat prefix \<le> 32" using 3 by (simp add: word_le_nat_alt)
    then have p: "32 - k = unat prefix" by (simp add: k_def)
    have c: "CreateMask 4 prefix = Inr (2 ^ k - 1)" using CreateMask4 3 by (simp add: k_def)
    have "CountBytes (NOT (byteswapOnLittleEndian32 M)) = of_nat (card {n. bit (NOT M) n})"
      by (simp only: CountBytes_card net32.swap_not [symmetric] net32.card_bits_swap)
    also have "\<dots> = prefix" using card_bits_mask [of k] p by (simp add: M_def k_def)
    finally have cnt: "CountBytes (NOT (byteswapOnLittleEndian32 M)) = prefix" .
    have m: "of_int (2 ^ k - 1) = M" unfolding M_def by (rule of_int_mask)
    show ?thesis using 3 cnt
      by (simp add: ipv4_broadcastAddress_def ipv4_networdAddress_def ipv4_subnetMask_def c m net32.swap_ops
        k_def [symmetric] M_def [symmetric] and.assoc del: of_int_diff)
  qed
qed

text \<open>
  What \<^verbatim>\<open>Lookup\<close> asks the resolver: a plain name without a service; of \<^verbatim>\<open>name:service\<close> and
  \<^verbatim>\<open>[address]:service\<close> the two parts. For an IPv6 address without brackets the node is the whole
  text, but the pointer to the first colon is left in the service, so the resolver is asked for a service that
  starts with a colon.
\<close>

theorem lookup_parts:
  assumes "CHR '':'' \<notin> set name" "name \<noteq> []" "hd name \<noteq> CHR ''[''" "CHR '']'' \<notin> set v6" "v6 \<noteq> []" "CHR '':'' \<notin> set service"
  shows "split_host name = (name, None) \<and>
    split_host (name @ '':'' @ service) = (name, Some service) \<and>
    split_host (''['' @ v6 @ '']:'' @ service) = (v6, Some service) \<and> split_host (''['' @ v6 @ '']'') = (v6, None) \<and>
    split_host (name @ '':'' @ service @ '':'' @ rest) = (name @ '':'' @ service @ '':'' @ rest, Some ('':'' @ service @ '':'' @ rest))"
proof -
  have colon: "find_index (\<lambda>c. c = CHR '':'') (name @ CHR '':'' # ys) = Some (length name)" for ys
    using assms(1) by (subst find_index_append) auto
  have none: "find_index (\<lambda>c. c = CHR '':'') name = None" using assms(1) by (auto simp: find_index_None)
  have close: "find_index (\<lambda>c. c = CHR '']'') (v6 @ CHR '']'' # ys) = Some (length v6)" for ys
    using assms(4) by (subst find_index_append) auto
  have br: "bracket_split (name @ ys) = ([], None)" for ys using assms(2,3) by (cases name) (simp_all add: bracket_split_def)
  have "split_host name = (name, None)" using br [of "[]"] none by (simp add: split_host_def)
  moreover have "split_host (name @ '':'' @ service) = (name, Some service)"
    using br colon assms(2,6) by (simp add: split_host_def)
  moreover have "split_host (''['' @ v6 @ '']:'' @ service) = (v6, Some service)" "split_host (''['' @ v6 @ '']'') = (v6, None)"
    using close assms(5) by (simp_all add: split_host_def bracket_split_def)
  moreover have "split_host (name @ '':'' @ service @ '':'' @ rest) =
      (name @ '':'' @ service @ '':'' @ rest, Some ('':'' @ service @ '':'' @ rest))"
    using br colon [of "service @ '':'' @ rest"] by (simp add: split_host_def)
  ultimately show ?thesis by blast
qed

theorem lookup_parts_witness:
  "split_host ''0.0.0.0:9006'' = (''0.0.0.0'', Some ''9006'') \<and> split_host ''fe80:0::1'' = (''fe80:0::1'', Some '':0::1'')"
  using lookup_parts [of "''0.0.0.0''" "''::1''" "''9006''" "[]"] lookup_parts [of "''fe80''" "''::1''" "''0''" "'':1''"] by simp

text \<open>
  A path that is not empty becomes a Unix address that shows it again, up to 107 characters, and is refused with an
  exception beyond; a path that starts with NUL (an abstract name) may have 108 and is shown with \<^verbatim>\<open>\0\<close> in front.
\<close>

lemma unix_path_roundtrip:
  assumes "NUL \<notin> set path"
  shows "path \<noteq> [] \<Longrightarrow> length path \<le> 107 \<Longrightarrow> \<exists>a n. unix_ctor path = Inr (a, n) \<and> unix_getPath a n = Inr path"
    "length path \<le> 107 \<Longrightarrow> \<exists>a n. unix_ctor (NUL # path) = Inr (a, n) \<and> unix_getPath a n = Inr ([CHR 0x5C, CHR ''0''] @ path)"
    "107 < length path \<Longrightarrow> length path < 2 ^ 31 \<Longrightarrow> unix_ctor path = Inl Uncaught_Exception"
proof -
  have u: "unat (of_nat k :: u32) = k" if "k < 2 ^ 32" for k using that by (simp add: unat_of_nat take_bit_nat_eq_self)
  show "\<exists>a n. unix_ctor path = Inr (a, n) \<and> unix_getPath a n = Inr path" if "path \<noteq> []" "length path \<le> 107"
  proof -
    define p where "p = path @ NUL # replicate (107 - length path) NUL"
    have n: "unat (of_nat (length path + 1) :: u32) = length path + 1" using that by (intro u) simp
    then have "\<not> 108 < (of_nat (length path + 1) :: u32)" using that by (simp only: word_less_nat_alt n) simp
    moreover have "put_str (replicate 108 NUL) 0 (path @ [NUL]) = Inr p"
      using that by (simp add: put_str_def p_def flip: replicate_Suc)
    ultimately have c: "unix_ctor path = Inr (\<lparr>sun_family = AF_UNIX, sun_path = p\<rparr>, of_nat (length path + 1) + 2)"
      using assms n by (cases path) (auto simp: unix_ctor_def Let_def simp del: of_nat_Suc)
    have "hd p \<noteq> NUL" using assms that(1) by (cases path) (auto simp: p_def)
    then have "unix_getPath \<lparr>sun_family = AF_UNIX, sun_path = p\<rparr> (of_nat (length path + 1) + 2) = Inr path"
      using c_str_layout [OF assms, of 0 "[]"] by (simp add: unix_getPath_def p_def)
    with c show ?thesis by blast
  qed
  show "\<exists>a n. unix_ctor (NUL # path) = Inr (a, n) \<and> unix_getPath a n = Inr ([CHR 0x5C, CHR ''0''] @ path)" if "length path \<le> 107"
  proof -
    define p where "p = NUL # path @ replicate (107 - length path) NUL"
    define n :: u32 where "n = of_nat (length path + 1)"
    have n: "unat n = length path + 1" unfolding n_def using that by (intro u) simp
    have n0: "of_nat (length (NUL # path) + 1) - 1 = n" by (simp add: n_def)
    have "\<not> 108 < n" using that n by (simp add: word_less_nat_alt)
    moreover have "put_str (replicate 108 NUL) 0 (NUL # path) = Inr p" using that by (simp add: put_str_def p_def)
    ultimately have c: "unix_ctor (NUL # path) = Inr (\<lparr>sun_family = AF_UNIX, sun_path = p\<rparr>, n + 2)"
      unfolding unix_ctor_def Let_def n0 using n by simp
    have "unat (n + 2) = length path + 3" unfolding n_def using that u [of "length path + 3"] by (simp add: add.commute)
    then have "unix_getPath \<lparr>sun_family = AF_UNIX, sun_path = p\<rparr> (n + 2) = Inr ([CHR 0x5C, CHR ''0''] @ path)"
      using that by (simp add: unix_getPath_def p_def word_less_nat_alt)
    with c show ?thesis by blast
  qed
  show "unix_ctor path = Inl Uncaught_Exception" if "107 < length path" "length path < 2 ^ 31"
  proof -
    have n: "unat (of_nat (length path + 1) :: u32) = length path + 1" using that(2) by (intro u) simp
    then have "108 < (of_nat (length path + 1) :: u32)" using that(1) by (simp only: word_less_nat_alt n) simp
    moreover have "path = [] \<or> hd path \<noteq> NUL" using assms by (cases path) auto
    ultimately show ?thesis by (auto simp: unix_ctor_def Let_def simp del: of_nat_Suc)
  qed
qed

end
