(* ===== verification/Socket.thy ===== *)
theory Socket
  imports Hook Address
begin

text \<open>
  \<^verbatim>\<open>src/util/socket.h\<close> and \<^verbatim>\<open>socket.cc\<close>: \<^verbatim>\<open>Socket\<close> and \<^verbatim>\<open>SSLSocket\<close>. They call the system calls through the
  hooks, so their operations work on the I/O manager and on the table of contexts; which descriptors are
  open is kept beside them. What the kernel answers within one operation is a record. A wait inside of
  \<^verbatim>\<open>connect\<close> is part of its step. Addresses are values: nobody changes one that a socket shares.
\<close>

section \<open>State\<close>

definition SOCK_STREAM :: int where "SOCK_STREAM = 1"
definition SOCK_DGRAM :: int where "SOCK_DGRAM = 2"

record socket =
  m_sock :: int
  m_family :: int
  m_type :: int
  m_protocol :: int
  m_isConnected :: bool
  m_localAddress :: "address option"
  m_remoteAddress :: "address option"

record 'c net =
  net_io :: "'c io_manager"
  net_fds :: fd_manager
  open_fds :: "int set"

text \<open>An option with its value, for \<^verbatim>\<open>setsockopt\<close>.\<close>

datatype sock_option = Timeo timeout_type int int | Reuseaddr int | Nodelay int

text \<open>What \<^verbatim>\<open>getsockname\<close> leaves in the buffer, as each class of address reads it, and the length.\<close>

record sock_name =
  name_in :: sockaddr_in
  name_in6 :: sockaddr_in6
  name_un :: sockaddr_un
  name_other :: sockaddr
  name_len :: u32

text \<open>
  The flags of the thread and the answers of the calls. \<open>sys_stat\<close> is what \<^verbatim>\<open>fstat\<close> and \<^verbatim>\<open>F_GETFL\<close> say of a
  new descriptor, \<open>sys_wait\<close> and \<open>sys_so_error\<close> are as in \<open>connect_with_timeout\<close>.
\<close>

record kernel =
  hook_enable :: bool
  has_iom :: bool
  sys_socket :: int
  sys_stat :: "bool option \<times> u32"
  sys_setsockopt :: "sock_option \<Rightarrow> int"
  sys_bind :: int
  sys_connect :: "int \<times> int"
  sys_wait :: "int \<times> bool"
  sys_so_error :: "int \<times> int \<times> int"
  sys_listen :: int
  sys_getsockname :: "sock_name option"
  sys_getpeername :: "sock_name option"
  sys_epoll :: int

section \<open>Creation\<close>

definition socket_ctor :: "int \<Rightarrow> int \<Rightarrow> int \<Rightarrow> socket" where
  "socket_ctor family type protocol = \<lparr>m_sock = - 1, m_family = family, m_type = type, m_protocol = protocol,
     m_isConnected = False, m_localAddress = None, m_remoteAddress = None\<rparr>"

definition setOption :: "kernel \<Rightarrow> int \<Rightarrow> sock_option \<Rightarrow> fd_manager \<Rightarrow> bool \<times> fd_manager" where
  "setOption k fd opt m =
     (sys_setsockopt k opt = 0,
      case get_read fd False m of
        Some (Some p) \<Rightarrow>
          (let c = (case opt of
               Timeo ty tv_sec tv_usec \<Rightarrow> hook_setsockopt (hook_enable k) True (Some ty) tv_sec tv_usec (Some (fd_obj m p))
             | Reuseaddr v \<Rightarrow> hook_setsockopt (hook_enable k) True None 0 0 (Some (fd_obj m p))
             | Nodelay v \<Rightarrow> hook_setsockopt (hook_enable k) False None 0 0 (Some (fd_obj m p)))
           in m\<lparr>fd_obj := (fd_obj m)(p := the c)\<rparr>)
      | _ \<Rightarrow> m)"

definition initSock :: "kernel \<Rightarrow> 'a socket_scheme \<Rightarrow> 'c net \<Rightarrow> 'c net" where
  "initSock k s n =
     (let m1 = snd (setOption k (m_sock s) (Reuseaddr 1) (net_fds n));
          m2 = (if m_type s = SOCK_STREAM then snd (setOption k (m_sock s) (Nodelay 1) m1) else m1)
      in n\<lparr>net_fds := m2\<rparr>)"

definition newSock :: "kernel \<Rightarrow> 'a socket_scheme \<Rightarrow> 'c net \<Rightarrow> ('a socket_scheme \<times> 'c net) result" where
  "newSock k s n =
     (let fd = sys_socket k in
      result_bind (hook_socket (hook_enable k) fd (fst (sys_stat k)) (snd (sys_stat k)) (net_fds n)) (\<lambda>m.
        let s1 = s\<lparr>m_sock := fd\<rparr>;
            n1 = n\<lparr>net_fds := m, open_fds := (if fd = - 1 then open_fds n else insert fd (open_fds n))\<rparr>
        in Inr (s1, if m_sock s1 \<noteq> - 1 then initSock k s1 n1 else n1)))"

definition CreateTCP :: "address \<Rightarrow> socket" where
  "CreateTCP a = socket_ctor (uint (getFamily a)) SOCK_STREAM 0"

definition create_connected :: "int \<Rightarrow> kernel \<Rightarrow> 'c net \<Rightarrow> (socket \<times> 'c net) result" where
  "create_connected family k n =
     result_bind (newSock k (socket_ctor family SOCK_DGRAM 0) n) (\<lambda>(s, n1). Inr (s\<lparr>m_isConnected := True\<rparr>, n1))"

definition CreateUDP :: "address \<Rightarrow> kernel \<Rightarrow> 'c net \<Rightarrow> (socket \<times> 'c net) result" where
  "CreateUDP a = create_connected (uint (getFamily a))"

definition CreateTCPSocket :: socket where
  "CreateTCPSocket = socket_ctor (uint AF_INET) SOCK_STREAM 0"

definition CreateUDPSocket :: "kernel \<Rightarrow> 'c net \<Rightarrow> (socket \<times> 'c net) result" where
  "CreateUDPSocket = create_connected (uint AF_INET)"

definition CreateTCPSocket6 :: socket where
  "CreateTCPSocket6 = socket_ctor (uint AF_INET6) SOCK_STREAM 0"

definition CreateUDPSocket6 :: "kernel \<Rightarrow> 'c net \<Rightarrow> (socket \<times> 'c net) result" where
  "CreateUDPSocket6 = create_connected (uint AF_INET6)"

definition CreateUnixTCPSocket :: socket where
  "CreateUnixTCPSocket = socket_ctor (uint AF_UNIX) SOCK_STREAM 0"

definition CreateUnixUDPSocket :: socket where
  "CreateUnixUDPSocket = socket_ctor (uint AF_UNIX) SOCK_DGRAM 0"

section \<open>Timeouts\<close>

text \<open>\<^verbatim>\<open>struct timeval tv{int(v / 1000), int(v % 1000 * 1000)}\<close>\<close>

definition to_int :: "int \<Rightarrow> int" where
  "to_int v = sint (of_int v :: 32 word)"

definition timeval_of :: "timeout_type \<Rightarrow> int \<Rightarrow> sock_option" where
  "timeval_of ty v = Timeo ty (to_int (v sdiv 1000)) (to_int (v smod 1000 * 1000))"

definition setSendTimeout :: "kernel \<Rightarrow> int \<Rightarrow> 'a socket_scheme \<Rightarrow> fd_manager \<Rightarrow> fd_manager" where
  "setSendTimeout k v s m = snd (setOption k (m_sock s) (timeval_of SO_SNDTIMEO v) m)"

definition setRecvTimeout :: "kernel \<Rightarrow> int \<Rightarrow> 'a socket_scheme \<Rightarrow> fd_manager \<Rightarrow> fd_manager" where
  "setRecvTimeout k v s m = snd (setOption k (m_sock s) (timeval_of SO_RCVTIMEO v) m)"

definition getSendTimeout :: "'a socket_scheme \<Rightarrow> fd_manager \<Rightarrow> int" where
  "getSendTimeout s m =
     (case lookup_fd m (m_sock s) of Some c \<Rightarrow> sint (getTimeout SO_SNDTIMEO c) | None \<Rightarrow> - 1)"

definition getRecvTimeout :: "'a socket_scheme \<Rightarrow> fd_manager \<Rightarrow> int" where
  "getRecvTimeout s m =
     (case lookup_fd m (m_sock s) of Some c \<Rightarrow> sint (getTimeout SO_RCVTIMEO c) | None \<Rightarrow> - 1)"

text \<open>\<^verbatim>\<open>getError\<close>: the option \<^verbatim>\<open>SO_ERROR\<close>, or \<^verbatim>\<open>errno\<close> when it cannot be read.\<close>

definition getError :: "kernel \<Rightarrow> int" where
  "getError k = (case sys_so_error k of (rc, errno, err) \<Rightarrow> if rc \<noteq> 0 then errno else err)"

section \<open>The addresses of a socket\<close>

definition new_address :: "int \<Rightarrow> address" where
  "new_address family =
     (if family = uint AF_INET then IPv4Address (ipv4_ctor 0 0)
      else if family = uint AF_INET6 then IPv6Address ipv6_default
      else if family = uint AF_UNIX then UnixAddress (fst unix_default) (snd unix_default)
      else UnknownAddress (unknown_ctor (of_int family)))"

definition fill_address :: "address \<Rightarrow> sock_name \<Rightarrow> address" where
  "fill_address a n =
     (case a of
        IPv4Address _ \<Rightarrow> IPv4Address (name_in n)
      | IPv6Address _ \<Rightarrow> IPv6Address (name_in6 n)
      | UnixAddress _ len \<Rightarrow> UnixAddress (name_un n) len
      | UnknownAddress _ \<Rightarrow> UnknownAddress (name_other n))"

definition named_address :: "int \<Rightarrow> sock_name \<Rightarrow> address" where
  "named_address family n =
     (let result = fill_address (new_address family) n in
      if family = uint AF_UNIX then setAddrLen (name_len n) result else result)"

definition getRemoteAddress :: "kernel \<Rightarrow> 'a socket_scheme \<Rightarrow> address \<times> 'a socket_scheme" where
  "getRemoteAddress k s =
     (case m_remoteAddress s of
        Some a \<Rightarrow> (a, s)
      | None \<Rightarrow>
          (case sys_getpeername k of
             None \<Rightarrow> (UnknownAddress (unknown_ctor (of_int (m_family s))), s)
           | Some n \<Rightarrow> (let a = named_address (m_family s) n in (a, s\<lparr>m_remoteAddress := Some a\<rparr>))))"

definition getLocalAddress :: "kernel \<Rightarrow> 'a socket_scheme \<Rightarrow> address \<times> 'a socket_scheme" where
  "getLocalAddress k s =
     (case m_localAddress s of
        Some a \<Rightarrow> (a, s)
      | None \<Rightarrow>
          (case sys_getsockname k of
             None \<Rightarrow> (UnknownAddress (unknown_ctor (of_int (m_family s))), s)
           | Some n \<Rightarrow> (let a = named_address (m_family s) n in (a, s\<lparr>m_localAddress := Some a\<rparr>))))"

definition isValid :: "'a socket_scheme \<Rightarrow> bool" where
  "isValid s \<longleftrightarrow> m_sock s \<noteq> - 1"

section \<open>Connecting, listening, closing\<close>

text \<open>\<^verbatim>\<open>connect\<close> of \<^verbatim>\<open>hook.cpp\<close>: no timeout.\<close>

definition hook_connect :: "bool \<Rightarrow> bool \<Rightarrow> fd_ctx option \<Rightarrow> int \<times> int \<Rightarrow> int \<times> bool \<Rightarrow> int \<times> int \<times> int \<Rightarrow>
    ((int \<times> int) \<times> io_action list) result" where
  "hook_connect hook io ctx = connect_with_timeout hook io ctx (- 1)"

definition socket_close :: "kernel \<Rightarrow> 'a socket_scheme \<Rightarrow> 'c net \<Rightarrow> (bool \<times> 'a socket_scheme \<times> 'c net) result" where
  "socket_close k s n =
     (if \<not> m_isConnected s \<and> m_sock s = - 1 then Inr (True, s, n)
      else
        let s1 = s\<lparr>m_isConnected := False\<rparr> in
        if m_sock s1 \<noteq> - 1 then
          result_bind (hook_close (hook_enable k) (has_iom k) (m_sock s1) (sys_epoll k) (net_io n, net_fds n))
            (\<lambda>(io, m). Inr (False, s1\<lparr>m_sock := - 1\<rparr>,
               n\<lparr>net_io := io, net_fds := m, open_fds := open_fds n - {m_sock s1}\<rparr>))
        else Inr (False, s1, n))"

definition socket_connect :: "kernel \<Rightarrow> address \<Rightarrow> u64 \<Rightarrow> 'a socket_scheme \<Rightarrow> 'c net \<Rightarrow>
    (bool \<times> 'a socket_scheme \<times> 'c net) result" where
  "socket_connect k addr timeout_ms s n =
     (let s0 = s\<lparr>m_remoteAddress := Some addr\<rparr> in
      result_bind (if isValid s0 then Inr (s0, n) else newSock k s0 n) (\<lambda>(s1, n1).
        if \<not> isValid s1 then Inr (False, s1, n1)
        else if uint (getFamily addr) \<noteq> m_family s1 then Inr (False, s1, n1)
        else
          let ctx = lookup_fd (net_fds n1) (m_sock s1) in
          result_bind
            (if timeout_ms = - 1
             then hook_connect (hook_enable k) (has_iom k) ctx (sys_connect k) (sys_wait k) (sys_so_error k)
             else connect_with_timeout (hook_enable k) (has_iom k) ctx timeout_ms (sys_connect k) (sys_wait k)
               (sys_so_error k)) (\<lambda>((rc, _), _).
          if rc \<noteq> 0 then result_bind (socket_close k s1 n1) (\<lambda>(_, s2, n2). Inr (False, s2, n2))
          else
            let s2 = s1\<lparr>m_isConnected := True\<rparr>;
                s3 = snd (getRemoteAddress k s2);
                s4 = snd (getLocalAddress k s3)
            in Inr (True, s4, n1))))"

definition socket_reconnect :: "kernel \<Rightarrow> u64 \<Rightarrow> 'a socket_scheme \<Rightarrow> 'c net \<Rightarrow>
    (bool \<times> 'a socket_scheme \<times> 'c net) result" where
  "socket_reconnect k timeout_ms s n =
     (case m_remoteAddress s of
        None \<Rightarrow> Inr (False, s, n)
      | Some a \<Rightarrow> socket_connect k a timeout_ms (s\<lparr>m_localAddress := None\<rparr>) n)"

text \<open>
  \<^verbatim>\<open>bind\<close>. For a Unix address it tries to connect a second socket, with answers \<open>k'\<close>, which is destroyed
  when the pointer to it goes out of scope.
\<close>

definition unix_taken :: "kernel \<Rightarrow> address \<Rightarrow> 'c net \<Rightarrow> (bool \<times> 'c net) result" where
  "unix_taken k' addr n =
     (case addr of
        UnixAddress _ _ \<Rightarrow>
          result_bind (socket_connect k' addr (- 1) CreateUnixTCPSocket n) (\<lambda>(r, s1, n1).
          result_bind (socket_close k' s1 n1) (\<lambda>(_, _, n2). Inr (r, n2)))
      | _ \<Rightarrow> Inr (False, n))"

definition socket_bind :: "kernel \<Rightarrow> kernel \<Rightarrow> address \<Rightarrow> 'a socket_scheme \<Rightarrow> 'c net \<Rightarrow>
    (bool \<times> 'a socket_scheme \<times> 'c net) result" where
  "socket_bind k k' addr s n =
     result_bind (if isValid s then Inr (s, n) else newSock k s n) (\<lambda>(s1, n1).
       if uint (getFamily addr) \<noteq> m_family s1 then Inr (False, s1, n1)
       else result_bind (unix_taken k' addr n1) (\<lambda>(taken, n2).
         if taken then Inr (False, s1, n2)
         else if sys_bind k \<noteq> 0 then Inr (False, s1, n2)
         else Inr (True, snd (getLocalAddress k s1), n2)))"

definition socket_listen :: "kernel \<Rightarrow> 'a socket_scheme \<Rightarrow> bool" where
  "socket_listen k s = (if \<not> isValid s then False else if sys_listen k \<noteq> 0 then False else True)"

section \<open>Accepting\<close>

definition socket_init :: "kernel \<Rightarrow> int \<Rightarrow> 'a socket_scheme \<Rightarrow> 'c net \<Rightarrow> bool \<times> 'a socket_scheme \<times> 'c net" where
  "socket_init k sock s n =
     (case lookup_fd (net_fds n) sock of
        None \<Rightarrow> (False, s, n)
      | Some c \<Rightarrow>
          if m_isSocket c \<and> \<not> m_isClosed c then
            let s1 = s\<lparr>m_sock := sock, m_isConnected := True\<rparr>;
                n1 = initSock k s1 n;
                s2 = snd (getLocalAddress k s1);
                s3 = snd (getRemoteAddress k s2)
            in (True, s3, n1)
          else (False, s, n))"

text \<open>
  \<^verbatim>\<open>accept\<close>, from the return of the hooked call with the descriptor \<open>newsock\<close> on, and the whole: \<open>n\<close> is
  the state when it is called, \<open>n'\<close> when the hooked call returns.
\<close>

definition hooked_accept :: "kernel \<Rightarrow> int \<Rightarrow> 'c net \<Rightarrow> 'c net result" where
  "hooked_accept k newsock n =
     result_bind (hook_accept newsock (fst (sys_stat k)) (snd (sys_stat k)) (net_fds n)) (\<lambda>m.
       Inr (n\<lparr>net_fds := m, open_fds := (if 0 \<le> newsock then insert newsock (open_fds n) else open_fds n)\<rparr>))"

definition accept_return :: "kernel \<Rightarrow> int \<Rightarrow> 'a socket_scheme \<Rightarrow> 'c net \<Rightarrow> (socket option \<times> 'c net) result" where
  "accept_return k newsock s n =
     result_bind (hooked_accept k newsock n) (\<lambda>n1.
       if newsock = - 1 then Inr (None, n1)
       else case socket_init k newsock (socket_ctor (m_family s) (m_type s) (m_protocol s)) n1 of
         (ok, sock, n2) \<Rightarrow> Inr (if ok then Some sock else None, n2))"

definition socket_accept :: "kernel \<Rightarrow> (int \<times> int) list \<Rightarrow> (int \<times> int \<times> bool) list \<Rightarrow> 'a socket_scheme \<Rightarrow>
    'c net \<Rightarrow> 'c net \<Rightarrow> (socket option \<times> 'c net) result option" where
  "socket_accept k as ws s n n' =
     map_option (\<lambda>r. result_bind r (\<lambda>((newsock, _), _). accept_return k newsock s n'))
       (do_io (hook_enable k) (has_iom k) (lookup_fd (net_fds n) (m_sock s)) IO_accept as ws)"

section \<open>Sending and receiving\<close>

text \<open>
  Each is refused unless the socket is connected. The result is the return value and what the hook
  asked of the I/O manager; \<open>as\<close> and \<open>ws\<close> are as in \<open>do_io\<close>.
\<close>

definition if_connected :: "io_fun \<Rightarrow> kernel \<Rightarrow> (int \<times> int) list \<Rightarrow> (int \<times> int \<times> bool) list \<Rightarrow> 'a socket_scheme \<Rightarrow>
    'c net \<Rightarrow> (int \<times> io_action list) result option" where
  "if_connected f k as ws s n =
     (if m_isConnected s then
        map_option (\<lambda>r. result_bind r (\<lambda>((rt, _), tr). Inr (rt, tr)))
          (do_io (hook_enable k) (has_iom k) (lookup_fd (net_fds n) (m_sock s)) f as ws)
      else Some (Inr (- 1, [])))"

definition socket_writev where "socket_writev = if_connected IO_writev"

definition socket_send where "socket_send = if_connected IO_send"

definition socket_send_iov where "socket_send_iov = if_connected IO_sendmsg"

definition socket_sendTo where "socket_sendTo = if_connected IO_sendto"

definition socket_sendTo_iov where "socket_sendTo_iov = if_connected IO_sendmsg"

definition socket_recv where "socket_recv = if_connected IO_recv"

definition socket_recv_iov where "socket_recv_iov = if_connected IO_recvmsg"

definition socket_recvFrom where "socket_recvFrom = if_connected IO_recvfrom"

definition socket_recvFrom_iov where "socket_recvFrom_iov = if_connected IO_recvmsg"

section \<open>Cancelling\<close>

definition on_io :: "kernel \<Rightarrow> ('c io_manager \<Rightarrow> (bool \<times> 'c io_manager) result) \<Rightarrow> 'c net \<Rightarrow> (bool \<times> 'c net) result" where
  "on_io k f n =
     (if has_iom k then result_bind (f (net_io n)) (\<lambda>(r, io). Inr (r, n\<lparr>net_io := io\<rparr>)) else Inl Null_Deref)"

definition cancelRead :: "kernel \<Rightarrow> 'a socket_scheme \<Rightarrow> 'c net \<Rightarrow> (bool \<times> 'c net) result" where
  "cancelRead k s = on_io k (cancelEvent (m_sock s) READ (sys_epoll k))"

definition cancelWrite :: "kernel \<Rightarrow> 'a socket_scheme \<Rightarrow> 'c net \<Rightarrow> (bool \<times> 'c net) result" where
  "cancelWrite k s = on_io k (cancelEvent (m_sock s) WRITE (sys_epoll k))"

definition cancelAccept :: "kernel \<Rightarrow> 'a socket_scheme \<Rightarrow> 'c net \<Rightarrow> (bool \<times> 'c net) result" where
  "cancelAccept k s = on_io k (cancelEvent (m_sock s) READ (sys_epoll k))"

definition socket_cancelAll :: "kernel \<Rightarrow> 'a socket_scheme \<Rightarrow> 'c net \<Rightarrow> (bool \<times> 'c net) result" where
  "socket_cancelAll k s = on_io k (IO_Manager.cancelAll (m_sock s) (sys_epoll k))"

section \<open>Printing\<close>

definition dump_as :: "string \<Rightarrow> 'a socket_scheme \<Rightarrow> string result" where
  "dump_as class_name s =
     (let opt = (\<lambda>label a. case a of None \<Rightarrow> Inr [] | Some a \<Rightarrow> result_bind (toString a) (\<lambda>t. Inr (label @ t))) in
      result_bind (opt '' local_address='' (m_localAddress s)) (\<lambda>loc.
      result_bind (opt '' remote_address='' (m_remoteAddress s)) (\<lambda>rem.
        Inr (''['' @ class_name @ '' sock='' @ dec_int (m_sock s) @
          '' is_connected='' @ (if m_isConnected s then ''1'' else ''0'') @
          '' family='' @ dec_int (m_family s) @ '' type='' @ dec_int (m_type s) @
          '' protocol='' @ dec_int (m_protocol s) @ loc @ rem @ '']''))))"

definition socket_dump :: "socket \<Rightarrow> string result" where
  "socket_dump = dump_as ''Socket''"

section \<open>SSL sockets\<close>

text \<open>
  \<^verbatim>\<open>m_ctx\<close> is the identity of the shared context, \<^verbatim>\<open>m_ssl\<close> the descriptor of the session, as
  \<^verbatim>\<open>SSL_set_fd\<close> got it. What the library answers is the record \<open>ssl_lib\<close>.
\<close>

record ssl_socket = socket +
  m_ctx :: "nat option"
  m_ssl :: "int option"

record ssl_lib =
  SSL_CTX_new :: nat
  SSL_connect :: int
  SSL_accept :: int
  SSL_use_certificate :: int
  SSL_use_PrivateKey :: int
  SSL_check_key :: int

definition ssl_ctor :: "int \<Rightarrow> int \<Rightarrow> int \<Rightarrow> ssl_socket" where
  "ssl_ctor family type protocol = socket.extend (socket_ctor family type protocol) \<lparr>m_ctx = None, m_ssl = None\<rparr>"

definition ssl_CreateTCP :: "address \<Rightarrow> ssl_socket" where
  "ssl_CreateTCP a = ssl_ctor (uint (getFamily a)) SOCK_STREAM 0"

definition ssl_CreateTCPSocket :: ssl_socket where
  "ssl_CreateTCPSocket = ssl_ctor (uint AF_INET) SOCK_STREAM 0"

definition ssl_CreateTCPSocket6 :: ssl_socket where
  "ssl_CreateTCPSocket6 = ssl_ctor (uint AF_INET6) SOCK_STREAM 0"

definition ssl_connect :: "kernel \<Rightarrow> ssl_lib \<Rightarrow> address \<Rightarrow> u64 \<Rightarrow> ssl_socket \<Rightarrow> 'c net \<Rightarrow>
    (bool \<times> ssl_socket \<times> 'c net) result" where
  "ssl_connect k l addr timeout_ms s n =
     result_bind (socket_connect k addr timeout_ms s n) (\<lambda>(v, s1, n1).
       if v then Inr (SSL_connect l = 1, s1\<lparr>m_ctx := Some (SSL_CTX_new l), m_ssl := Some (m_sock s1)\<rparr>, n1)
       else Inr (False, s1, n1))"

definition ssl_init :: "kernel \<Rightarrow> ssl_lib \<Rightarrow> int \<Rightarrow> ssl_socket \<Rightarrow> 'c net \<Rightarrow> bool \<times> ssl_socket \<times> 'c net" where
  "ssl_init k l sock s n =
     (case socket_init k sock s n of (v, s1, n1) \<Rightarrow>
        if v then (SSL_accept l = 1, s1\<lparr>m_ssl := Some (m_sock s1)\<rparr>, n1) else (False, s1, n1))"

text \<open>
  \<^verbatim>\<open>accept\<close>, from the return of the hooked call on. When \<^verbatim>\<open>init\<close> fails, the only pointer to the new
  socket goes away, so its destructor closes it.
\<close>

definition ssl_accept_return :: "kernel \<Rightarrow> ssl_lib \<Rightarrow> int \<Rightarrow> ssl_socket \<Rightarrow> 'c net \<Rightarrow>
    (ssl_socket option \<times> 'c net) result" where
  "ssl_accept_return k l newsock s n =
     result_bind (hooked_accept k newsock n) (\<lambda>n1.
       if newsock = - 1 then Inr (None, n1)
       else case ssl_init k l newsock ((ssl_ctor (m_family s) (m_type s) (m_protocol s))\<lparr>m_ctx := m_ctx s\<rparr>) n1 of
         (ok, sock, n2) \<Rightarrow>
           if ok then Inr (Some sock, n2)
           else result_bind (socket_close k sock n2) (\<lambda>(_, _, n3). Inr (None, n3)))"

definition ssl_loadCertificates :: "ssl_lib \<Rightarrow> ssl_socket \<Rightarrow> bool \<times> ssl_socket" where
  "ssl_loadCertificates l s =
     (let s1 = s\<lparr>m_ctx := Some (SSL_CTX_new l)\<rparr> in
      if SSL_use_certificate l \<noteq> 1 then (False, s1)
      else if SSL_use_PrivateKey l \<noteq> 1 then (False, s1)
      else if SSL_check_key l \<noteq> 1 then (False, s1)
      else (True, s1))"

text \<open>
  \<^verbatim>\<open>send\<close> and \<^verbatim>\<open>recv\<close>: \<open>io\<close> is what \<^verbatim>\<open>SSL_write\<close> or \<^verbatim>\<open>SSL_read\<close> answers. With several buffers, of the lengths
  \<open>lens\<close>, the calls go on while each fills its buffer; \<open>ios\<close> are their answers and \<open>None\<close> means that
  they run out. The result has the return value and the bytes each call moved.
\<close>

definition ssl_send :: "ssl_socket \<Rightarrow> int \<Rightarrow> int" where
  "ssl_send s io = (if m_ssl s \<noteq> None then io else - 1)"

definition ssl_recv :: "ssl_socket \<Rightarrow> int \<Rightarrow> int" where
  "ssl_recv s io = (if m_ssl s \<noteq> None then io else - 1)"

fun ssl_loop :: "nat list \<Rightarrow> int list \<Rightarrow> int \<Rightarrow> (int \<times> int list) result option" where
  "ssl_loop [] ios acc = Some (Inr (acc, []))"
| "ssl_loop (len # lens) [] acc = None"
| "ssl_loop (len # lens) (tmp # ios) acc =
     (if tmp \<le> 0 then Some (Inr (tmp, []))
      else if 2 ^ 31 \<le> acc + tmp then Some (Inl Undefined_Behaviour)
      else if tmp \<noteq> to_int (int len) then Some (Inr (acc + tmp, [tmp]))
      else map_option (\<lambda>r. result_bind r (\<lambda>(t, moved). Inr (t, tmp # moved))) (ssl_loop lens ios (acc + tmp)))"

definition ssl_send_iov :: "ssl_socket \<Rightarrow> nat list \<Rightarrow> int list \<Rightarrow> (int \<times> int list) result option" where
  "ssl_send_iov s lens ios = (if m_ssl s = None then Some (Inr (- 1, [])) else ssl_loop lens ios 0)"

definition ssl_recv_iov :: "ssl_socket \<Rightarrow> nat list \<Rightarrow> int list \<Rightarrow> (int \<times> int list) result option" where
  "ssl_recv_iov s lens ios = (if m_ssl s = None then Some (Inr (- 1, [])) else ssl_loop lens ios 0)"

section \<open>Which descriptor a socket owns\<close>

lemma initSock_sel [simp]:
  "open_fds (initSock k s n) = open_fds n" "net_io (initSock k s n) = net_io n"
  by (simp_all add: initSock_def Let_def)

lemma address_sel [simp]:
  "m_sock (snd (getRemoteAddress k s)) = m_sock s" "m_sock (snd (getLocalAddress k s)) = m_sock s"
  "m_isConnected (snd (getRemoteAddress k s)) = m_isConnected s"
  "m_isConnected (snd (getLocalAddress k s)) = m_isConnected s"
  "m_type (snd (getRemoteAddress k s)) = m_type s" "m_type (snd (getLocalAddress k s)) = m_type s"
  "m_family (snd (getRemoteAddress k s)) = m_family s" "m_family (snd (getLocalAddress k s)) = m_family s"
  "m_remoteAddress (snd (getLocalAddress k s)) = m_remoteAddress s"
  by (auto simp: getRemoteAddress_def getLocalAddress_def Let_def split: option.splits)

definition fd_fresh :: "kernel \<Rightarrow> int set \<Rightarrow> bool" where
  "fd_fresh k fds \<longleftrightarrow> sys_socket k = - 1 \<or> 0 \<le> sys_socket k \<and> sys_socket k \<notin> fds"

text \<open>An operation on a socket leaves the descriptor alone, or opens a new one, or closes the one it has.\<close>

definition own_step :: "'a socket_scheme \<Rightarrow> int set \<Rightarrow> 'a socket_scheme \<Rightarrow> int set \<Rightarrow> bool" where
  "own_step s fds s' fds' \<longleftrightarrow> m_type s' = m_type s \<and>
     ((m_sock s' = m_sock s \<and> fds' = fds) \<or>
      (m_sock s = - 1 \<and> 0 \<le> m_sock s' \<and> m_sock s' \<notin> fds \<and> fds' = insert (m_sock s') fds) \<or>
      (m_sock s \<noteq> - 1 \<and> m_sock s' = - 1 \<and> fds' = fds - {m_sock s}))"

definition stream_ok :: "'a socket_scheme \<Rightarrow> bool" where
  "stream_ok s \<longleftrightarrow> (m_type s = SOCK_STREAM \<and> m_isConnected s \<longrightarrow> m_sock s \<noteq> - 1)"

lemma newSock_effect:
  assumes "newSock k s n = Inr (s', n')"
  shows "s' = s\<lparr>m_sock := sys_socket k\<rparr>"
    "open_fds n' = (if sys_socket k = - 1 then open_fds n else insert (sys_socket k) (open_fds n))"
    "net_io n' = net_io n"
  using assms by (auto simp: newSock_def Let_def result_bind_Inr_iff split: if_splits)

lemma own_newSock:
  assumes "newSock k s n = Inr (s', n')" "m_sock s = - 1" "fd_fresh k (open_fds n)"
  shows "own_step s (open_fds n) s' (open_fds n')"
  using newSock_effect [OF assms(1)] assms(2,3) by (auto simp: own_step_def fd_fresh_def)

lemma socket_close_effect:
  assumes "socket_close k s n = Inr (b, s', n')"
  shows "m_sock s' = - 1" "\<not> m_isConnected s'" "m_type s' = m_type s"
    "m_family s' = m_family s" "m_remoteAddress s' = m_remoteAddress s"
    "open_fds n' = (if m_sock s = - 1 then open_fds n else open_fds n - {m_sock s})"
  using assms by (auto simp: socket_close_def Let_def result_bind_Inr_iff split: if_splits)

lemma own_close:
  assumes "socket_close k s n = Inr (b, s', n')"
  shows "own_step s (open_fds n) s' (open_fds n')" "stream_ok s'"
  using socket_close_effect [OF assms] by (auto simp: own_step_def stream_ok_def)

lemma own_step_trans:
  assumes "own_step s fds s' fds'" "own_step s' fds' s'' fds''" "m_sock s' = m_sock s \<or> m_sock s'' = m_sock s' \<or> m_sock s'' = - 1"
  shows "own_step s fds s'' fds''"
  using assms by (auto simp: own_step_def)

text \<open>How \<^verbatim>\<open>connect\<close> ends, with the socket after the descriptor was looked for.\<close>

lemma socket_connect_cases:
  assumes "socket_connect k addr timeout_ms s n = Inr (b, s', n')"
  obtains s1 n1 where
    "(if isValid s then Inr (s\<lparr>m_remoteAddress := Some addr\<rparr>, n) else newSock k (s\<lparr>m_remoteAddress := Some addr\<rparr>) n) = Inr (s1, n1)"
    "s1 = s\<lparr>m_sock := (if isValid s then m_sock s else sys_socket k), m_remoteAddress := Some addr\<rparr>"
    "\<not> isValid s1 \<and> \<not> b \<and> s' = s1 \<and> n' = n1 \<or>
     isValid s1 \<and> uint (getFamily addr) \<noteq> m_family s1 \<and> \<not> b \<and> s' = s1 \<and> n' = n1 \<or>
     isValid s1 \<and> uint (getFamily addr) = m_family s1 \<and> \<not> b \<and> (\<exists>b'. socket_close k s1 n1 = Inr (b', s', n')) \<or>
     isValid s1 \<and> uint (getFamily addr) = m_family s1 \<and> b \<and> n' = n1 \<and>
       s' = snd (getLocalAddress k (s1\<lparr>m_isConnected := True\<rparr>))"
proof -
  let ?s0 = "s\<lparr>m_remoteAddress := Some addr\<rparr>"
  have valid: "isValid ?s0 = isValid s" by (simp add: isValid_def)
  obtain s1 n1 where first: "(if isValid s then Inr (?s0, n) else newSock k ?s0 n) = Inr (s1, n1)"
    using assms by (auto simp: socket_connect_def Let_def result_bind_Inr_iff valid)
  have s1: "s1 = s\<lparr>m_sock := (if isValid s then m_sock s else sys_socket k), m_remoteAddress := Some addr\<rparr>"
    using first newSock_effect(1) [of k ?s0 n s1 n1] by (auto split: if_splits)
  have "snd (getRemoteAddress k (s1\<lparr>m_isConnected := True\<rparr>)) = s1\<lparr>m_isConnected := True\<rparr>"
    by (simp add: s1 getRemoteAddress_def)
  then have "\<not> isValid s1 \<and> \<not> b \<and> s' = s1 \<and> n' = n1 \<or>
     isValid s1 \<and> uint (getFamily addr) \<noteq> m_family s1 \<and> \<not> b \<and> s' = s1 \<and> n' = n1 \<or>
     isValid s1 \<and> uint (getFamily addr) = m_family s1 \<and> \<not> b \<and> (\<exists>b'. socket_close k s1 n1 = Inr (b', s', n')) \<or>
     isValid s1 \<and> uint (getFamily addr) = m_family s1 \<and> b \<and> n' = n1 \<and>
       s' = snd (getLocalAddress k (s1\<lparr>m_isConnected := True\<rparr>))"
    using assms first by (auto simp: socket_connect_def Let_def result_bind_Inr_iff valid split: if_splits)
  with first s1 show thesis by (rule that)
qed

lemma own_connect:
  assumes connect: "socket_connect k addr timeout_ms s n = Inr (b, s', n')" and fd_fresh: "fd_fresh k (open_fds n)"
    and ok: "stream_ok s"
  shows "own_step s (open_fds n) s' (open_fds n')" "stream_ok s'"
proof -
  have "own_step s (open_fds n) s' (open_fds n') \<and> stream_ok s'"
  proof (rule socket_connect_cases [OF connect])
    fix s1 n1
    assume first: "(if isValid s then Inr (s\<lparr>m_remoteAddress := Some addr\<rparr>, n)
        else newSock k (s\<lparr>m_remoteAddress := Some addr\<rparr>) n) = Inr (s1, n1)"
      and s1: "s1 = s\<lparr>m_sock := (if isValid s then m_sock s else sys_socket k), m_remoteAddress := Some addr\<rparr>"
      and cases: "\<not> isValid s1 \<and> \<not> b \<and> s' = s1 \<and> n' = n1 \<or>
       isValid s1 \<and> uint (getFamily addr) \<noteq> m_family s1 \<and> \<not> b \<and> s' = s1 \<and> n' = n1 \<or>
       isValid s1 \<and> uint (getFamily addr) = m_family s1 \<and> \<not> b \<and> (\<exists>b'. socket_close k s1 n1 = Inr (b', s', n')) \<or>
       isValid s1 \<and> uint (getFamily addr) = m_family s1 \<and> b \<and> n' = n1 \<and>
         s' = snd (getLocalAddress k (s1\<lparr>m_isConnected := True\<rparr>))"
    have own1: "own_step s (open_fds n) s1 (open_fds n1)"
    proof (cases "isValid s")
      case False
      then have "newSock k (s\<lparr>m_remoteAddress := Some addr\<rparr>) n = Inr (s1, n1)" using first by simp
      from own_newSock [OF this] False fd_fresh show ?thesis by (simp add: isValid_def own_step_def)
    qed (use first in \<open>auto simp: own_step_def\<close>)
    have ok1: "stream_ok s1" using s1 ok by (auto simp: stream_ok_def isValid_def)
    from cases consider (stay) "s' = s1" "n' = n1" | (close) b' where "socket_close k s1 n1 = Inr (b', s', n')"
      | (connected) "isValid s1" "n' = n1" "s' = snd (getLocalAddress k (s1\<lparr>m_isConnected := True\<rparr>))"
      by blast
    then show ?thesis
    proof cases
      case stay
      with own1 ok1 show ?thesis by simp
    next
      case close
      from own_step_trans [OF own1 own_close(1) [OF close]] show ?thesis
        using own_close(2) [OF close] by (simp add: socket_close_effect [OF close])
    next
      case connected
      with own1 show ?thesis by (simp add: own_step_def stream_ok_def isValid_def)
    qed
  qed
  then show "own_step s (open_fds n) s' (open_fds n')" "stream_ok s'" by auto
qed

lemma unix_taken_open:
  assumes "unix_taken k addr n = Inr (b, n')" "fd_fresh k (open_fds n)"
  shows "open_fds n' = open_fds n"
proof (cases "\<exists>u l. addr = UnixAddress u l")
  case True
  then obtain r s1 n1 b2 s2 where con: "socket_connect k addr (- 1) CreateUnixTCPSocket n = Inr (r, s1, n1)"
    and cl: "socket_close k s1 n1 = Inr (b2, s2, n')"
    using assms(1) by (auto simp: unix_taken_def result_bind_Inr_iff)
  have "own_step CreateUnixTCPSocket (open_fds n) s1 (open_fds n1)"
    using own_connect(1) [OF con assms(2)] by (simp add: stream_ok_def CreateUnixTCPSocket_def socket_ctor_def)
  then show ?thesis
    using socket_close_effect(6) [OF cl] by (auto simp: own_step_def CreateUnixTCPSocket_def socket_ctor_def)
qed (use assms(1) in \<open>cases addr; simp add: unix_taken_def\<close>)

lemma own_bind:
  assumes bind: "socket_bind k k' addr s n = Inr (b, s', n')" and fd_fresh: "fd_fresh k (open_fds n)"
    "fd_fresh k' (insert (sys_socket k) (open_fds n))" and ok: "stream_ok s"
  shows "own_step s (open_fds n) s' (open_fds n')" "stream_ok s'"
proof -
  obtain s1 n1 where first: "(if isValid s then Inr (s, n) else newSock k s n) = Inr (s1, n1)"
    using bind by (auto simp: socket_bind_def Let_def result_bind_Inr_iff)
  have own1: "own_step s (open_fds n) s1 (open_fds n1)"
    using first own_newSock [of k s n s1 n1] fd_fresh(1) by (auto simp: isValid_def own_step_def split: if_splits)
  have ok1: "stream_ok s1"
    using first ok newSock_effect(1) [of k s n s1 n1] by (auto simp: stream_ok_def isValid_def split: if_splits)
  have fd_fresh': "fd_fresh k' (open_fds n1)"
    using first fd_fresh(2) newSock_effect(2) [of k s n s1 n1] by (auto simp: fd_fresh_def split: if_splits)
  have "m_sock s' = m_sock s1 \<and> m_type s' = m_type s1 \<and> m_isConnected s' = m_isConnected s1 \<and> open_fds n' = open_fds n1"
    using bind first unix_taken_open [OF _ fd_fresh']
    by (auto simp: socket_bind_def result_bind_Inr_iff split: if_splits)
  then show "own_step s (open_fds n) s' (open_fds n')" "stream_ok s'"
    using own1 ok1 by (auto simp: own_step_def stream_ok_def)
qed

lemma accept_return_effect:
  assumes "accept_return k newsock s n = Inr (r, n')" "newsock = - 1 \<or> 0 \<le> newsock"
  shows "open_fds n' = (if newsock = - 1 then open_fds n else insert newsock (open_fds n))"
    "\<And>c. r = Some c \<Longrightarrow> m_sock c = newsock \<and> newsock \<noteq> - 1 \<and> m_isConnected c \<and> m_type c = m_type s"
  using assms
  by (auto simp: accept_return_def hooked_accept_def result_bind_Inr_iff socket_init_def Let_def socket_ctor_def
    split: if_splits option.splits)

section \<open>Many sockets\<close>

text \<open>
  The sockets of a program, by the identity of the object, and the operations on them in any order. The
  kernel gives a descriptor that is not open.
\<close>

record 'c sock_sys =
  socks :: "nat \<Rightarrow> socket option"
  sock_net :: "'c net"

definition put_sock :: "nat \<Rightarrow> socket option \<Rightarrow> 'c net \<Rightarrow> 'c sock_sys \<Rightarrow> 'c sock_sys" where
  "put_sock a s n y = y\<lparr>socks := (socks y)(a := s), sock_net := n\<rparr>"

inductive sock_step :: "'c sock_sys \<Rightarrow> 'c sock_sys \<Rightarrow> bool" where
  create: "socks y a = None \<Longrightarrow>
    sock_step y (put_sock a (Some (socket_ctor family type protocol)) (sock_net y) y)"
| create_connected: "socks y a = None \<Longrightarrow> fd_fresh k (open_fds (sock_net y)) \<Longrightarrow>
    create_connected family k (sock_net y) = Inr (s, n) \<Longrightarrow> sock_step y (put_sock a (Some s) n y)"
| bind: "socks y a = Some s \<Longrightarrow> fd_fresh k (open_fds (sock_net y)) \<Longrightarrow>
    fd_fresh k' (insert (sys_socket k) (open_fds (sock_net y))) \<Longrightarrow>
    socket_bind k k' addr s (sock_net y) = Inr (b, s', n) \<Longrightarrow> sock_step y (put_sock a (Some s') n y)"
| connect: "socks y a = Some s \<Longrightarrow> fd_fresh k (open_fds (sock_net y)) \<Longrightarrow>
    socket_connect k addr timeout_ms s (sock_net y) = Inr (b, s', n) \<Longrightarrow> sock_step y (put_sock a (Some s') n y)"
| reconnect: "socks y a = Some s \<Longrightarrow> fd_fresh k (open_fds (sock_net y)) \<Longrightarrow>
    socket_reconnect k timeout_ms s (sock_net y) = Inr (b, s', n) \<Longrightarrow> sock_step y (put_sock a (Some s') n y)"
| accept: "socks y a = Some s \<Longrightarrow> socks y c = None \<Longrightarrow>
    newsock = - 1 \<or> 0 \<le> newsock \<and> newsock \<notin> open_fds (sock_net y) \<Longrightarrow>
    accept_return k newsock s (sock_net y) = Inr (r, n) \<Longrightarrow> sock_step y (put_sock c r n y)"
| close: "socks y a = Some s \<Longrightarrow> socket_close k s (sock_net y) = Inr (b, s', n) \<Longrightarrow>
    sock_step y (put_sock a (Some s') n y)"
| destroy: "socks y a = Some s \<Longrightarrow> socket_close k s (sock_net y) = Inr (b, s', n) \<Longrightarrow>
    sock_step y (put_sock a None n y)"

text \<open>
  An open descriptor of a socket is its own, and a stream socket that counts as connected has one.
\<close>

definition sock_inv :: "'c sock_sys \<Rightarrow> bool" where
  "sock_inv y \<longleftrightarrow>
     (\<forall>a s. socks y a = Some s \<longrightarrow> stream_ok s \<and> (m_sock s = - 1 \<or> 0 \<le> m_sock s \<and> m_sock s \<in> open_fds (sock_net y))) \<and>
     (\<forall>a b s t. socks y a = Some s \<longrightarrow> socks y b = Some t \<longrightarrow> m_sock s = m_sock t \<longrightarrow> m_sock s \<noteq> - 1 \<longrightarrow> a = b)"

lemma sock_inv_D:
  assumes "sock_inv y" "socks y a = Some s"
  shows "stream_ok s" "m_sock s \<noteq> - 1 \<Longrightarrow> 0 \<le> m_sock s" "m_sock s \<noteq> - 1 \<Longrightarrow> m_sock s \<in> open_fds (sock_net y)"
    "socks y b = Some t \<Longrightarrow> m_sock s = m_sock t \<Longrightarrow> m_sock s \<noteq> - 1 \<Longrightarrow> a = b"
  using assms unfolding sock_inv_def by metis+

lemma put_sock_sel [simp]:
  "socks (put_sock a s n y) = (socks y)(a := s)" "sock_net (put_sock a s n y) = n"
  by (simp_all add: put_sock_def)

lemma sock_inv_own:
  assumes inv: "sock_inv y" and a: "socks y a = Some s" and ok: "stream_ok s'"
    and own: "own_step s (open_fds (sock_net y)) s' (open_fds n)"
  shows "sock_inv (put_sock a (Some s') n y)"
proof -
  note D = sock_inv_D [OF inv]
  have other: "m_sock s = - 1 \<or> m_sock t \<noteq> m_sock s" if "socks y b = Some t" "b \<noteq> a" for b t
    using D(4) [OF a that(1)] that(2) by metis
  have keep: "m_sock t = - 1 \<or> m_sock t \<in> open_fds n" if "socks y b = Some t" "b \<noteq> a" for b t
    using own D(3) [OF that(1)] other [OF that] unfolding own_step_def by blast
  have diff: "m_sock t \<noteq> m_sock s' \<or> m_sock s' = - 1" if "socks y b = Some t" "b \<noteq> a" for b t
    using own D(3) [OF that(1)] other [OF that] unfolding own_step_def by metis
  have self: "m_sock s' = - 1 \<or> 0 \<le> m_sock s' \<and> m_sock s' \<in> open_fds n"
    using own D(2,3) [OF a] by (auto simp: own_step_def)
  have "stream_ok t \<and> (m_sock t = - 1 \<or> 0 \<le> m_sock t \<and> m_sock t \<in> open_fds n)"
    if "((socks y)(a := Some s')) b = Some t" for b t
    using that ok self keep [of b t] D(1,2) [of b t] by (cases "b = a") auto
  moreover have "b = c" if "((socks y)(a := Some s')) b = Some t" "((socks y)(a := Some s')) c = Some u"
      "m_sock t = m_sock u" "m_sock t \<noteq> - 1" for b c t u
  proof (cases "b = a \<or> c = a")
    case True
    then show ?thesis using that diff [of b t] diff [of c u] by (metis fun_upd_apply option.sel)
  next
    case False
    then show ?thesis using that(1,2) D(4) [OF _ _ that(3,4)] by (metis fun_upd_apply)
  qed
  ultimately show ?thesis unfolding sock_inv_def put_sock_sel by blast
qed

text \<open>A new object, which has no descriptor yet, or a new one.\<close>

lemma sock_inv_new:
  assumes inv: "sock_inv y" and a: "socks y a = None" and ok: "stream_ok s"
    and own: "m_sock s = - 1 \<and> open_fds n = open_fds (sock_net y) \<or>
      0 \<le> m_sock s \<and> m_sock s \<notin> open_fds (sock_net y) \<and> open_fds n = insert (m_sock s) (open_fds (sock_net y))"
  shows "sock_inv (put_sock a (Some s) n y)"
proof -
  let ?e = "s\<lparr>m_sock := - 1, m_isConnected := False\<rparr>"
  let ?y = "put_sock a (Some ?e) (sock_net y) y"
  have "sock_inv ?y"
    using inv a unfolding sock_inv_def put_sock_sel by (auto simp: stream_ok_def)
  moreover have "own_step ?e (open_fds (sock_net ?y)) s (open_fds n)" using own by (auto simp: own_step_def)
  ultimately have "sock_inv (put_sock a (Some s) n ?y)" by (intro sock_inv_own [OF _ _ ok]) auto
  moreover have "put_sock a (Some s) n ?y = put_sock a (Some s) n y" by (simp add: put_sock_def)
  ultimately show ?thesis by simp
qed

lemma sock_inv_remove:
  assumes inv: "sock_inv (put_sock a (Some s) n y)"
  shows "sock_inv (put_sock a None n y)"
  unfolding sock_inv_def
proof (intro conjI allI impI)
  fix b t assume "socks (put_sock a None n y) b = Some t"
  then have b: "socks (put_sock a (Some s) n y) b = Some t" by (auto split: if_splits)
  from sock_inv_D(1-3) [OF inv b] show "stream_ok t"
    "m_sock t = - 1 \<or> 0 \<le> m_sock t \<and> m_sock t \<in> open_fds (sock_net (put_sock a None n y))" by auto
  fix c u assume "socks (put_sock a None n y) c = Some u" "m_sock t = m_sock u" "m_sock t \<noteq> - 1"
  then show "b = c" using sock_inv_D(4) [OF inv b] by (auto split: if_splits)
qed

lemma sock_inv_opened:
  assumes "sock_inv y" "open_fds (sock_net y) \<subseteq> open_fds n" "socks y c = None"
  shows "sock_inv (put_sock c None n y)"
  using assms unfolding sock_inv_def put_sock_sel by (auto split: if_splits)

lemma sock_step_inv:
  assumes "sock_step y y'" "sock_inv y"
  shows "sock_inv y'"
  using assms
proof (induction rule: sock_step.induct)
  case (create y a family type protocol)
  then show ?case by (intro sock_inv_new) (auto simp: socket_ctor_def stream_ok_def)
next
  case (create_connected y a k family s n)
  then obtain s1 where new: "newSock k (socket_ctor family SOCK_DGRAM 0) (sock_net y) = Inr (s1, n)"
    and s: "s = s1\<lparr>m_isConnected := True\<rparr>"
    by (auto simp: create_connected_def result_bind_Inr_iff)
  from newSock_effect [OF new] s create_connected show ?case
    by (intro sock_inv_new) (auto simp: stream_ok_def socket_ctor_def SOCK_STREAM_def SOCK_DGRAM_def fd_fresh_def)
next
  case (bind y a s k k' addr b s' n)
  show ?case
    by (rule sock_inv_own [OF bind(5,1) own_bind(2,1) [OF bind(4,2,3) sock_inv_D(1) [OF bind(5,1)]]])
next
  case (connect y a s k addr timeout_ms b s' n)
  show ?case
    by (rule sock_inv_own [OF connect(4,1) own_connect(2,1) [OF connect(3,2) sock_inv_D(1) [OF connect(4,1)]]])
next
  case (reconnect y a s k timeout_ms b s' n)
  note ok = sock_inv_D(1) [OF reconnect(4,1)]
  have "own_step s (open_fds (sock_net y)) s' (open_fds n) \<and> stream_ok s'"
  proof (cases "m_remoteAddress s")
    case None
    with reconnect(3) ok show ?thesis by (auto simp: socket_reconnect_def own_step_def)
  next
    case (Some addr)
    with reconnect(3) have "socket_connect k addr timeout_ms (s\<lparr>m_localAddress := None\<rparr>) (sock_net y) = Inr (b, s', n)"
      by (simp add: socket_reconnect_def)
    from own_connect [OF this reconnect(2)] ok show ?thesis by (auto simp: own_step_def stream_ok_def)
  qed
  then show ?case by (intro sock_inv_own [OF reconnect(4,1)]) auto
next
  case (accept y a s c newsock k r n)
  have minus: "newsock = - 1 \<or> 0 \<le> newsock" using accept(3) by auto
  note eff = accept_return_effect [OF accept(4) minus]
  show ?case
  proof (cases r)
    case None
    with accept(2,5) eff(1) show ?thesis by (auto intro: sock_inv_opened)
  next
    case (Some t)
    with accept(2,3,5) eff(1) eff(2) [of t] show ?thesis
      by (auto simp: stream_ok_def intro!: sock_inv_new)
  qed
next
  case (close y a s k b s' n)
  show ?case by (rule sock_inv_own [OF close(3,1) own_close(2,1) [OF close(2)]])
next
  case (destroy y a s k b s' n)
  show ?case by (rule sock_inv_remove [OF sock_inv_own [OF destroy(3,1) own_close(2,1) [OF destroy(2)]]])
qed

definition no_sockets :: "'c sock_sys \<Rightarrow> bool" where
  "no_sockets y \<longleftrightarrow> socks y = (\<lambda>_. None)"

lemma no_sockets_inv: "no_sockets y \<Longrightarrow> sock_inv y"
  by (simp add: no_sockets_def sock_inv_def)

interpretation sockets: step_invariant no_sockets sock_step sock_inv
  by unfold_locales (rule no_sockets_inv sock_step_inv; assumption)+

section \<open>Facts on the operations\<close>

lemma to_int_small: "- (2 ^ 31) \<le> v \<Longrightarrow> v < 2 ^ 31 \<Longrightarrow> to_int v = v"
  by (simp add: to_int_def sint_sbintrunc' signed_take_bit_int_eq_self)

lemma timeval_exact:
  assumes "- (2 ^ 31) \<le> v sdiv 1000" "v sdiv 1000 < 2 ^ 31"
  shows "timeval_ms (to_int (v sdiv 1000)) (to_int (v smod 1000 * 1000)) = of_int v"
    "sint (of_int v :: u64) = v"
proof -
  have parts: "v sdiv 1000 * 1000 + v smod 1000 = v" by (rule sdiv_mult_smod_eq)
  have small: "- 1000 < v smod 1000" "v smod 1000 < 1000" using smod_int_compares [of v 1000] smod_int_range [of 1000 v] by auto
  then have "to_int (v smod 1000 * 1000) = v smod 1000 * 1000" by (intro to_int_small) auto
  moreover have "(v smod 1000 * 1000) sdiv 1000 = v smod 1000" by (simp add: signed_divide_int_def sgn_mult abs_mult sgn_mult_abs)
  ultimately show "timeval_ms (to_int (v sdiv 1000)) (to_int (v smod 1000 * 1000)) = of_int v"
    using parts assms by (simp add: timeval_ms_def to_int_small)
  show "sint (of_int v :: u64) = v"
    using parts small assms by (simp add: sint_sbintrunc' signed_take_bit_int_eq_self)
qed

lemma set_timeout_lookup:
  assumes inv: "fdm_inv m" and c: "lookup_fd m fd = Some c" and hook: "hook_enable k"
    and v: "- (2 ^ 31) \<le> v sdiv 1000" "v sdiv 1000 < 2 ^ 31"
  shows "lookup_fd (snd (setOption k fd (timeval_of ty v) m)) fd' =
    (if fd' = fd then Some (setTimeout ty (of_int v) c) else lookup_fd m fd')"
proof -
  obtain p where p: "get_read fd False m = Some (Some p)" using c lookup_fd_some by blast
  have rd: "\<not> size_le m fd" "m_datas m ! nat fd = Some p" "0 \<le> fd" "fd_obj m p = c" "nat fd < length (m_datas m)"
    using c p by (auto simp: get_read_def lookup_fd_def size_le_def split: if_splits)
  let ?m = "snd (setOption k fd (timeval_of ty v) m)"
  have m: "?m = m\<lparr>fd_obj := (fd_obj m)(p := setTimeout ty (of_int v) c)\<rparr>"
    using p rd hook timeval_exact(1) [OF v] by (simp add: setOption_def timeval_of_def hook_setsockopt_def)
  have same: "size_le ?m fd' = size_le m fd'" by (simp add: m size_le_def)
  show ?thesis
  proof (cases "fd' = fd")
    case True
    with rd m same show ?thesis by (simp add: lookup_fd_def)
  next
    case False
    have "m_datas m ! nat fd' \<noteq> Some p" if "\<not> size_le m fd'"
    proof
      assume "m_datas m ! nat fd' = Some p"
      moreover have "nat fd' < length (m_datas m)" "0 \<le> fd'" using that by (auto simp: size_le_def)
      ultimately have "m_fd (fd_obj m p) = fd'" using inv by (auto simp: fdm_inv_def)
      moreover have "m_fd (fd_obj m p) = fd" using inv rd by (auto simp: fdm_inv_def)
      ultimately show False using False by simp
    qed
    then show ?thesis using False m same by (auto simp: lookup_fd_def map_option_case split: option.splits)
  qed
qed

lemma ssl_loop_full:
  assumes "\<forall>l \<in> set lens. 0 < l \<and> l < 2 ^ 31" "0 \<le> acc" "acc + int (sum_list lens) < 2 ^ 31"
  shows "ssl_loop (lens @ lens') (map int lens @ ios) acc =
    map_option (\<lambda>r. result_bind r (\<lambda>(t, moved). Inr (t, map int lens @ moved)))
      (ssl_loop lens' ios (acc + int (sum_list lens)))"
  using assms
proof (induction lens arbitrary: acc)
  case Nil
  then show ?case by (simp add: option.map_ident_strong result_bind_def split: sum.splits)
next
  case (Cons l lens)
  have "to_int (int l) = int l" using Cons.prems(1) by (intro to_int_small) auto
  moreover have "acc + int l < 2 ^ 31" using Cons.prems(2,3) by simp
  ultimately have "ssl_loop ((l # lens) @ lens') (map int (l # lens) @ ios) acc =
      map_option (\<lambda>r. result_bind r (\<lambda>(t, moved). Inr (t, int l # moved)))
        (ssl_loop (lens @ lens') (map int lens @ ios) (acc + int l))"
    using Cons.prems(1) by simp
  also have "ssl_loop (lens @ lens') (map int lens @ ios) (acc + int l) =
      map_option (\<lambda>r. result_bind r (\<lambda>(t, moved). Inr (t, map int lens @ moved)))
        (ssl_loop lens' ios (acc + int l + int (sum_list lens)))"
    using Cons.prems by (intro Cons.IH) auto
  finally show ?case
    by (simp add: option.map_comp comp_def add.assoc result_bind_def case_prod_unfold
      split: sum.splits cong: option.map_cong)
      (auto intro!: option.map_cong simp: split: sum.splits)
qed

section \<open>Properties\<close>

text \<open>
  C24. However the sockets of a program are used, when the kernel only gives out descriptors that are not
  open: an object's descriptor is open and is no other object's, so closing one never closes the descriptor of
  another; and a connected stream socket has a descriptor.
\<close>

theorem sockets_own_descriptors:
  assumes "no_sockets y0" "sock_step\<^sup>*\<^sup>* y0 y" "socks y a = Some s" "socks y b = Some t" "a \<noteq> b" "isValid t"
  shows "m_sock t \<in> open_fds (sock_net y) \<and> m_sock s \<noteq> m_sock t \<and>
    (m_type s = SOCK_STREAM \<longrightarrow> m_isConnected s \<longrightarrow> isValid s) \<and>
    (socket_close k s (sock_net y) = Inr (r, s', n') \<longrightarrow>
       m_sock t \<in> open_fds n' \<and> (isValid s \<longrightarrow> m_sock s \<notin> open_fds n') \<and> \<not> isValid s' \<and> \<not> m_isConnected s')"
proof -
  have inv: "sock_inv y" using assms(1,2) by (rule sockets.reachable_inv)
  have t: "m_sock t \<noteq> - 1" using assms(6) by (simp add: isValid_def)
  have ne: "m_sock s \<noteq> m_sock t" using sock_inv_D(4) [OF inv assms(4,3) _ t] assms(5) by metis
  have opened: "m_sock t \<in> open_fds (sock_net y)" using sock_inv_D(3) [OF inv assms(4) t] .
  have "m_sock t \<in> open_fds n' \<and> (isValid s \<longrightarrow> m_sock s \<notin> open_fds n') \<and> \<not> isValid s' \<and> \<not> m_isConnected s'"
    if "socket_close k s (sock_net y) = Inr (r, s', n')"
    using socket_close_effect [OF that] opened ne by (auto simp: isValid_def)
  then show ?thesis
    using ne opened sock_inv_D(1) [OF inv assms(3)] by (auto simp: stream_ok_def isValid_def)
qed

definition demo_kernel :: kernel where
  "demo_kernel = \<lparr>hook_enable = True, has_iom = True, sys_socket = 5, sys_stat = (Some True, 2),
     sys_setsockopt = (\<lambda>_. 0), sys_bind = 0, sys_connect = (0, 0), sys_wait = (0, False), sys_so_error = (0, 0, 0),
     sys_listen = 0, sys_getsockname = None, sys_getpeername = None, sys_epoll = 0\<rparr>"

definition demo_net :: "nat net" where
  "demo_net = \<lparr>net_io = demo_io, net_fds = fd_manager_ctor, open_fds = {0, 1, 2}\<rparr>"

text \<open>A datagram socket on descriptor 5 and a connected stream socket on descriptor 6.\<close>

theorem sockets_own_descriptors_witness:
  "\<exists>y s t. sock_step\<^sup>*\<^sup>* \<lparr>socks = (\<lambda>_. None), sock_net = demo_net\<rparr> y \<and> socks y 1 = Some s \<and> socks y 2 = Some t \<and>
     m_sock s = 5 \<and> m_sock t = 6 \<and> 6 \<in> open_fds (sock_net y)"
proof -
  let ?y0 = "\<lparr>socks = (\<lambda>_. None), sock_net = demo_net\<rparr>"
  let ?k = "demo_kernel\<lparr>hook_enable := False\<rparr>"
  let ?k6 = "?k\<lparr>sys_socket := 6\<rparr>"
  obtain s n where s: "create_connected (uint AF_INET) ?k demo_net = Inr (s, n)" "m_sock s = 5" "open_fds n = {5, 0, 1, 2}"
    by (auto simp: create_connected_def newSock_def hook_socket_def demo_kernel_def demo_net_def Let_def)
  obtain t m where t: "create_connected (uint AF_INET) ?k6 n = Inr (t, m)" "m_sock t = 6"
    using s(3) by (auto simp: create_connected_def newSock_def hook_socket_def demo_kernel_def Let_def)
  let ?y1 = "put_sock 1 (Some s) n ?y0"
  let ?y2 = "put_sock 2 (Some t) m ?y1"
  have "sock_step ?y0 ?y1"
    using s by (intro sock_step.create_connected [of _ _ ?k]) (auto simp: fd_fresh_def demo_kernel_def demo_net_def)
  moreover have "sock_step ?y1 ?y2"
    using s t by (intro sock_step.create_connected [of _ _ ?k6]) (auto simp: fd_fresh_def demo_kernel_def)
  ultimately have run: "sock_step\<^sup>*\<^sup>* ?y0 ?y2" by (meson rtranclp.rtrancl_into_rtrancl r_into_rtranclp)
  have "no_sockets ?y0" by (simp add: no_sockets_def)
  from sockets_own_descriptors [OF this run, of 1 s 2 t] s t have "6 \<in> open_fds (sock_net ?y2)"
    by (simp add: isValid_def)
  with run s t show ?thesis by (intro exI [of _ ?y2] exI [of _ s] exI [of _ t]) simp
qed

text \<open>
  C27. \<^verbatim>\<open>getRecvTimeout\<close> gives back what \<^verbatim>\<open>setRecvTimeout\<close> was given, for every number of milliseconds whose
  seconds fit into an \<^verbatim>\<open>int\<close>, negative ones included, and whatever the kernel answers; the send timeout and all
  other descriptors keep theirs, and the next hooked \<^verbatim>\<open>recv\<close> on the socket waits that long at most.
\<close>

theorem recv_timeout_roundtrip:
  assumes "fdm_reach m" "lookup_fd m (m_sock s) = Some c" "hook_enable k"
    and "- (2 ^ 31) \<le> v sdiv 1000" "v sdiv 1000 < 2 ^ 31"
  shows "getRecvTimeout s (setRecvTimeout k v s m) = v \<and>
    getSendTimeout s (setRecvTimeout k v s m) = getSendTimeout s m \<and>
    (\<forall>fd. fd \<noteq> m_sock s \<longrightarrow> lookup_fd (setRecvTimeout k v s m) fd = lookup_fd m fd) \<and>
    (m_isClosed c \<or> \<not> m_isSocket c \<or> m_userNonblock c \<or>
     do_io_mode True (lookup_fd (setRecvTimeout k v s m) (m_sock s)) SO_RCVTIMEO = Managed (of_int v))"
  using set_timeout_lookup [OF fdm_reach_inv [OF assms(1)] assms(2-5), of SO_RCVTIMEO] assms(2) timeval_exact(2) [OF assms(4,5)]
  by (auto simp: getRecvTimeout_def getSendTimeout_def setRecvTimeout_def setTimeout_def getTimeout_def do_io_mode_def)

theorem recv_timeout_roundtrip_witness:
  "getRecvTimeout (CreateTCPSocket\<lparr>m_sock := 5\<rparr>) (setRecvTimeout demo_kernel 120000 (CreateTCPSocket\<lparr>m_sock := 5\<rparr>) demo_fds) = 120000"
proof -
  have "fd_get 5 True (Some True) 2 fd_manager_ctor = Inr (Some 0, demo_fds)"
    by (simp add: demo_fds_def fd_get_def get_read_def get_create_def Let_def size_le_def fd_manager_ctor_def nth_vec_resize)
  then have "fdm_reach demo_fds" by (rule fdm_reach.get [OF fdm_reach.ctor])
  from recv_timeout_roundtrip [OF this, of "CreateTCPSocket\<lparr>m_sock := 5\<rparr>" _ demo_kernel 120000] demo_fds_lookup show ?thesis
    by (simp add: demo_kernel_def)
qed

text \<open>
  Every outcome of \<^verbatim>\<open>connect\<close>. It is true only with a descriptor (the one the socket had, or a new one), an
  address of the socket's family, and the peer's address noted. It is false without a descriptor; or because of
  the family, and the socket keeps its descriptor; or because of the kernel, and the descriptor is closed. In each
  case the address is noted, for \<^verbatim>\<open>reconnect\<close>.
\<close>

theorem connect_outcomes:
  assumes "socket_connect k addr timeout_ms s n = Inr (r, s', n')"
  shows "m_remoteAddress s' = Some addr \<and> m_family s' = m_family s \<and>
    (let fd = (if isValid s then m_sock s else sys_socket k) in
     if r then fd \<noteq> - 1 \<and> m_sock s' = fd \<and> m_isConnected s' \<and> uint (getFamily addr) = m_family s
     else if fd = - 1 then m_sock s' = - 1 \<and> m_isConnected s' = m_isConnected s
     else if uint (getFamily addr) \<noteq> m_family s then m_sock s' = fd \<and> m_isConnected s' = m_isConnected s
     else m_sock s' = - 1 \<and> \<not> m_isConnected s' \<and> fd \<notin> open_fds n')"
proof (rule socket_connect_cases [OF assms])
  fix s1 n1
  let ?fd = "if isValid s then m_sock s else sys_socket k"
  assume s1: "s1 = s\<lparr>m_sock := ?fd, m_remoteAddress := Some addr\<rparr>"
    and cases: "\<not> isValid s1 \<and> \<not> r \<and> s' = s1 \<and> n' = n1 \<or>
     isValid s1 \<and> uint (getFamily addr) \<noteq> m_family s1 \<and> \<not> r \<and> s' = s1 \<and> n' = n1 \<or>
     isValid s1 \<and> uint (getFamily addr) = m_family s1 \<and> \<not> r \<and> (\<exists>b'. socket_close k s1 n1 = Inr (b', s', n')) \<or>
     isValid s1 \<and> uint (getFamily addr) = m_family s1 \<and> r \<and> n' = n1 \<and>
       s' = snd (getLocalAddress k (s1\<lparr>m_isConnected := True\<rparr>))"
  have sel: "m_sock s1 = ?fd" "m_family s1 = m_family s" "m_isConnected s1 = m_isConnected s"
    "m_remoteAddress s1 = Some addr" "isValid s1 \<longleftrightarrow> ?fd \<noteq> - 1" using s1 by (auto simp: isValid_def)
  have close: "m_remoteAddress s' = m_remoteAddress s1 \<and> m_family s' = m_family s1 \<and> m_sock s' = - 1 \<and>
      \<not> m_isConnected s' \<and> (isValid s1 \<longrightarrow> m_sock s1 \<notin> open_fds n')" if "socket_close k s1 n1 = Inr (b, s', n')" for b
    using socket_close_effect [OF that] by (simp add: isValid_def)
  from cases consider (none) "\<not> isValid s1" "\<not> r" "s' = s1"
    | (family) "isValid s1" "uint (getFamily addr) \<noteq> m_family s1" "\<not> r" "s' = s1"
    | (refused) b where "isValid s1" "uint (getFamily addr) = m_family s1" "\<not> r" "socket_close k s1 n1 = Inr (b, s', n')"
    | (done_) "isValid s1" "uint (getFamily addr) = m_family s1" "r"
        "s' = snd (getLocalAddress k (s1\<lparr>m_isConnected := True\<rparr>))" by blast
  then show ?thesis
  proof cases
    case none
    with sel show ?thesis by (simp add: Let_def)
  next
    case family
    with sel show ?thesis by (simp add: Let_def)
  next
    case refused
    with sel close [OF refused(4)] show ?thesis by (simp add: Let_def)
  next
    case done_
    with sel show ?thesis by (simp add: Let_def)
  qed
qed

text \<open>A connection the peer refuses: the new descriptor is closed again.\<close>

theorem connect_outcomes_witness:
  "\<exists>s' n'. socket_connect (demo_kernel\<lparr>hook_enable := False, sys_connect := (- 1, 111)\<rparr>) (IPv4Address (ipv4_ctor 0 80)) (- 1)
       CreateTCPSocket demo_net = Inr (False, s', n') \<and> m_sock s' = - 1 \<and> 5 \<notin> open_fds n' \<and>
     m_remoteAddress s' = Some (IPv4Address (ipv4_ctor 0 80))"
proof -
  let ?k = "demo_kernel\<lparr>hook_enable := False, sys_connect := (- 1, 111)\<rparr>"
  let ?a = "IPv4Address (ipv4_ctor 0 80)"
  obtain s' n' where run: "socket_connect ?k ?a (- 1) CreateTCPSocket demo_net = Inr (False, s', n')"
    by (simp add: socket_connect_def newSock_def hook_socket_def demo_kernel_def Let_def isValid_def
      CreateTCPSocket_def socket_ctor_def getFamily_def ipv4_ctor_def hook_connect_def connect_with_timeout_def
      socket_close_def hook_close_def)
  from connect_outcomes [OF run] have "m_sock s' = - 1 \<and> 5 \<notin> open_fds n' \<and> m_remoteAddress s' = Some ?a"
    by (simp add: isValid_def CreateTCPSocket_def socket_ctor_def demo_kernel_def Let_def getFamily_def ipv4_ctor_def)
  with run show ?thesis by blast
qed

text \<open>
  What \<^verbatim>\<open>send\<close> of an SSL socket makes of several buffers. While \<^verbatim>\<open>SSL_write\<close> takes whole buffers it goes on,
  a buffer taken in part is the last, and the result is the number of bytes taken. But when a call fails after
  the first, the result is that call's, and the caller cannot know that earlier buffers are on their way.
\<close>

theorem ssl_send_buffers:
  assumes "m_ssl s \<noteq> None" "\<forall>l \<in> set lens. 0 < l" "int (sum_list lens) + tmp < 2 ^ 31" "int (sum_list lens) < 2 ^ 31"
    and "len < 2 ^ 31" "tmp \<noteq> int len"
  shows "ssl_send_iov s lens (map int lens) = Some (Inr (int (sum_list lens), map int lens)) \<and>
    ssl_send_iov s (lens @ len # lens') (map int lens @ tmp # ios) =
      (if tmp \<le> 0 then Some (Inr (tmp, map int lens))
       else Some (Inr (int (sum_list lens) + tmp, map int lens @ [tmp])))"
proof -
  have "l < 2 ^ 31" if "l \<in> set lens" for l
    using member_le_sum_list [OF that] assms(4) by simp
  then have small: "\<forall>l \<in> set lens. 0 < l \<and> l < 2 ^ 31" using assms(2) by blast
  have "to_int (int len) = int len" using assms(5) by (intro to_int_small) auto
  then show ?thesis
    using ssl_loop_full [OF small, of 0 "[]" "[]"] ssl_loop_full [OF small, of 0 "len # lens'" "tmp # ios"] assms
    by (auto simp: ssl_send_iov_def)
qed

theorem ssl_send_buffers_witness:
  "ssl_send_iov (ssl_CreateTCPSocket\<lparr>m_ssl := Some 5\<rparr>) [100, 200] [100, - 1] = Some (Inr (- 1, [100]))"
  using ssl_send_buffers [of "ssl_CreateTCPSocket\<lparr>m_ssl := Some 5\<rparr>" "[100]" "- 1" 200 "[]" "[]"] by simp

end
