(* ===== verification/Tcp_Server.thy ===== *)
theory Tcp_Server
  imports Socket
begin

text \<open>
  \<^verbatim>\<open>src/server/tcp_server.h\<close> and \<^verbatim>\<open>tcp_server.cc\<close>: the listening sockets, the loop that accepts clients, and
  starting and stopping. Sockets are objects behind shared pointers; what the server asks of a worker is a
  callback in the queue of that scheduler.
\<close>

section \<open>State\<close>

text \<open>
  The callbacks: \<^verbatim>\<open>startAccept\<close> and \<^verbatim>\<open>handleClient\<close> bound to a socket, the one of \<^verbatim>\<open>stop\<close>, and the one
  \<^verbatim>\<open>main\<close> begins with.
\<close>

datatype server_task = Start_Accept nat | Handle_Client nat | Close_Socks | Run_Server

datatype sock_obj = Plain socket | Ssl ssl_socket

record srv_world =
  objs :: "nat \<Rightarrow> sock_obj option"
  next_sock :: nat
  srv_net :: "server_task net"

record tcp_server =
  m_socks :: "nat list"
  m_worker :: "nat option"
  m_ioWorker :: "nat option"
  m_acceptWorker :: "nat option"
  srv_recvTimeout :: u64
  m_name :: string
  m_isStop :: bool
  srv_ssl :: bool
  srv_type :: string

definition g_tcp_server_read_timeout :: u64 where "g_tcp_server_read_timeout = 60 * 1000 * 2"

definition tcp_server_ctor :: "nat option \<Rightarrow> nat option \<Rightarrow> nat option \<Rightarrow> tcp_server" where
  "tcp_server_ctor work io_worker accept_worker = \<lparr>m_socks = [], m_worker = work, m_ioWorker = io_worker,
     m_acceptWorker = accept_worker, srv_recvTimeout = g_tcp_server_read_timeout, m_name = ''sylar/1.0.0'',
     m_isStop = True, srv_ssl = False, srv_type = ''tcp''\<rparr>"

definition srv_setRecvTimeout :: "u64 \<Rightarrow> tcp_server \<Rightarrow> tcp_server" where
  "srv_setRecvTimeout v s = s\<lparr>srv_recvTimeout := v\<rparr>"

definition srv_setName :: "string \<Rightarrow> tcp_server \<Rightarrow> tcp_server" where
  "srv_setName v s = s\<lparr>m_name := v\<rparr>"

section \<open>The virtual functions of a socket\<close>

definition obj_sock :: "sock_obj \<Rightarrow> int" where
  "obj_sock ob = (case ob of Plain s \<Rightarrow> m_sock s | Ssl s \<Rightarrow> m_sock s)"

definition obj_CreateTCP :: "bool \<Rightarrow> address \<Rightarrow> sock_obj" where
  "obj_CreateTCP ssl addr = (if ssl then Ssl (ssl_CreateTCP addr) else Plain (CreateTCP addr))"

definition obj_bind :: "kernel \<Rightarrow> kernel \<Rightarrow> address \<Rightarrow> sock_obj \<Rightarrow> 'c net \<Rightarrow> (bool \<times> sock_obj \<times> 'c net) result" where
  "obj_bind k k' addr ob n =
     (case ob of
        Plain s \<Rightarrow> result_bind (socket_bind k k' addr s n) (\<lambda>(b, s', n'). Inr (b, Plain s', n'))
      | Ssl s \<Rightarrow> result_bind (socket_bind k k' addr s n) (\<lambda>(b, s', n'). Inr (b, Ssl s', n')))"

definition obj_listen :: "kernel \<Rightarrow> sock_obj \<Rightarrow> bool" where
  "obj_listen k ob = (case ob of Plain s \<Rightarrow> socket_listen k s | Ssl s \<Rightarrow> socket_listen k s)"

definition obj_close :: "kernel \<Rightarrow> sock_obj \<Rightarrow> 'c net \<Rightarrow> (sock_obj \<times> 'c net) result" where
  "obj_close k ob n =
     (case ob of
        Plain s \<Rightarrow> result_bind (socket_close k s n) (\<lambda>(_, s', n'). Inr (Plain s', n'))
      | Ssl s \<Rightarrow> result_bind (socket_close k s n) (\<lambda>(_, s', n'). Inr (Ssl s', n')))"

definition obj_cancelAll :: "kernel \<Rightarrow> sock_obj \<Rightarrow> 'c net \<Rightarrow> (bool \<times> 'c net) result" where
  "obj_cancelAll k ob n = (case ob of Plain s \<Rightarrow> socket_cancelAll k s n | Ssl s \<Rightarrow> socket_cancelAll k s n)"

definition obj_accept :: "kernel \<Rightarrow> ssl_lib \<Rightarrow> int \<Rightarrow> sock_obj \<Rightarrow> 'c net \<Rightarrow> (sock_obj option \<times> 'c net) result" where
  "obj_accept k l newsock ob n =
     (case ob of
        Plain s \<Rightarrow> result_bind (accept_return k newsock s n) (\<lambda>(c, n'). Inr (map_option Plain c, n'))
      | Ssl s \<Rightarrow> result_bind (ssl_accept_return k l newsock s n) (\<lambda>(c, n'). Inr (map_option Ssl c, n')))"

definition obj_setRecvTimeout :: "kernel \<Rightarrow> int \<Rightarrow> sock_obj \<Rightarrow> 'c net \<Rightarrow> 'c net" where
  "obj_setRecvTimeout k v ob n =
     n\<lparr>net_fds := (case ob of Plain s \<Rightarrow> setRecvTimeout k v s (net_fds n) | Ssl s \<Rightarrow> setRecvTimeout k v s (net_fds n))\<rparr>"

section \<open>Binding\<close>

text \<open>
  The body of the loop of \<^verbatim>\<open>bind\<close>: the socket is local to it, so it is destroyed when it is not pushed.
  \<open>k\<close> and \<open>k'\<close> are what the kernel answers for this address.
\<close>

definition bind_one :: "bool \<Rightarrow> address \<times> kernel \<times> kernel \<Rightarrow> nat list \<times> address list \<times> srv_world \<Rightarrow>
    (nat list \<times> address list \<times> srv_world) result" where
  "bind_one ssl x st =
     (case x of (addr, k, k') \<Rightarrow> case st of (ids, fails, w) \<Rightarrow>
        result_bind (obj_bind k k' addr (obj_CreateTCP ssl addr) (srv_net w)) (\<lambda>(ok, sock, n).
          if \<not> ok \<or> \<not> obj_listen k sock
          then result_bind (obj_close k sock n) (\<lambda>(_, n'). Inr (ids, fails @ [addr], w\<lparr>srv_net := n'\<rparr>))
          else Inr (ids @ [next_sock w], fails,
            w\<lparr>objs := (objs w)(next_sock w \<mapsto> sock), next_sock := Suc (next_sock w), srv_net := n\<rparr>)))"

fun bind_loop :: "bool \<Rightarrow> (address \<times> kernel \<times> kernel) list \<Rightarrow> nat list \<times> address list \<times> srv_world \<Rightarrow>
    (nat list \<times> address list \<times> srv_world) result" where
  "bind_loop ssl [] st = Inr st"
| "bind_loop ssl (x # xs) st = result_bind (bind_one ssl x st) (bind_loop ssl xs)"

text \<open>
  Sockets whose pointers the server drops: one that nobody else points to (\<open>held\<close>) is destroyed, which
  closes it.
\<close>

fun drop_socks :: "kernel \<Rightarrow> (nat \<Rightarrow> bool) \<Rightarrow> nat list \<Rightarrow> srv_world \<Rightarrow> srv_world result" where
  "drop_socks k held [] w = Inr w"
| "drop_socks k held (a # as) w =
     (case objs w a of
        None \<Rightarrow> Inl Null_Deref
      | Some ob \<Rightarrow>
          if held a then drop_socks k held as w
          else result_bind (obj_close k ob (srv_net w)) (\<lambda>(_, n).
            drop_socks k held as (w\<lparr>objs := (objs w)(a := None), srv_net := n\<rparr>)))"

definition bind_addrs :: "kernel \<Rightarrow> (nat \<Rightarrow> bool) \<Rightarrow> (address \<times> kernel \<times> kernel) list \<Rightarrow> address list \<Rightarrow> bool \<Rightarrow>
    tcp_server \<Rightarrow> srv_world \<Rightarrow> (bool \<times> address list \<times> tcp_server \<times> srv_world) result" where
  "bind_addrs k held xs fails ssl s w =
     result_bind (bind_loop ssl xs (m_socks s, fails, w)) (\<lambda>(ids, fails1, w1).
       let s1 = s\<lparr>srv_ssl := ssl, m_socks := ids\<rparr> in
       if fails1 \<noteq> [] then
         result_bind (drop_socks k held ids w1) (\<lambda>w2. Inr (False, fails1, s1\<lparr>m_socks := []\<rparr>, w2))
       else Inr (True, fails1, s1, w1))"

definition bind_addr :: "kernel \<Rightarrow> (nat \<Rightarrow> bool) \<Rightarrow> address \<times> kernel \<times> kernel \<Rightarrow> bool \<Rightarrow> tcp_server \<Rightarrow> srv_world \<Rightarrow>
    (bool \<times> tcp_server \<times> srv_world) result" where
  "bind_addr k held x ssl s w = result_bind (bind_addrs k held [x] [] ssl s w) (\<lambda>(b, _, s', w'). Inr (b, s', w'))"

section \<open>Accepting\<close>

definition schedule_on :: "nat option \<Rightarrow> server_task \<Rightarrow> srv_world \<Rightarrow> srv_world result" where
  "schedule_on worker_id task w =
     (case worker_id of
        None \<Rightarrow> Inl Null_Deref
      | Some i \<Rightarrow>
          let n = srv_net w; io = net_io n;
              t = \<lparr>tk_fiber = None, tk_cb = Some (Call task), tk_thread = - 1\<rparr>
          in Inr (w\<lparr>srv_net := n\<lparr>net_io := io\<lparr>schedulers := (schedulers io)(i := scheduleLock t (schedulers io i))\<rparr>\<rparr>\<rparr>))"

text \<open>
  One round of \<^verbatim>\<open>startAccept\<close> on socket \<open>a\<close>, from the return of the hooked \<^verbatim>\<open>accept\<close> on; the loop reads
  \<^verbatim>\<open>m_isStop\<close> before each round (the first component), and is \<open>None\<close> when the list of rounds is too short.
\<close>

definition accept_round :: "kernel \<Rightarrow> ssl_lib \<Rightarrow> int \<Rightarrow> nat \<Rightarrow> tcp_server \<Rightarrow> srv_world \<Rightarrow> srv_world result" where
  "accept_round k l newsock a s w =
     (case objs w a of
        None \<Rightarrow> Inl Null_Deref
      | Some ob \<Rightarrow>
          result_bind (obj_accept k l newsock ob (srv_net w)) (\<lambda>(client, n).
            case client of
              None \<Rightarrow> Inr (w\<lparr>srv_net := n\<rparr>)
            | Some c \<Rightarrow>
                let i = next_sock w;
                    n1 = obj_setRecvTimeout k (sint (srv_recvTimeout s)) c n
                in schedule_on (m_ioWorker s) (Handle_Client i)
                     (w\<lparr>objs := (objs w)(i \<mapsto> c), next_sock := Suc i, srv_net := n1\<rparr>)))"

fun startAccept :: "(bool \<times> kernel \<times> ssl_lib \<times> int) list \<Rightarrow> nat \<Rightarrow> tcp_server \<Rightarrow> srv_world \<Rightarrow> srv_world result option" where
  "startAccept [] a s w = None"
| "startAccept ((stopped, k, l, newsock) # rounds) a s w =
     (if stopped then Some (Inr w)
      else case accept_round k l newsock a s w of
        Inl e \<Rightarrow> Some (Inl e)
      | Inr w1 \<Rightarrow> startAccept rounds a s w1)"

section \<open>Starting and stopping\<close>

fun schedule_accepts :: "nat option \<Rightarrow> nat list \<Rightarrow> srv_world \<Rightarrow> srv_world result" where
  "schedule_accepts i [] w = Inr w"
| "schedule_accepts i (a # as) w = result_bind (schedule_on i (Start_Accept a) w) (schedule_accepts i as)"

definition server_start :: "tcp_server \<Rightarrow> srv_world \<Rightarrow> (bool \<times> tcp_server \<times> srv_world) result" where
  "server_start s w =
     (if \<not> m_isStop s then Inr (True, s, w)
      else
        let s1 = s\<lparr>m_isStop := False\<rparr> in
        result_bind (schedule_accepts (m_acceptWorker s1) (m_socks s1) w) (\<lambda>w1. Inr (True, s1, w1)))"

definition server_stop :: "tcp_server \<Rightarrow> srv_world \<Rightarrow> (tcp_server \<times> srv_world) result" where
  "server_stop s w =
     (let s1 = s\<lparr>m_isStop := True\<rparr> in
      result_bind (schedule_on (m_acceptWorker s1) Close_Socks w) (\<lambda>w1. Inr (s1, w1)))"

text \<open>The callback of \<^verbatim>\<open>stop\<close>: each socket is cancelled and closed, then the pointers are dropped.\<close>

fun close_socks_loop :: "kernel \<Rightarrow> nat list \<Rightarrow> srv_world \<Rightarrow> srv_world result" where
  "close_socks_loop k [] w = Inr w"
| "close_socks_loop k (a # as) w =
     (case objs w a of
        None \<Rightarrow> Inl Null_Deref
      | Some ob \<Rightarrow>
          result_bind (obj_cancelAll k ob (srv_net w)) (\<lambda>(_, n).
          result_bind (obj_close k ob n) (\<lambda>(ob', n').
            close_socks_loop k as (w\<lparr>objs := (objs w)(a \<mapsto> ob'), srv_net := n'\<rparr>))))"

definition close_socks :: "kernel \<Rightarrow> (nat \<Rightarrow> bool) \<Rightarrow> tcp_server \<Rightarrow> srv_world \<Rightarrow> (tcp_server \<times> srv_world) result" where
  "close_socks k held s w =
     result_bind (close_socks_loop k (m_socks s) w) (\<lambda>w1.
     result_bind (drop_socks k held (m_socks s) w1) (\<lambda>w2. Inr (s\<lparr>m_socks := []\<rparr>, w2)))"

fun close_all :: "kernel \<Rightarrow> nat list \<Rightarrow> srv_world \<Rightarrow> srv_world result" where
  "close_all k [] w = Inr w"
| "close_all k (a # as) w =
     (case objs w a of
        None \<Rightarrow> Inl Null_Deref
      | Some ob \<Rightarrow> result_bind (obj_close k ob (srv_net w)) (\<lambda>(ob', n).
          close_all k as (w\<lparr>objs := (objs w)(a \<mapsto> ob'), srv_net := n\<rparr>)))"

definition tcp_server_dtor :: "kernel \<Rightarrow> (nat \<Rightarrow> bool) \<Rightarrow> tcp_server \<Rightarrow> srv_world \<Rightarrow> (tcp_server \<times> srv_world) result" where
  "tcp_server_dtor k held s w =
     result_bind (close_all k (m_socks s) w) (\<lambda>w1.
     result_bind (drop_socks k held (m_socks s) w1) (\<lambda>w2. Inr (s\<lparr>m_socks := []\<rparr>, w2)))"

text \<open>\<^verbatim>\<open>loadCertificates\<close>: \<open>l a\<close> is what the library answers for socket \<open>a\<close>.\<close>

fun load_loop :: "(nat \<Rightarrow> ssl_lib) \<Rightarrow> nat list \<Rightarrow> srv_world \<Rightarrow> bool \<times> srv_world" where
  "load_loop l [] w = (True, w)"
| "load_loop l (a # as) w =
     (case objs w a of
        Some (Ssl s) \<Rightarrow>
          (case ssl_loadCertificates (l a) s of (ok, s') \<Rightarrow>
             let w1 = w\<lparr>objs := (objs w)(a \<mapsto> Ssl s')\<rparr> in
             if \<not> ok then (False, w1) else load_loop l as w1)
      | _ \<Rightarrow> load_loop l as w)"

definition loadCertificates :: "(nat \<Rightarrow> ssl_lib) \<Rightarrow> tcp_server \<Rightarrow> srv_world \<Rightarrow> bool \<times> srv_world" where
  "loadCertificates l s w = load_loop l (m_socks s) w"

text \<open>\<^verbatim>\<open>toString\<close>; \<open>names\<close> gives the names of the schedulers.\<close>

definition obj_dump :: "sock_obj \<Rightarrow> string result" where
  "obj_dump ob = (case ob of Plain s \<Rightarrow> socket_dump s | Ssl s \<Rightarrow> dump_as ''SSLSocket'' s)"

fun dump_socks :: "string \<Rightarrow> nat list \<Rightarrow> srv_world \<Rightarrow> string result" where
  "dump_socks pfx [] w = Inr []"
| "dump_socks pfx (a # as) w =
     (case objs w a of
        None \<Rightarrow> Inl Null_Deref
      | Some ob \<Rightarrow> result_bind (obj_dump ob) (\<lambda>t. result_bind (dump_socks pfx as w) (\<lambda>rest.
          Inr (pfx @ pfx @ t @ [CHR 0x0A] @ rest))))"

definition srv_toString :: "(nat \<Rightarrow> string) \<Rightarrow> string \<Rightarrow> tcp_server \<Rightarrow> srv_world \<Rightarrow> string result" where
  "srv_toString names prefx s w =
     (let name_of = (\<lambda>i. case i of None \<Rightarrow> [] | Some i \<Rightarrow> names i) in
      result_bind (dump_socks (if prefx = [] then ''    '' else prefx) (m_socks s) w) (\<lambda>socks.
        Inr (prefx @ ''[type='' @ srv_type s @ '' name='' @ m_name s @ '' ssl='' @ (if srv_ssl s then ''1'' else ''0'') @
          '' worker='' @ name_of (m_worker s) @ '' accept='' @ name_of (m_acceptWorker s) @
          '' recv_timeout='' @ dec_nat (unat (srv_recvTimeout s)) @ '']'' @ [CHR 0x0A] @ socks)))"

section \<open>Facts on binding\<close>

text \<open>The kernel gives out descriptors that are not open at that moment.\<close>

fun binds_fresh :: "bool \<Rightarrow> (address \<times> kernel \<times> kernel) list \<Rightarrow> nat list \<times> address list \<times> srv_world \<Rightarrow> bool" where
  "binds_fresh ssl [] st = True"
| "binds_fresh ssl (x # xs) st =
     (fd_fresh (fst (snd x)) (open_fds (srv_net (snd (snd st)))) \<and>
      (case bind_one ssl x st of Inl _ \<Rightarrow> True | Inr st' \<Rightarrow> binds_fresh ssl xs st'))"

text \<open>Whether the kernel lets a server listen on an address.\<close>

definition can_listen :: "address \<times> kernel \<times> kernel \<Rightarrow> bool" where
  "can_listen x = (case x of (_, k, _) \<Rightarrow> sys_socket k \<noteq> - 1 \<and> sys_bind k = 0 \<and> sys_listen k = 0)"

definition sock_of :: "srv_world \<Rightarrow> nat \<Rightarrow> int" where
  "sock_of w i = obj_sock (the (objs w i))"

lemma socket_bind_ip:
  assumes "socket_bind k k' addr s n = Inr (b, s', n')" "is_ip addr" "\<not> isValid s" "uint (getFamily addr) = m_family s"
  shows "b \<longleftrightarrow> sys_bind k = 0" "m_sock s' = sys_socket k"
    "open_fds n' = (if sys_socket k = - 1 then open_fds n else insert (sys_socket k) (open_fds n))"
proof -
  obtain s1 n1 where new: "newSock k s n = Inr (s1, n1)" using assms(1,3) by (auto simp: socket_bind_def result_bind_Inr_iff)
  have "unix_taken k' addr n1 = Inr (False, n1)" using assms(2) by (cases addr) (auto simp: unix_taken_def is_ip_def)
  moreover note eff = newSock_effect [OF new]
  ultimately have "b = (sys_bind k = 0) \<and> m_sock s' = m_sock s1 \<and> n' = n1"
    using assms new by (auto simp: socket_bind_def split: if_splits)
  then show "b \<longleftrightarrow> sys_bind k = 0" "m_sock s' = sys_socket k"
    "open_fds n' = (if sys_socket k = - 1 then open_fds n else insert (sys_socket k) (open_fds n))"
    using eff by auto
qed

lemma obj_bind_ip:
  assumes "obj_bind k k' addr (obj_CreateTCP ssl addr) n = Inr (b, sock, n')" "is_ip addr"
  shows "b \<longleftrightarrow> sys_bind k = 0" "obj_sock sock = sys_socket k"
    "open_fds n' = (if sys_socket k = - 1 then open_fds n else insert (sys_socket k) (open_fds n))"
    "obj_listen k sock \<longleftrightarrow> sys_socket k \<noteq> - 1 \<and> sys_listen k = 0"
proof -
  have plain: "\<not> isValid (CreateTCP addr)" "m_family (CreateTCP addr) = uint (getFamily addr)"
    "\<not> isValid (ssl_CreateTCP addr)" "m_family (ssl_CreateTCP addr) = uint (getFamily addr)"
    by (simp_all add: isValid_def CreateTCP_def ssl_CreateTCP_def ssl_ctor_def socket_ctor_def socket.defs)
  have "(b \<longleftrightarrow> sys_bind k = 0) \<and> obj_sock sock = sys_socket k \<and>
    open_fds n' = (if sys_socket k = - 1 then open_fds n else insert (sys_socket k) (open_fds n)) \<and>
    (obj_listen k sock \<longleftrightarrow> sys_socket k \<noteq> - 1 \<and> sys_listen k = 0)"
  proof (cases ssl)
    case True
    then obtain s' where "socket_bind k k' addr (ssl_CreateTCP addr) n = Inr (b, s', n')" and sock: "sock = Ssl s'"
      using assms(1) by (auto simp: obj_bind_def obj_CreateTCP_def result_bind_Inr_iff)
    from socket_bind_ip [OF this(1) assms(2) plain(3) plain(4) [symmetric]] sock show ?thesis
      by (simp add: obj_sock_def obj_listen_def socket_listen_def isValid_def)
  next
    case False
    then obtain s' where "socket_bind k k' addr (CreateTCP addr) n = Inr (b, s', n')" and sock: "sock = Plain s'"
      using assms(1) by (auto simp: obj_bind_def obj_CreateTCP_def result_bind_Inr_iff)
    from socket_bind_ip [OF this(1) assms(2) plain(1) plain(2) [symmetric]] sock show ?thesis
      by (simp add: obj_sock_def obj_listen_def socket_listen_def isValid_def)
  qed
  then show "b \<longleftrightarrow> sys_bind k = 0" "obj_sock sock = sys_socket k"
    "open_fds n' = (if sys_socket k = - 1 then open_fds n else insert (sys_socket k) (open_fds n))"
    "obj_listen k sock \<longleftrightarrow> sys_socket k \<noteq> - 1 \<and> sys_listen k = 0"
    by blast+
qed

lemma obj_close_effect:
  assumes "obj_close k ob n = Inr (ob', n')"
  shows "obj_sock ob' = - 1" "open_fds n' = (if obj_sock ob = - 1 then open_fds n else open_fds n - {obj_sock ob})"
  using assms socket_close_effect [of k "_ :: socket" n] socket_close_effect [of k "_ :: ssl_socket" n]
  by (auto simp: obj_close_def result_bind_Inr_iff obj_sock_def split: sock_obj.splits)

lemma bind_one_effect:
  assumes run: "bind_one ssl (addr, k, k') (ids, fails, w) = Inr (ids', fails', w')" and ip: "is_ip addr"
    and fd_fresh: "fd_fresh k (open_fds (srv_net w))"
  shows "if can_listen (addr, k, k')
    then ids' = ids @ [next_sock w] \<and> fails' = fails \<and> next_sock w' = Suc (next_sock w) \<and>
      (\<exists>ob. objs w' = (objs w)(next_sock w \<mapsto> ob) \<and> obj_sock ob = sys_socket k) \<and>
      0 \<le> sys_socket k \<and> sys_socket k \<notin> open_fds (srv_net w) \<and>
      open_fds (srv_net w') = insert (sys_socket k) (open_fds (srv_net w))
    else ids' = ids \<and> fails' = fails @ [addr] \<and> next_sock w' = next_sock w \<and> objs w' = objs w \<and>
      open_fds (srv_net w') = open_fds (srv_net w)"
proof -
  obtain ok sock n where bind: "obj_bind k k' addr (obj_CreateTCP ssl addr) (srv_net w) = Inr (ok, sock, n)"
    using run by (auto simp: bind_one_def result_bind_Inr_iff)
  note b = obj_bind_ip [OF bind ip]
  have "open_fds n' = open_fds (srv_net w)" if "obj_close k sock n = Inr (ob', n')" for ob' n'
    using obj_close_effect(2) [OF that] b(2,3) fd_fresh by (auto simp: fd_fresh_def)
  then show ?thesis
    using run bind b fd_fresh by (auto simp: bind_one_def result_bind_Inr_iff can_listen_def fd_fresh_def split: if_splits)
qed

text \<open>
  What \<^verbatim>\<open>bind\<close> has built so far, from the world \<open>w0\<close>: the new sockets are the objects from \<open>next_sock w0\<close> on, each
  with an open descriptor of its own, and nothing else is open that was not.
\<close>

definition bound :: "srv_world \<Rightarrow> srv_world \<Rightarrow> bool" where
  "bound w0 w \<longleftrightarrow> next_sock w0 \<le> next_sock w \<and>
     (\<forall>i. i \<notin> {next_sock w0 ..< next_sock w} \<longrightarrow> objs w i = objs w0 i) \<and>
     (\<forall>i \<in> {next_sock w0 ..< next_sock w}. objs w i \<noteq> None \<and> 0 \<le> sock_of w i) \<and>
     inj_on (sock_of w) {next_sock w0 ..< next_sock w} \<and>
     sock_of w ` {next_sock w0 ..< next_sock w} \<inter> open_fds (srv_net w0) = {} \<and>
     open_fds (srv_net w) = open_fds (srv_net w0) \<union> sock_of w ` {next_sock w0 ..< next_sock w}"

lemma bound_D:
  assumes "bound w0 w"
  shows "next_sock w0 \<le> next_sock w" "i \<notin> {next_sock w0 ..< next_sock w} \<Longrightarrow> objs w i = objs w0 i"
    "i \<in> {next_sock w0 ..< next_sock w} \<Longrightarrow> objs w i \<noteq> None \<and> 0 \<le> sock_of w i"
    "inj_on (sock_of w) {next_sock w0 ..< next_sock w}"
    "sock_of w ` {next_sock w0 ..< next_sock w} \<inter> open_fds (srv_net w0) = {}"
    "open_fds (srv_net w) = open_fds (srv_net w0) \<union> sock_of w ` {next_sock w0 ..< next_sock w}"
  using assms unfolding bound_def by blast+

lemma bound_same:
  assumes "bound w0 w" "next_sock w' = next_sock w" "objs w' = objs w" "open_fds (srv_net w') = open_fds (srv_net w)"
  shows "bound w0 w'"
proof -
  have "sock_of w' = sock_of w" using assms(3) by (simp add: sock_of_def fun_eq_iff)
  then show ?thesis using assms by (simp add: bound_def)
qed

lemma bound_push:
  assumes b: "bound w0 w" and next_w: "next_sock w' = Suc (next_sock w)"
    and obj: "objs w' = (objs w)(next_sock w \<mapsto> ob)" "0 \<le> obj_sock ob" "obj_sock ob \<notin> open_fds (srv_net w)"
    and opened: "open_fds (srv_net w') = insert (obj_sock ob) (open_fds (srv_net w))"
  shows "bound w0 w'"
proof -
  let ?I = "{next_sock w0 ..< next_sock w}"
  have I: "{next_sock w0 ..< next_sock w'} = insert (next_sock w) ?I" using bound_D(1) [OF b] next_w by auto
  have same: "sock_of w' i = sock_of w i" if "i \<in> ?I" for i using that obj(1) by (simp add: sock_of_def)
  have new: "sock_of w' (next_sock w) = obj_sock ob" using obj(1) by (simp add: sock_of_def)
  have img: "sock_of w' ` ?I = sock_of w ` ?I" using same by (rule image_cong [OF refl])
  have "inj_on (sock_of w') ?I" using bound_D(4) [OF b] same by (simp add: inj_on_def)
  moreover have "obj_sock ob \<notin> sock_of w ` ?I" "obj_sock ob \<notin> open_fds (srv_net w0)"
    using obj(3) bound_D(6) [OF b] by blast+
  ultimately show ?thesis
    unfolding bound_def I
    using bound_D(1,2,3,5,6) [OF b] obj opened next_w same new img by auto
qed

lemma bind_loop_effect:
  assumes "bind_loop ssl xs (ids, fails, w) = Inr (ids', fails', w')" "binds_fresh ssl xs (ids, fails, w)"
    and "\<forall>x \<in> set xs. is_ip (fst x)" "bound w0 w"
  shows "bound w0 w' \<and> fails' = fails @ map fst (filter (\<lambda>x. \<not> can_listen x) xs) \<and>
    next_sock w' = next_sock w + length (filter can_listen xs) \<and> ids' = ids @ [next_sock w ..< next_sock w'] \<and>
    (\<forall>i < next_sock w. objs w' i = objs w i) \<and>
    map (sock_of w') [next_sock w ..< next_sock w'] = map (\<lambda>(_, k, _). sys_socket k) (filter can_listen xs)"
  using assms
proof (induction xs arbitrary: ids fails w)
  case Nil
  then show ?case by simp
next
  case (Cons x xs)
  obtain addr k k' where x: "x = (addr, k, k')" by (cases x)
  obtain ids1 fails1 w1 where one: "bind_one ssl (addr, k, k') (ids, fails, w) = Inr (ids1, fails1, w1)"
    and rest: "bind_loop ssl xs (ids1, fails1, w1) = Inr (ids', fails', w')"
    using Cons.prems(1) x by (auto simp: result_bind_Inr_iff)
  have ip: "is_ip addr" and fr: "fd_fresh k (open_fds (srv_net w))" "binds_fresh ssl xs (ids1, fails1, w1)"
    using Cons.prems(2,3) one x by auto
  note eff = bind_one_effect [OF one ip fr(1)]
  show ?case
  proof (cases "can_listen (addr, k, k')")
    case False
    with eff have "bound w0 w1" by (intro bound_same [OF Cons.prems(4)]) auto
    from Cons.IH [OF rest fr(2) _ this] Cons.prems(3) False eff x show ?thesis by auto
  next
    case True
    with eff obtain ob where ob: "objs w1 = (objs w)(next_sock w \<mapsto> ob)" "obj_sock ob = sys_socket k" by auto
    from True eff ob have b: "bound w0 w1" by (intro bound_push [OF Cons.prems(4)]) auto
    note IH = Cons.IH [OF rest fr(2) _ b]
    have w1: "next_sock w1 = Suc (next_sock w)" "ids1 = ids @ [next_sock w]" "fails1 = fails" using True eff by auto
    have ih: "bound w0 w'" "fails' = fails @ map fst (filter (\<lambda>x. \<not> can_listen x) xs)"
      "next_sock w' = Suc (next_sock w) + length (filter can_listen xs)" "ids' = (ids @ [next_sock w]) @ [Suc (next_sock w) ..< next_sock w']"
      "\<forall>i < Suc (next_sock w). objs w' i = objs w1 i"
      "map (sock_of w') [Suc (next_sock w) ..< next_sock w'] = map (\<lambda>(_, k, _). sys_socket k) (filter can_listen xs)"
      using IH Cons.prems(3) w1 by auto
    have up: "[next_sock w ..< next_sock w'] = next_sock w # [Suc (next_sock w) ..< next_sock w']"
      using ih(3) by (intro upt_conv_Cons) simp
    have "sock_of w' (next_sock w) = sys_socket k" using ih(5) ob by (simp add: sock_of_def)
    with ih up True x ob(1) show ?thesis by simp
  qed
qed

text \<open>Dropping sockets nobody else points to closes their descriptors and nothing else.\<close>

lemma drop_socks_effect:
  assumes "drop_socks k (\<lambda>_. False) as w = Inr w'" "distinct as" "inj_on (sock_of w) (set as)"
    "\<forall>a \<in> set as. 0 \<le> sock_of w a" "open_fds (srv_net w) = fds \<union> sock_of w ` set as" "fds \<inter> sock_of w ` set as = {}"
  shows "open_fds (srv_net w') = fds \<and> objs w' = (\<lambda>i. if i \<in> set as then None else objs w i)"
  using assms
proof (induction as arbitrary: w)
  case Nil
  then show ?case by simp
next
  case (Cons a as)
  obtain ob ob' n where ob: "objs w a = Some ob" and cl: "obj_close k ob (srv_net w) = Inr (ob', n)"
    and rest: "drop_socks k (\<lambda>_. False) as (w\<lparr>objs := (objs w)(a := None), srv_net := n\<rparr>) = Inr w'"
    using Cons.prems(1) by (auto simp: result_bind_Inr_iff split: option.splits)
  let ?w = "w\<lparr>objs := (objs w)(a := None), srv_net := n\<rparr>"
  have fd: "obj_sock ob = sock_of w a" using ob by (simp add: sock_of_def)
  have same: "sock_of ?w i = sock_of w i" if "i \<in> set as" for i
    using that Cons.prems(2) by (auto simp: sock_of_def)
  have img: "sock_of ?w ` set as = sock_of w ` set as" using same by (rule image_cong [OF refl])
  have notin: "sock_of w a \<notin> sock_of w ` set as" using Cons.prems(2,3) by (auto simp: inj_on_def)
  have "open_fds n = fds \<union> sock_of w ` set as"
    using obj_close_effect(2) [OF cl] fd Cons.prems(4,5,6) notin by auto
  then have "open_fds (srv_net w') = fds \<and> objs w' = (\<lambda>i. if i \<in> set as then None else objs ?w i)"
    using Cons.prems(2,3,4,6) img same by (intro Cons.IH [OF rest]) (auto simp: inj_on_def)
  then show ?case by (auto simp: fun_eq_iff)
qed

section \<open>Facts on scheduling\<close>

definition server_callback :: "server_task \<Rightarrow> server_task callback sched_task" where
  "server_callback t = \<lparr>tk_fiber = None, tk_cb = Some (Call t), tk_thread = - 1\<rparr>"

definition queue_of :: "nat \<Rightarrow> srv_world \<Rightarrow> server_task callback sched_task list" where
  "queue_of i w = m_tasks (schedulers (net_io (srv_net w)) i)"

lemma schedule_on_effect:
  "\<exists>w'. schedule_on (Some i) t w = Inr w' \<and> objs w' = objs w \<and> next_sock w' = next_sock w \<and>
     open_fds (srv_net w') = open_fds (srv_net w) \<and> net_fds (srv_net w') = net_fds (srv_net w) \<and>
     queue_of i w' = queue_of i w @ [server_callback t] \<and> (\<forall>j. j \<noteq> i \<longrightarrow> queue_of j w' = queue_of j w)"
  by (simp add: schedule_on_def Let_def queue_of_def scheduleLock_def server_callback_def tickle_def)

lemma schedule_accepts_effect:
  "\<exists>w'. schedule_accepts (Some i) as w = Inr w' \<and> objs w' = objs w \<and>
     open_fds (srv_net w') = open_fds (srv_net w) \<and>
     queue_of i w' = queue_of i w @ map (\<lambda>a. server_callback (Start_Accept a)) as \<and>
     (\<forall>j. j \<noteq> i \<longrightarrow> queue_of j w' = queue_of j w)"
proof (induction as arbitrary: w)
  case (Cons a as)
  obtain w1 where w1: "schedule_on (Some i) (Start_Accept a) w = Inr w1" "objs w1 = objs w"
    "open_fds (srv_net w1) = open_fds (srv_net w)" "queue_of i w1 = queue_of i w @ [server_callback (Start_Accept a)]"
    "\<forall>j. j \<noteq> i \<longrightarrow> queue_of j w1 = queue_of j w"
    using schedule_on_effect by blast
  obtain w2 where "schedule_accepts (Some i) as w1 = Inr w2" "objs w2 = objs w1"
    "open_fds (srv_net w2) = open_fds (srv_net w1)"
    "queue_of i w2 = queue_of i w1 @ map (\<lambda>a. server_callback (Start_Accept a)) as"
    "\<forall>j. j \<noteq> i \<longrightarrow> queue_of j w2 = queue_of j w1"
    using Cons.IH [of w1] by blast
  with w1 show ?case by (intro exI [of _ w2]) simp
qed simp

lemma initSock_fds [simp]: "net_fds (initSock k s n) = net_fds n"
proof -
  have "snd (setOption k fd (Reuseaddr v) m) = m" "snd (setOption k fd (Nodelay v) m) = m" for fd v m
    by (auto simp: setOption_def hook_setsockopt_def split: option.splits)
  then show ?thesis by (simp add: initSock_def Let_def)
qed

text \<open>The context of a client's descriptor that had none.\<close>

lemma hooked_accept_result:
  assumes "fdm_reach (net_fds n)" "lookup_fd (net_fds n) newsock = None" "0 \<le> newsock"
  obtains n1 where "hooked_accept k newsock n = Inr n1" "fdm_reach (net_fds n1)"
    "lookup_fd (net_fds n1) newsock = Some (fst (fd_ctx_ctor newsock (fst (sys_stat k)) (snd (sys_stat k))))"
    "\<forall>fd. fd \<noteq> newsock \<longrightarrow> lookup_fd (net_fds n1) fd = lookup_fd (net_fds n) fd"
    "net_io n1 = net_io n" "open_fds n1 = insert newsock (open_fds n)"
proof -
  let ?st = "fst (sys_stat k)" and ?fl = "snd (sys_stat k)"
  have read: "get_read newsock True (net_fds n) = None"
    using assms(2,3) by (auto simp: get_read_def lookup_fd_def split: if_splits)
  obtain m where m: "get_create newsock ?st ?fl (net_fds n) = Inr (next_obj (net_fds n), m)"
    "\<And>fd. lookup_fd m fd = (if fd = newsock then Some (fst (fd_ctx_ctor newsock ?st ?fl)) else lookup_fd (net_fds n) fd)"
    using get_create_lookup [OF fdm_reach_inv [OF assms(1)] assms(3)] by metis
  have get: "fd_get newsock True ?st ?fl (net_fds n) = Inr (Some (next_obj (net_fds n)), m)"
    using read m(1) by (simp add: fd_get_def)
  then have "hooked_accept k newsock n = Inr (n\<lparr>net_fds := m, open_fds := insert newsock (open_fds n)\<rparr>)"
    using assms(3) by (simp add: hooked_accept_def hook_accept_def)
  moreover have "fdm_reach m" by (rule fdm_reach.get [OF assms(1) get])
  ultimately show thesis using m(2) that [of "n\<lparr>net_fds := m, open_fds := insert newsock (open_fds n)\<rparr>"] by simp
qed

section \<open>Properties\<close>

text \<open>
  C25. \<^verbatim>\<open>bind\<close> on a new server is all or nothing: it is true when the kernel lets it listen on every address, and then
  the server has a listening socket for each, in order, with the descriptors the kernel gave; otherwise \<^verbatim>\<open>fails\<close> lists
  exactly the addresses that were refused, the server has no socket, and every descriptor opened on the way is
  closed again.
\<close>

theorem bind_all_or_nothing:
  assumes "bind_addrs k (\<lambda>_. False) xs [] ssl s w = Inr (ok, fails, s', w')" "m_socks s = []"
    and "\<forall>x \<in> set xs. is_ip (fst x)" "binds_fresh ssl xs ([], [], w)" "\<forall>i \<ge> next_sock w. objs w i = None"
  shows "ok = (\<forall>x \<in> set xs. can_listen x) \<and> fails = map fst (filter (\<lambda>x. \<not> can_listen x) xs) \<and>
    (if ok then length (m_socks s') = length xs \<and> map (sock_of w') (m_socks s') = map (\<lambda>(_, k, _). sys_socket k) xs \<and>
       distinct (map (sock_of w') (m_socks s')) \<and>
       open_fds (srv_net w') = open_fds (srv_net w) \<union> set (map (sock_of w') (m_socks s'))
     else m_socks s' = [] \<and> open_fds (srv_net w') = open_fds (srv_net w) \<and> objs w' = objs w)"
proof -
  obtain ids fails1 w1 where loop: "bind_loop ssl xs ([], [], w) = Inr (ids, fails1, w1)"
    and rest: "(if fails1 \<noteq> [] then result_bind (drop_socks k (\<lambda>_. False) ids w1)
        (\<lambda>w2. Inr (False, fails1, s\<lparr>srv_ssl := ssl, m_socks := []\<rparr>, w2))
      else Inr (True, fails1, s\<lparr>srv_ssl := ssl, m_socks := ids\<rparr>, w1)) = Inr (ok, fails, s', w')"
    using assms(1,2) by (auto simp: bind_addrs_def Let_def result_bind_Inr_iff split: if_splits)
  have "bound w w" by (simp add: bound_def)
  from bind_loop_effect [OF loop assms(4,3) this]
  have b: "bound w w1" and f: "fails1 = map fst (filter (\<lambda>x. \<not> can_listen x) xs)"
    and n: "next_sock w1 = next_sock w + length (filter can_listen xs)" and ids: "ids = [next_sock w ..< next_sock w1]"
    and socks: "map (sock_of w1) ids = map (\<lambda>(_, k, _). sys_socket k) (filter can_listen xs)"
    by auto
  show ?thesis
  proof (cases "fails1 = []")
    case True
    then have all: "\<forall>x \<in> set xs. can_listen x" using f by (simp add: filter_empty_conv)
    then have "filter can_listen xs = xs" by (simp add: filter_id_conv)
    moreover have "ok" "fails = []" "m_socks s' = ids" "w' = w1" using True rest by auto
    moreover have "distinct (map (sock_of w1) ids)" using ids bound_D(4) [OF b] by (simp add: distinct_map)
    moreover have "open_fds (srv_net w1) = open_fds (srv_net w) \<union> set (map (sock_of w1) ids)"
      using ids bound_D(6) [OF b] by simp
    moreover have "length ids = length xs" using ids n \<open>filter can_listen xs = xs\<close> by simp
    ultimately show ?thesis using all f True socks by (simp only: refl if_True) simp
  next
    case False
    then have some: "\<not> (\<forall>x \<in> set xs. can_listen x)" using f by (simp add: filter_empty_conv)
    have drop: "drop_socks k (\<lambda>_. False) ids w1 = Inr w'" and "\<not> ok" "fails = fails1" "m_socks s' = []"
      using False rest by (auto simp: result_bind_Inr_iff)
    moreover have "open_fds (srv_net w') = open_fds (srv_net w) \<and> objs w' = (\<lambda>i. if i \<in> set ids then None else objs w1 i)"
      using bound_D(3-6) [OF b] ids by (intro drop_socks_effect [OF drop]) auto
    moreover have "(\<lambda>i. if i \<in> set ids then None else objs w1 i) = objs w"
      using bound_D(2) [OF b] assms(5) ids by (auto simp: fun_eq_iff)
    ultimately show ?thesis using some f by simp
  qed
qed

lemma obj_close_unhooked: "\<not> hook_enable k \<Longrightarrow> \<exists>r. obj_close k ob n = Inr r"
  by (cases ob) (simp_all add: obj_close_def socket_close_def hook_close_def Let_def)

definition demo_srv_world :: srv_world where
  "demo_srv_world = \<lparr>objs = (\<lambda>_. None), next_sock = 0,
     srv_net = \<lparr>net_io = (case io_ctor 1 False 0 0 3 0 0 0 [1] of Inr io \<Rightarrow> io), net_fds = fd_manager_ctor, open_fds = {0, 1, 2}\<rparr>\<rparr>"

text \<open>Two addresses, the second of which is in use: the first socket is closed again.\<close>

theorem bind_all_or_nothing_witness:
  "\<exists>s' w'. bind_addrs (demo_kernel\<lparr>hook_enable := False\<rparr>) (\<lambda>_. False)
       [(IPv4Address (ipv4_ctor 0 80), demo_kernel\<lparr>hook_enable := False\<rparr>, demo_kernel),
        (IPv4Address (ipv4_ctor 0 81), demo_kernel\<lparr>hook_enable := False, sys_socket := 6, sys_bind := - 1\<rparr>, demo_kernel)]
       [] False (tcp_server_ctor None None None) demo_srv_world = Inr (False, [IPv4Address (ipv4_ctor 0 81)], s', w') \<and>
     m_socks s' = [] \<and> open_fds (srv_net w') = {0, 1, 2}"
proof -
  let ?k = "demo_kernel\<lparr>hook_enable := False\<rparr>"
  let ?x = "(IPv4Address (ipv4_ctor 0 80), ?k, demo_kernel)"
  let ?y = "(IPv4Address (ipv4_ctor 0 81), ?k\<lparr>sys_socket := 6, sys_bind := - 1\<rparr>, demo_kernel)"
  let ?s = "tcp_server_ctor None None None"
  note defs = bind_one_def obj_bind_def obj_CreateTCP_def CreateTCP_def socket_ctor_def socket_bind_def isValid_def
    newSock_def hook_socket_def demo_kernel_def getFamily_def ipv4_ctor_def unix_taken_def obj_listen_def socket_listen_def
    obj_close_def socket_close_def hook_close_def Let_def
  obtain w1 where one: "bind_one False ?x ([], [], demo_srv_world) = Inr ([0], [], w1)" "objs w1 0 \<noteq> None"
      "open_fds (srv_net w1) = {5, 0, 1, 2}"
    by (auto simp: defs demo_srv_world_def)
  obtain w2 where two: "bind_one False ?y ([0], [], w1) = Inr ([0], [IPv4Address (ipv4_ctor 0 81)], w2)" "objs w2 = objs w1"
    by (auto simp: defs)
  have "bind_loop False [?x, ?y] ([], [], demo_srv_world) = Inr ([0], [IPv4Address (ipv4_ctor 0 81)], w2)"
    using one(1) two(1) by simp
  moreover obtain w' where "drop_socks ?k (\<lambda>_. False) [0] w2 = Inr w'"
  proof -
    obtain ob where ob: "objs w2 0 = Some ob" using one(2) two(2) by auto
    obtain r where "obj_close ?k ob (srv_net w2) = Inr r"
      using obj_close_unhooked [of ?k ob "srv_net w2"] by auto
    with ob show thesis using that by (cases r) simp
  qed
  ultimately have run: "bind_addrs ?k (\<lambda>_. False) [?x, ?y] [] False ?s demo_srv_world =
      Inr (False, [IPv4Address (ipv4_ctor 0 81)], ?s\<lparr>srv_ssl := False, m_socks := []\<rparr>, w')"
    by (simp add: bind_addrs_def tcp_server_ctor_def)
  have "binds_fresh False [?x, ?y] ([], [], demo_srv_world)"
    using one two(1) by (simp add: fd_fresh_def demo_kernel_def demo_srv_world_def)
  from bind_all_or_nothing [OF run _ _ this] have "open_fds (srv_net w') = {0, 1, 2}"
    by (simp add: tcp_server_ctor_def is_ip_def demo_srv_world_def)
  with run show ?thesis by auto
qed

text \<open>
  \<^verbatim>\<open>start\<close> hands the accept worker one \<^verbatim>\<open>startAccept\<close> for each listening socket, in order and behind what was
  queued, and nothing to any other worker; a second \<^verbatim>\<open>start\<close> does nothing, and \<^verbatim>\<open>stop\<close> adds one callback, after
  which the server can be started again.
\<close>

theorem start_schedules_accepts:
  assumes "m_acceptWorker s = Some i" "m_isStop s"
  shows "\<exists>w1 w2. server_start s w = Inr (True, s\<lparr>m_isStop := False\<rparr>, w1) \<and>
    queue_of i w1 = queue_of i w @ map (\<lambda>a. server_callback (Start_Accept a)) (m_socks s) \<and>
    (\<forall>j. j \<noteq> i \<longrightarrow> queue_of j w1 = queue_of j w) \<and> objs w1 = objs w \<and>
    server_start (s\<lparr>m_isStop := False\<rparr>) w1 = Inr (True, s\<lparr>m_isStop := False\<rparr>, w1) \<and>
    server_stop (s\<lparr>m_isStop := False\<rparr>) w1 = Inr (s, w2) \<and>
    queue_of i w2 = queue_of i w1 @ [server_callback Close_Socks] \<and> objs w2 = objs w"
proof -
  obtain w1 where w1: "schedule_accepts (Some i) (m_socks s) w = Inr w1" "objs w1 = objs w"
    "queue_of i w1 = queue_of i w @ map (\<lambda>a. server_callback (Start_Accept a)) (m_socks s)"
    "\<forall>j. j \<noteq> i \<longrightarrow> queue_of j w1 = queue_of j w"
    using schedule_accepts_effect by blast
  obtain w2 where w2: "schedule_on (Some i) Close_Socks w1 = Inr w2" "objs w2 = objs w1"
    "queue_of i w2 = queue_of i w1 @ [server_callback Close_Socks]"
    using schedule_on_effect by blast
  have "s\<lparr>m_isStop := True\<rparr> = s" using assms(2) by simp
  with assms w1 w2 show ?thesis
    by (intro exI [of _ w1] exI [of _ w2]) (simp add: server_start_def server_stop_def Let_def)
qed

theorem start_schedules_accepts_witness:
  "\<exists>w1. server_start ((tcp_server_ctor None None (Some 0))\<lparr>m_socks := [4, 7]\<rparr>) demo_srv_world =
       Inr (True, (tcp_server_ctor None None (Some 0))\<lparr>m_socks := [4, 7], m_isStop := False\<rparr>, w1) \<and>
     queue_of 0 w1 = queue_of 0 demo_srv_world @ [server_callback (Start_Accept 4), server_callback (Start_Accept 7)]"
  using start_schedules_accepts [of "(tcp_server_ctor None None (Some 0))\<lparr>m_socks := [4, 7]\<rparr>" 0 demo_srv_world]
  by (auto simp: tcp_server_ctor_def)

text \<open>
  C26. A client that is accepted becomes a connected socket on its descriptor, whose receive timeout is the
  server's, and \<^verbatim>\<open>handleClient\<close> for it is queued once with the I/O worker, behind what was queued.
\<close>

theorem accepted_client_scheduled:
  assumes "objs w a = Some (Plain ls)" "m_ioWorker s = Some i" "hook_enable k" "fst (sys_stat k) = Some True"
    and "fdm_reach (net_fds (srv_net w))" "lookup_fd (net_fds (srv_net w)) newsock = None" "0 \<le> newsock"
    and "unat (srv_recvTimeout s) < 2 ^ 31 * 1000"
  shows "\<exists>w' c. accept_round k l newsock a s w = Inr w' \<and> objs w' = (objs w)(next_sock w \<mapsto> Plain c) \<and>
    m_sock c = newsock \<and> m_isConnected c \<and> m_family c = m_family ls \<and>
    getRecvTimeout c (net_fds (srv_net w')) = int (unat (srv_recvTimeout s)) \<and>
    (\<forall>fd. fd \<noteq> newsock \<longrightarrow> lookup_fd (net_fds (srv_net w')) fd = lookup_fd (net_fds (srv_net w)) fd) \<and>
    open_fds (srv_net w') = insert newsock (open_fds (srv_net w)) \<and>
    queue_of i w' = queue_of i w @ [server_callback (Handle_Client (next_sock w))]"
proof -
  let ?n = "srv_net w" and ?v = "int (unat (srv_recvTimeout s))"
  let ?c0 = "fst (fd_ctx_ctor newsock (fst (sys_stat k)) (snd (sys_stat k)))"
  obtain n1 where n1: "hooked_accept k newsock ?n = Inr n1" "fdm_reach (net_fds n1)"
    "lookup_fd (net_fds n1) newsock = Some ?c0"
    "\<forall>fd. fd \<noteq> newsock \<longrightarrow> lookup_fd (net_fds n1) fd = lookup_fd (net_fds ?n) fd" "net_io n1 = net_io ?n" "open_fds n1 = insert newsock (open_fds ?n)"
    using hooked_accept_result [OF assms(5-7)] by metis
  obtain c n2 where acc: "accept_return k newsock ls ?n = Inr (Some c, n2)" and c: "m_sock c = newsock" "m_isConnected c"
      "m_family c = m_family ls" and n2: "net_fds n2 = net_fds n1" "net_io n2 = net_io ?n" "open_fds n2 = open_fds n1"
    using n1 assms(4,7) by (simp add: accept_return_def socket_init_def Let_def socket_ctor_def)
  have v: "sint (srv_recvTimeout s) = ?v" "- (2 ^ 31) \<le> ?v sdiv 1000" "?v sdiv 1000 < 2 ^ 31"
  proof -
    have "unat (srv_recvTimeout s) < 2147483648000" using assms(8) by simp
    then have "int (unat (srv_recvTimeout s)) < 2147483648000" by linarith
    then have small: "uint (srv_recvTimeout s) < 2147483648000" by simp
    then have "uint (srv_recvTimeout s) < 2 ^ 63" by simp
    moreover have "- (2 ^ 63) \<le> uint (srv_recvTimeout s)" by (rule order_trans [of _ 0]) simp_all
    ultimately have "signed_take_bit 63 (uint (srv_recvTimeout s)) = uint (srv_recvTimeout s)"
      by (intro signed_take_bit_int_eq_self)
    then show "sint (srv_recvTimeout s) = ?v" by (simp add: sint_uint)
    have "?v sdiv 1000 = ?v div 1000" by (simp add: divide_int_eq_signed_divide_int)
    moreover have "0 \<le> ?v div 1000" "?v div 1000 < 2 ^ 31"
      using small by (simp_all add: pos_imp_zdiv_nonneg_iff div_less_iff_less_mult)
    ultimately show "- (2 ^ 31) \<le> ?v sdiv 1000" "?v sdiv 1000 < 2 ^ 31" by linarith+
  qed
  let ?n3 = "obj_setRecvTimeout k ?v (Plain c) n2"
  note set = set_timeout_lookup [OF fdm_reach_inv [OF n1(2)] n1(3) assms(3) v(2,3), of SO_RCVTIMEO]
  have timeout: "getRecvTimeout c (net_fds ?n3) = ?v"
    using set [of newsock] timeval_exact(2) [OF v(2,3)] c n2
    by (simp add: obj_setRecvTimeout_def getRecvTimeout_def setRecvTimeout_def getTimeout_def setTimeout_def)
  obtain w' where w': "schedule_on (Some i) (Handle_Client (next_sock w))
      (w\<lparr>objs := (objs w)(next_sock w \<mapsto> Plain c), next_sock := Suc (next_sock w), srv_net := ?n3\<rparr>) = Inr w'"
    "objs w' = (objs w)(next_sock w \<mapsto> Plain c)" "open_fds (srv_net w') = open_fds ?n3" "net_fds (srv_net w') = net_fds ?n3"
    "queue_of i w' = queue_of i (w\<lparr>srv_net := ?n3\<rparr>) @ [server_callback (Handle_Client (next_sock w))]"
    using schedule_on_effect [of i "Handle_Client (next_sock w)"
      "w\<lparr>objs := (objs w)(next_sock w \<mapsto> Plain c), next_sock := Suc (next_sock w), srv_net := ?n3\<rparr>"]
    by (auto simp: queue_of_def)
  have "accept_round k l newsock a s w = Inr w'"
    using assms(1,2) acc w'(1) v(1) by (simp add: accept_round_def obj_accept_def Let_def)
  moreover have "queue_of i (w\<lparr>srv_net := ?n3\<rparr>) = queue_of i w" using n2 by (simp add: queue_of_def obj_setRecvTimeout_def)
  ultimately show ?thesis
    using w' c timeout n1 n2 set
    by (intro exI [of _ w'] exI [of _ c]) (simp add: obj_setRecvTimeout_def setRecvTimeout_def)
qed

theorem accepted_client_scheduled_witness:
  "\<forall>l. \<exists>w' c. accept_round demo_kernel l 5 0 (tcp_server_ctor None (Some 0) None)
       (demo_srv_world\<lparr>objs := [0 \<mapsto> Plain (CreateTCPSocket\<lparr>m_sock := 4\<rparr>)], next_sock := 1\<rparr>) = Inr w' \<and>
     objs w' 1 = Some (Plain c) \<and> getRecvTimeout c (net_fds (srv_net w')) = 120000"
proof
  fix l
  let ?w = "demo_srv_world\<lparr>objs := [0 \<mapsto> Plain (CreateTCPSocket\<lparr>m_sock := 4\<rparr>)], next_sock := 1\<rparr>"
  have "fdm_reach (net_fds (srv_net ?w))" by (simp add: demo_srv_world_def fdm_reach.ctor)
  moreover have "lookup_fd (net_fds (srv_net ?w)) 5 = None"
    by (simp add: demo_srv_world_def lookup_fd_def size_le_def fd_manager_ctor_def nth_vec_resize)
  ultimately show "\<exists>w' c. accept_round demo_kernel l 5 0 (tcp_server_ctor None (Some 0) None) ?w = Inr w' \<and>
     objs w' 1 = Some (Plain c) \<and> getRecvTimeout c (net_fds (srv_net w')) = 120000"
    using accepted_client_scheduled [of ?w 0 "CreateTCPSocket\<lparr>m_sock := 4\<rparr>" "tcp_server_ctor None (Some 0) None" 0
      demo_kernel 5 l]
    by (auto simp: demo_kernel_def tcp_server_ctor_def g_tcp_server_read_timeout_def)
qed

end
