(* ===== verification/Connection_Pool.thy ===== *)
theory Connection_Pool
  imports Prelude
begin

text \<open>
  \<^verbatim>\<open>src/cglmysql/sql_connection_pool.h\<close> and \<^verbatim>\<open>.cpp\<close>: the connections to the data base, shared by the
  workers. A connection is a number; the semaphore \<^verbatim>\<open>reserve\<close> is its count. \<^verbatim>\<open>get_connection\<close> and
  \<^verbatim>\<open>release_connection\<close> are cut into what happens at once: the test of the list (outside of the lock), the wait
  for the semaphore, the critical sections, and the post.
\<close>

section \<open>State and operations\<close>

datatype user_pc = Outside | Checked | Waited | Holding "nat option" | Posting

record conn_pool =
  conn_list :: "nat list"
  m_max_conn :: int
  m_cur_conn :: int
  m_free_conn :: int
  reserve :: int
  pcs :: "nat \<Rightarrow> user_pc"

definition conn_pool_ctor :: conn_pool where
  "conn_pool_ctor = \<lparr>conn_list = [], m_max_conn = 0, m_cur_conn = 0, m_free_conn = 0, reserve = 0, pcs = (\<lambda>_. Outside)\<rparr>"

text \<open>\<^verbatim>\<open>init\<close> over the connections the library opens; \<open>None\<close>, for one that fails, ends the process.\<close>

fun pool_open :: "nat option list \<Rightarrow> conn_pool \<Rightarrow> conn_pool option" where
  "pool_open [] s = Some s"
| "pool_open (None # cs) s = None"
| "pool_open (Some con # cs) s =
     pool_open cs (s\<lparr>conn_list := conn_list s @ [con], m_free_conn := m_free_conn s + 1\<rparr>)"

definition pool_init :: "nat option list \<Rightarrow> conn_pool \<Rightarrow> conn_pool option" where
  "pool_init cs s = map_option (\<lambda>s. s\<lparr>reserve := m_free_conn s, m_max_conn := m_free_conn s\<rparr>) (pool_open cs s)"

text \<open>\<^verbatim>\<open>get_connection\<close>, which \<^verbatim>\<open>connectionRAII\<close> keeps until it is destroyed.\<close>

definition get_check :: "nat \<Rightarrow> conn_pool \<Rightarrow> conn_pool" where
  "get_check t s = s\<lparr>pcs := (pcs s)(t := if conn_list s = [] then Holding None else Checked)\<rparr>"

definition get_wait :: "nat \<Rightarrow> conn_pool \<Rightarrow> conn_pool option" where
  "get_wait t s = (if 0 < reserve s then Some (s\<lparr>reserve := reserve s - 1, pcs := (pcs s)(t := Waited)\<rparr>) else None)"

definition get_take :: "nat \<Rightarrow> conn_pool \<Rightarrow> conn_pool result" where
  "get_take t s =
     (case conn_list s of
        [] \<Rightarrow> Inl Undefined_Behaviour
      | con # cs \<Rightarrow> Inr (s\<lparr>conn_list := cs, m_free_conn := m_free_conn s - 1, m_cur_conn := m_cur_conn s + 1,
          pcs := (pcs s)(t := Holding (Some con))\<rparr>))"

text \<open>\<^verbatim>\<open>release_connection\<close>: the null pointer is refused.\<close>

definition release_push :: "nat \<Rightarrow> nat option \<Rightarrow> conn_pool \<Rightarrow> conn_pool" where
  "release_push t con s =
     (case con of
        None \<Rightarrow> s\<lparr>pcs := (pcs s)(t := Outside)\<rparr>
      | Some c \<Rightarrow> s\<lparr>conn_list := conn_list s @ [c], m_free_conn := m_free_conn s + 1, m_cur_conn := m_cur_conn s - 1,
          pcs := (pcs s)(t := Posting)\<rparr>)"

definition release_post :: "nat \<Rightarrow> conn_pool \<Rightarrow> conn_pool" where
  "release_post t s = s\<lparr>reserve := reserve s + 1, pcs := (pcs s)(t := Outside)\<rparr>"

definition destroy_pool :: "conn_pool \<Rightarrow> nat list \<times> conn_pool" where
  "destroy_pool s =
     (if conn_list s \<noteq> [] then (conn_list s, s\<lparr>m_cur_conn := 0, m_free_conn := 0, conn_list := []\<rparr>) else ([], s))"

definition get_free_conn :: "conn_pool \<Rightarrow> int" where
  "get_free_conn s = m_free_conn s"

text \<open>One step of any user.\<close>

inductive conn_step :: "conn_pool \<Rightarrow> conn_pool \<Rightarrow> bool" where
  check: "pcs s t = Outside \<Longrightarrow> conn_step s (get_check t s)"
| wait: "pcs s t = Checked \<Longrightarrow> get_wait t s = Some s' \<Longrightarrow> conn_step s s'"
| take: "pcs s t = Waited \<Longrightarrow> get_take t s = Inr s' \<Longrightarrow> conn_step s s'"
| push: "pcs s t = Holding con \<Longrightarrow> conn_step s (release_push t con s)"
| post: "pcs s t = Posting \<Longrightarrow> conn_step s (release_post t s)"

definition pool_started :: "nat list \<Rightarrow> conn_pool \<Rightarrow> bool" where
  "pool_started cs s \<longleftrightarrow> distinct cs \<and> pool_init (map Some cs) conn_pool_ctor = Some s"

section \<open>The invariant\<close>

text \<open>How many users stand at a point.\<close>

definition users_at :: "(user_pc \<Rightarrow> bool) \<Rightarrow> conn_pool \<Rightarrow> nat set" where
  "users_at P s = {t. pcs s t \<noteq> Outside \<and> P (pcs s t)}"

definition holds :: "user_pc \<Rightarrow> bool" where
  "holds pc \<longleftrightarrow> (\<exists>c. pc = Holding (Some c))"

definition conn_inv :: "conn_pool \<Rightarrow> bool" where
  "conn_inv s \<longleftrightarrow> finite {t. pcs s t \<noteq> Outside} \<and> 0 \<le> reserve s \<and>
     int (length (conn_list s)) = reserve s + int (card (users_at (\<lambda>p. p = Waited \<or> p = Posting) s)) \<and>
     m_free_conn s = int (length (conn_list s)) \<and> m_cur_conn s = int (card (users_at holds s)) \<and>
     m_free_conn s + m_cur_conn s = m_max_conn s \<and> distinct (conn_list s) \<and>
     (\<forall>t c. pcs s t = Holding (Some c) \<longrightarrow> c \<notin> set (conn_list s)) \<and>
     (\<forall>t t' c. pcs s t = Holding (Some c) \<longrightarrow> pcs s t' = Holding (Some c) \<longrightarrow> t = t')"

definition lent :: "conn_pool \<Rightarrow> nat set" where
  "lent s = {c. \<exists>t. pcs s t = Holding (Some c)}"

lemma users_at_move:
  assumes "finite {t. pcs s t \<noteq> Outside}" "pcs s' = (pcs s)(t := pc)"
  shows "finite {t. pcs s' t \<noteq> Outside}"
    "int (card (users_at P s')) = int (card (users_at P s)) -
       (if pcs s t \<noteq> Outside \<and> P (pcs s t) then 1 else 0) + (if pc \<noteq> Outside \<and> P pc then 1 else 0)"
proof -
  have "{t. pcs s' t \<noteq> Outside} \<subseteq> insert t {t. pcs s t \<noteq> Outside}" using assms(2) by auto
  with assms(1) show "finite {t. pcs s' t \<noteq> Outside}" by (meson finite_insert finite_subset)
  have fin: "finite (users_at P s)" using assms(1) by (rule rev_finite_subset) (auto simp: users_at_def)
  have "users_at P s' = (users_at P s - {t}) \<union> (if pc \<noteq> Outside \<and> P pc then {t} else {})"
    using assms(2) by (auto simp: users_at_def)
  moreover have "int (card (users_at P s - {t})) = int (card (users_at P s)) - (if t \<in> users_at P s then 1 else 0)"
    using fin card_gt_0_iff [of "users_at P s"]
    by (cases "t \<in> users_at P s") (auto simp: card_Diff_singleton of_nat_diff Suc_leI)
  moreover have "t \<in> users_at P s \<longleftrightarrow> pcs s t \<noteq> Outside \<and> P (pcs s t)" by (simp add: users_at_def)
  ultimately show "int (card (users_at P s')) = int (card (users_at P s)) -
       (if pcs s t \<noteq> Outside \<and> P (pcs s t) then 1 else 0) + (if pc \<noteq> Outside \<and> P pc then 1 else 0)"
    using fin by (auto simp: card_insert_if)
qed

lemma pool_open_all:
  "pool_open (map Some cs) s =
     Some (s\<lparr>conn_list := conn_list s @ cs, m_free_conn := m_free_conn s + int (length cs)\<rparr>)"
  by (induction cs arbitrary: s) auto

lemma pool_started_inv:
  assumes "pool_started cs s"
  shows "conn_inv s \<and> set (conn_list s) \<union> lent s = set cs \<and> m_max_conn s = int (length cs)"
proof -
  have "distinct cs" and "pool_init (map Some cs) conn_pool_ctor = Some s"
    using assms by (auto simp: pool_started_def)
  then show ?thesis
    by (auto simp: pool_init_def pool_open_all conn_pool_ctor_def conn_inv_def users_at_def lent_def)
qed

lemma some_user_at:
  assumes "finite {t. pcs s t \<noteq> Outside}" "pcs s t \<noteq> Outside" "P (pcs s t)"
  shows "0 < card (users_at P s)"
proof -
  have "finite (users_at P s)" using assms(1) by (rule rev_finite_subset) (auto simp: users_at_def)
  moreover have "t \<in> users_at P s" using assms by (simp add: users_at_def)
  ultimately show ?thesis by (auto simp: card_gt_0_iff)
qed

lemma conn_step_inv:
  assumes "conn_step s s'" "conn_inv s"
  shows "conn_inv s'"
  using assms(1)
proof cases
  case (check t)
  have "pcs s' = (pcs s)(t := if conn_list s = [] then Holding None else Checked)"
    using check by (simp add: get_check_def)
  note move = users_at_move [OF _ this]
  show ?thesis
    using assms(2) check move(1) move(2) [of "\<lambda>p. p = Waited \<or> p = Posting"] move(2) [of holds]
    by (auto simp: conn_inv_def get_check_def holds_def split: if_splits)
next
  case (wait t)
  have s': "s' = s\<lparr>reserve := reserve s - 1, pcs := (pcs s)(t := Waited)\<rparr>" and "0 < reserve s"
    using wait by (auto simp: get_wait_def split: if_splits)
  then have "pcs s' = (pcs s)(t := Waited)" by simp
  note move = users_at_move [OF _ this]
  show ?thesis
    using assms(2) wait(1) s' \<open>0 < reserve s\<close> move(1)
      move(2) [of "\<lambda>p. p = Waited \<or> p = Posting"] move(2) [of holds]
    by (auto simp: conn_inv_def holds_def split: if_splits)
next
  case (take t)
  obtain con cs where cs: "conn_list s = con # cs"
    and s': "s' = s\<lparr>conn_list := cs, m_free_conn := m_free_conn s - 1, m_cur_conn := m_cur_conn s + 1,
      pcs := (pcs s)(t := Holding (Some con))\<rparr>"
    using take by (auto simp: get_take_def split: list.splits)
  then have "pcs s' = (pcs s)(t := Holding (Some con))" by simp
  note move = users_at_move [OF _ this]
  show ?thesis
    using assms(2) take(1) s' cs move(1) move(2) [of "\<lambda>p. p = Waited \<or> p = Posting"] move(2) [of holds]
    by (auto simp: conn_inv_def holds_def split: if_splits)
next
  case (push t con)
  show ?thesis
  proof (cases con)
    case None
    have "pcs s' = (pcs s)(t := Outside)" using push None by (simp add: release_push_def)
    note move = users_at_move [OF _ this]
    show ?thesis
      using assms(2) push None move(1) move(2) [of "\<lambda>p. p = Waited \<or> p = Posting"] move(2) [of holds]
      by (auto simp: conn_inv_def release_push_def holds_def split: if_splits)
  next
    case (Some c)
    have "pcs s' = (pcs s)(t := Posting)" using push Some by (simp add: release_push_def)
    note move = users_at_move [OF _ this]
    show ?thesis
      using assms(2) push Some move(1) move(2) [of "\<lambda>p. p = Waited \<or> p = Posting"] move(2) [of holds]
      by (auto simp: conn_inv_def release_push_def holds_def split: if_splits)
  qed
next
  case (post t)
  have "pcs s' = (pcs s)(t := Outside)" using post by (simp add: release_post_def)
  note move = users_at_move [OF _ this]
  show ?thesis
    using assms(2) post move(1) move(2) [of "\<lambda>p. p = Waited \<or> p = Posting"] move(2) [of holds]
    by (auto simp: conn_inv_def release_post_def holds_def split: if_splits)
qed

lemma lent_move:
  assumes "pcs s' = (pcs s)(t := pc)" "conn_inv s"
  shows "lent s' = lent s - (case pcs s t of Holding (Some c) \<Rightarrow> {c} | _ \<Rightarrow> {}) \<union>
    (case pc of Holding (Some c) \<Rightarrow> {c} | _ \<Rightarrow> {})"
proof (rule set_eqI)
  fix c
  have "c \<in> lent s' \<longleftrightarrow> pc = Holding (Some c) \<or> (\<exists>u. u \<noteq> t \<and> pcs s u = Holding (Some c))"
    using assms(1) by (auto simp: lent_def)
  moreover have "(\<exists>u. u \<noteq> t \<and> pcs s u = Holding (Some c)) \<longleftrightarrow> c \<in> lent s \<and> pcs s t \<noteq> Holding (Some c)"
    using assms(2) by (auto simp: lent_def conn_inv_def)
  ultimately show "c \<in> lent s' \<longleftrightarrow> c \<in> lent s - (case pcs s t of Holding (Some c) \<Rightarrow> {c} | _ \<Rightarrow> {}) \<union>
    (case pc of Holding (Some c) \<Rightarrow> {c} | _ \<Rightarrow> {})"
    by (auto split: user_pc.splits option.splits)
qed

lemma conn_step_keeps_connections:
  assumes "conn_step s s'" "conn_inv s"
  shows "set (conn_list s') \<union> lent s' = set (conn_list s) \<union> lent s \<and> m_max_conn s' = m_max_conn s"
  using assms(1)
proof cases
  case (check t)
  then show ?thesis using lent_move [OF _ assms(2), of s' t] by (simp add: get_check_def)
next
  case (wait t)
  then show ?thesis using lent_move [OF _ assms(2), of s' t] by (auto simp: get_wait_def split: if_splits)
next
  case (take t)
  then show ?thesis using lent_move [OF _ assms(2), of s' t] by (auto simp: get_take_def split: list.splits)
next
  case (push t con)
  have "con = Some c \<Longrightarrow> c \<in> lent s" for c using push by (auto simp: lent_def)
  with push show ?thesis
    using lent_move [OF _ assms(2), of s' t] by (cases con) (auto simp: release_push_def)
next
  case (post t)
  then show ?thesis using lent_move [OF _ assms(2), of s' t] by (simp add: release_post_def)
qed

definition conn_pool_inv :: "nat list \<Rightarrow> conn_pool \<Rightarrow> bool" where
  "conn_pool_inv cs s \<longleftrightarrow>
     conn_inv s \<and> set (conn_list s) \<union> lent s = set cs \<and> m_max_conn s = int (length cs)"

interpretation conn: step_invariant "pool_started cs" conn_step "conn_pool_inv cs" for cs
  by unfold_locales
    (auto simp: conn_pool_inv_def pool_started_inv conn_step_inv dest: conn_step_keeps_connections)

lemma waited_not_empty:
  assumes "conn_inv s" "pcs s t = Waited"
  shows "conn_list s \<noteq> []"
  using assms some_user_at [of s t "\<lambda>p. p = Waited \<or> p = Posting"] by (auto simp: conn_inv_def)

section \<open>What the users can rely on\<close>

text \<open>
  C28. However the users of the pool interleave, whoever has waited finds a connection in the list, no
  connection is lent twice or is both lent and listed, none of those \<^verbatim>\<open>init\<close> opened is lost, and the two
  counters are the numbers of listed and of lent connections.
\<close>
theorem connections_lent_once:
  assumes "pool_started cs s0" "conn_step\<^sup>*\<^sup>* s0 s"
  shows "(pcs s t = Waited \<longrightarrow> get_take t s \<noteq> Inl Undefined_Behaviour) \<and>
    (pcs s t = Holding (Some c) \<longrightarrow> c \<notin> set (conn_list s) \<and> (pcs s t' = Holding (Some c) \<longrightarrow> t' = t)) \<and>
    set (conn_list s) \<union> {c. \<exists>u. pcs s u = Holding (Some c)} = set cs \<and>
    get_free_conn s = int (length (conn_list s)) \<and>
    m_cur_conn s = int (card {u. \<exists>c. pcs s u = Holding (Some c)}) \<and>
    get_free_conn s + m_cur_conn s = int (length cs)"
proof -
  have all: "conn_pool_inv cs s" using assms by (rule conn.reachable_inv)
  then have inv: "conn_inv s" by (simp add: conn_pool_inv_def)
  have "users_at holds s = {u. \<exists>c. pcs s u = Holding (Some c)}" by (auto simp: users_at_def holds_def)
  moreover have "get_take t s \<noteq> Inl Undefined_Behaviour" if "pcs s t = Waited"
    using waited_not_empty [OF inv that] by (auto simp: get_take_def split: list.splits)
  ultimately show ?thesis
    using inv all unfolding conn_inv_def conn_pool_inv_def lent_def get_free_conn_def by metis
qed

text \<open>Two users share one connection: the second finds the list empty and gets no connection.\<close>

theorem connections_lent_once_witness:
  "\<exists>s0 s. pool_started [7] s0 \<and> conn_step\<^sup>*\<^sup>* s0 s \<and> pcs s 1 = Holding (Some 7) \<and> pcs s 2 = Holding None \<and>
     7 \<notin> set (conn_list s) \<and> get_free_conn s + m_cur_conn s = 1"
proof -
  define st where "st cs l r p =
    \<lparr>conn_list = cs, m_max_conn = 1, m_cur_conn = l, m_free_conn = 1 - l, reserve = r, pcs = p\<rparr>"
    for cs l r p
  let ?p = "\<lambda>_::nat. Outside"
  have start: "pool_started [7] (st [7] 0 1 ?p)"
    by (simp add: st_def pool_started_def pool_init_def conn_pool_ctor_def)
  have "conn_step (st [7] 0 1 ?p) (get_check 1 (st [7] 0 1 ?p))" by (rule conn_step.check) (simp add: st_def)
  then have "conn_step (st [7] 0 1 ?p) (st [7] 0 1 (?p(1 := Checked)))" by (simp add: st_def get_check_def)
  moreover have "conn_step (st [7] 0 1 (?p(1 := Checked))) (st [7] 0 0 (?p(1 := Waited)))"
    by (rule conn_step.wait [where t = 1]) (simp_all add: st_def get_wait_def)
  moreover have "conn_step (st [7] 0 0 (?p(1 := Waited))) (st [] 1 0 (?p(1 := Holding (Some 7))))"
    by (rule conn_step.take [where t = 1]) (simp_all add: st_def get_take_def)
  moreover have "conn_step (st [] 1 0 (?p(1 := Holding (Some 7))))
      (get_check 2 (st [] 1 0 (?p(1 := Holding (Some 7)))))"
    by (rule conn_step.check) (simp add: st_def)
  ultimately have run: "conn_step\<^sup>*\<^sup>* (st [7] 0 1 ?p) (get_check 2 (st [] 1 0 (?p(1 := Holding (Some 7)))))"
    by (meson rtranclp.rtrancl_into_rtrancl r_into_rtranclp)
  from start run connections_lent_once [OF start run, of 1 7] show ?thesis
    by (intro exI [of _ "st [7] 0 1 ?p"] exI [of _ "get_check 2 (st [] 1 0 (?p(1 := Holding (Some 7))))"])
      (simp add: get_check_def st_def)
qed

end
