(* ===== verification/Config.thy ===== *)
theory Config
  imports C_String
begin

text \<open>
  \<^verbatim>\<open>src/util/config.h\<close> and \<^verbatim>\<open>config.cpp\<close>: the settings of the server and how the command line changes them.
  \<^verbatim>\<open>getopt\<close> is the C library's, in the order it reads the words: a word that is no option is passed over, and
  \<^verbatim>\<open>--\<close> ends the options.
\<close>

section \<open>The C library\<close>

text \<open>\<^verbatim>\<open>atoi\<close> is \<^verbatim>\<open>(int)strtol(s, NULL, 10)\<close>.\<close>

definition atoi :: "string \<Rightarrow> int" where
  "atoi s = to_int32 (atol s)"

text \<open>Whether an option letter is known, and takes an argument: a colon behind it in the option string.\<close>

fun opt_takes :: "string \<Rightarrow> char \<Rightarrow> bool option" where
  "opt_takes [] c = None"
| "opt_takes (x # xs) c =
     (if c = CHR '':'' then None
      else if x = c then Some (xs \<noteq> [] \<and> hd xs = CHR '':'') else opt_takes xs c)"

text \<open>
  The options \<^verbatim>\<open>getopt\<close> returns one after the other with their arguments (\<open>optarg\<close>), up to its \<open>-1\<close>;
  \<open>getopt_word\<close> reads the letters behind a dash. An unknown letter and a missing argument give \<^verbatim>\<open>?\<close>.
\<close>

fun getopt_words :: "string \<Rightarrow> string list \<Rightarrow> (char \<times> string option) list"
  and getopt_word :: "string \<Rightarrow> string \<Rightarrow> string list \<Rightarrow> (char \<times> string option) list" where
  "getopt_words str [] = []"
| "getopt_words str (w # ws) =
     (if w = ''--'' then []
      else if w \<noteq> [] \<and> hd w = CHR ''-'' \<and> tl w \<noteq> [] then getopt_word str (tl w) ws
      else getopt_words str ws)"
| "getopt_word str [] ws = getopt_words str ws"
| "getopt_word str (c # cs) [] =
     (case opt_takes str c of
        None \<Rightarrow> (CHR ''?'', None) # getopt_word str cs []
      | Some takes \<Rightarrow>
          if \<not> takes then (c, None) # getopt_word str cs []
          else if cs \<noteq> [] then [(c, Some cs)] else [(CHR ''?'', None)])"
| "getopt_word str (c # cs) (w # ws) =
     (case opt_takes str c of
        None \<Rightarrow> (CHR ''?'', None) # getopt_word str cs (w # ws)
      | Some takes \<Rightarrow>
          if \<not> takes then (c, None) # getopt_word str cs (w # ws)
          else if cs \<noteq> [] then (c, Some cs) # getopt_words str (w # ws)
          else (c, Some w) # getopt_words str ws)"

section \<open>The configuration\<close>

record config =
  PORT :: int
  Proxy :: int
  sql_num :: int
  thread_num :: int
  close_log :: int

definition config_ctor :: config where
  "config_ctor = \<lparr>PORT = 9006, Proxy = 0, sql_num = 8, thread_num = 8, close_log = 0\<rparr>"

text \<open>The \<^verbatim>\<open>switch\<close> of \<^verbatim>\<open>parse_arg\<close>; only options with an argument reach a case that reads \<^verbatim>\<open>optarg\<close>.\<close>

definition apply_opt :: "char \<times> string option \<Rightarrow> config \<Rightarrow> config result" where
  "apply_opt o_arg s =
     (case o_arg of (opt, optarg) \<Rightarrow>
        if opt \<in> set ''pstcn'' then
          (case optarg of
             None \<Rightarrow> Inl Null_Deref
           | Some a \<Rightarrow> Inr
               (if opt = CHR ''p'' then s\<lparr>PORT := atoi a\<rparr>
                else if opt = CHR ''s'' then s\<lparr>sql_num := atoi a\<rparr>
                else if opt = CHR ''t'' then s\<lparr>thread_num := atoi a\<rparr>
                else if opt = CHR ''c'' then s\<lparr>close_log := atoi a\<rparr>
                else s\<lparr>Proxy := atoi a\<rparr>))
        else Inr s)"

definition opt_string :: string where
  "opt_string = ''p:l:m:o:s:t:c:a:n:''"

fun parse_loop :: "(char \<times> string option) list \<Rightarrow> config \<Rightarrow> config result" where
  "parse_loop [] s = Inr s"
| "parse_loop (o_arg # opts) s = result_bind (apply_opt o_arg s) (parse_loop opts)"

definition parse_arg :: "string list \<Rightarrow> config \<Rightarrow> config result" where
  "parse_arg argv s = parse_loop (getopt_words opt_string (drop 1 argv)) s"

section \<open>What the command line sets\<close>

text \<open>The argument of the last option with a letter.\<close>

fun last_arg :: "char \<Rightarrow> (char \<times> string option) list \<Rightarrow> string option" where
  "last_arg c [] = None"
| "last_arg c ((d, a) # opts) = (case last_arg c opts of Some b \<Rightarrow> Some b | None \<Rightarrow> if c = d then a else None)"

definition setting :: "char \<Rightarrow> (char \<times> string option) list \<Rightarrow> int \<Rightarrow> int" where
  "setting c opts dflt = (case last_arg c opts of None \<Rightarrow> dflt | Some a \<Rightarrow> atoi a)"

lemma setting_Nil [simp]: "setting c [] dflt = dflt"
  by (simp add: setting_def)

lemma setting_Cons: "setting c ((d, Some a) # opts) dflt = setting c opts (if c = d then atoi a else dflt)"
  by (simp add: setting_def split: option.splits)

lemma setting_skip: "d \<noteq> c \<Longrightarrow> setting c ((d, a) # opts) dflt = setting c opts dflt"
  by (simp add: setting_def split: option.splits)

definition settings :: "(char \<times> string option) list \<Rightarrow> config \<Rightarrow> config" where
  "settings opts s = \<lparr>PORT = setting (CHR ''p'') opts (PORT s), Proxy = setting (CHR ''n'') opts (Proxy s),
     sql_num = setting (CHR ''s'') opts (sql_num s), thread_num = setting (CHR ''t'') opts (thread_num s),
     close_log = setting (CHR ''c'') opts (close_log s)\<rparr>"

definition has_args :: "(char \<times> string option) list \<Rightarrow> bool" where
  "has_args opts \<longleftrightarrow> (\<forall>x \<in> set opts. fst x \<noteq> CHR ''?'' \<longrightarrow> snd x \<noteq> None)"

lemma has_args_simps [simp]:
  "has_args []" "has_args ((c, a) # opts) \<longleftrightarrow> (c \<noteq> CHR ''?'' \<longrightarrow> a \<noteq> None) \<and> has_args opts"
  by (auto simp: has_args_def)

lemma parse_loop_settings: "has_args opts \<Longrightarrow> parse_loop opts s = Inr (settings opts s)"
proof (induction opts arbitrary: s)
  case Nil
  then show ?case by (simp add: settings_def)
next
  case (Cons x opts)
  obtain c a where x: "x = (c, a)" by (cases x)
  show ?case
  proof (cases "c \<in> set ''pstcn''")
    case True
    with Cons.prems x obtain b where b: "a = Some b" by auto
    with True x Cons show ?thesis by (auto simp: apply_opt_def settings_def setting_Cons)
  next
    case False
    with x Cons show ?thesis by (simp add: apply_opt_def settings_def setting_skip)
  qed
qed

text \<open>Every option of the server's option string takes an argument.\<close>

lemma opt_string_takes: "opt_takes opt_string c = Some takes \<Longrightarrow> takes \<and> c \<noteq> CHR ''?''"
  by (auto simp: opt_string_def split: if_splits)

lemma getopt_has_args:
  "has_args (getopt_words opt_string ws)" "has_args (getopt_word opt_string cs ws)"
proof (induction opt_string ws and opt_string cs ws rule: getopt_words_getopt_word.induct)
qed (auto split: option.splits dest: opt_string_takes)

text \<open>An option with its value, in one word or in two.\<close>

definition spell :: "char \<times> int \<times> bool \<Rightarrow> string list" where
  "spell x = (case x of (c, v, joined) \<Rightarrow> if joined then [CHR ''-'' # c # dec_int v] else [[CHR ''-'', c], dec_int v])"

definition spelled :: "char \<times> int \<times> bool \<Rightarrow> char \<times> string option" where
  "spelled x = (case x of (c, v, _) \<Rightarrow> (c, Some (dec_int v)))"

lemma dec_int_not_Nil [simp]: "dec_int v \<noteq> []"
  by (simp add: dec_int_def)

lemma getopt_one:
  assumes "opt_takes str c = Some True" "c \<noteq> CHR ''-''"
  shows "getopt_words str (spell (c, v, joined) @ ws) = (c, Some (dec_int v)) # getopt_words str ws"
proof -
  have "getopt_word str (c # dec_int v) ws = (c, Some (dec_int v)) # getopt_words str ws"
    using assms by (cases ws) simp_all
  with assms show ?thesis by (simp add: spell_def)
qed

lemma getopt_spelled:
  assumes "\<forall>x \<in> set opts. opt_takes str (fst x) = Some True \<and> fst x \<noteq> CHR ''-''"
  shows "getopt_words str (concat (map spell opts) @ ws) = map spelled opts @ getopt_words str ws"
  using assms
proof (induction opts)
  case (Cons x opts)
  obtain c v joined where x: "x = (c, v, joined)" by (cases x)
  then have "opt_takes str c = Some True" "c \<noteq> CHR ''-''" using Cons.prems by simp_all
  from getopt_one [OF this, of v joined "concat (map spell opts) @ ws"] Cons show ?case by (simp add: x spelled_def)
qed simp

lemma atoi_dec_int:
  assumes "- (2 ^ 31) \<le> v" "v < 2 ^ 31"
  shows "atoi (dec_int v) = v"
proof -
  have "to_int32 v = v" using assms by (simp add: to_int32_def sint_sbintrunc' signed_take_bit_int_eq_self)
  moreover have "atol (dec_int v) = v"
  proof (cases "v < 0")
    case True
    then show ?thesis using assms digits_val_dec [of "nat (- v)"]
      by (simp add: dec_int_def atol_def is_space_def clamp_long_def)
  next
    case False
    then show ?thesis using assms atol_dec_nat [of "nat v" "[]"] by (simp add: dec_int_def)
  qed
  ultimately show ?thesis by (simp add: atoi_def)
qed

text \<open>The last value given for a letter.\<close>

definition last_value :: "char \<Rightarrow> (char \<times> int \<times> bool) list \<Rightarrow> int \<Rightarrow> int" where
  "last_value c opts dflt = foldl (\<lambda>v x. if fst x = c then fst (snd x) else v) dflt opts"

lemma setting_spelled:
  "\<forall>x \<in> set opts. - (2 ^ 31) \<le> fst (snd x) \<and> fst (snd x) < 2 ^ 31 \<Longrightarrow>
    setting c (map spelled opts) dflt = last_value c opts dflt"
proof (induction opts arbitrary: dflt)
  case (Cons x opts)
  obtain d v joined where x: "x = (d, v, joined)" by (cases x)
  with Cons show ?case by (auto simp: spelled_def setting_Cons last_value_def atoi_dec_int)
qed (simp add: last_value_def)

section \<open>Properties\<close>

text \<open>
  \<^verbatim>\<open>parse_arg\<close> never faults, whatever the words are: no case of the \<^verbatim>\<open>switch\<close> reads a null \<^verbatim>\<open>optarg\<close>. Each
  setting is the number of the last option with its letter that \<^verbatim>\<open>getopt\<close> finds, and keeps its value when there is
  none, so the order of options with different letters does not matter.
\<close>

theorem parse_arg_last_wins:
  "parse_arg argv s = Inr (settings (getopt_words opt_string (drop 1 argv)) s)"
  unfolding parse_arg_def by (rule parse_loop_settings) (rule getopt_has_args)

text \<open>
  C32. A command line that spells settings out, each number in the word of its letter or in the next word, in any order and with
  repetitions, is read back: each setting is the last value given for it, or the default. What follows \<^verbatim>\<open>--\<close> is not
  read.
\<close>

theorem command_line_roundtrip:
  assumes "\<forall>x \<in> set opts. fst x \<in> set ''plmostcan''"
    and "\<forall>x \<in> set opts. - (2 ^ 31) \<le> fst (snd x) \<and> fst (snd x) < 2 ^ 31"
  shows "parse_arg (prog # concat (map spell opts) @ ''--'' # rest) config_ctor = Inr
    \<lparr>PORT = last_value (CHR ''p'') opts 9006, Proxy = last_value (CHR ''n'') opts 0,
     sql_num = last_value (CHR ''s'') opts 8, thread_num = last_value (CHR ''t'') opts 8,
     close_log = last_value (CHR ''c'') opts 0\<rparr>"
proof -
  have "\<forall>x \<in> set opts. opt_takes opt_string (fst x) = Some True \<and> fst x \<noteq> CHR ''-''"
    using assms(1) by (auto simp: opt_string_def)
  from getopt_spelled [OF this, of "''--'' # rest"]
  have "getopt_words opt_string (concat (map spell opts) @ ''--'' # rest) = map spelled opts" by simp
  moreover have "parse_loop (map spelled opts) config_ctor = Inr (settings (map spelled opts) config_ctor)"
    by (rule parse_loop_settings) (auto simp: has_args_def spelled_def)
  ultimately show ?thesis by (simp add: parse_arg_def settings_def config_ctor_def setting_spelled [OF assms(2)])
qed

theorem command_line_roundtrip_witness:
  "parse_arg [''web'', ''-p'', ''80'', ''-t4'', ''-p8080'', ''-n'', ''-1'', ''--'', ''-s2''] config_ctor =
     Inr \<lparr>PORT = 8080, Proxy = - 1, sql_num = 8, thread_num = 4, close_log = 0\<rparr>"
proof -
  let ?opts = "[(CHR ''p'', 80, False), (CHR ''t'', 4, True), (CHR ''p'', 8080, True), (CHR ''n'', - 1, False)]"
  let ?words = "concat (map spell ?opts) @ ''--'' # [''-s2'']"
  have words: "?words = [''-p'', ''80'', ''-t4'', ''-p8080'', ''-n'', ''-1'', ''--'', ''-s2'']"
    by (simp add: spell_def dec_int_def dec_nat.simps digit_char_def char_of_def bit_0)
  have "parse_arg (''web'' # ?words) config_ctor =
      Inr \<lparr>PORT = last_value (CHR ''p'') ?opts 9006, Proxy = last_value (CHR ''n'') ?opts 0,
        sql_num = last_value (CHR ''s'') ?opts 8, thread_num = last_value (CHR ''t'') ?opts 8,
        close_log = last_value (CHR ''c'') ?opts 0\<rparr>"
    by (rule command_line_roundtrip) simp_all
  then show ?thesis unfolding words by (simp add: last_value_def)
qed

end
