(* ===== verification/Start_Up.thy ===== *)
theory Start_Up
  imports Tcp_Server Connection_Pool Config Http_Response
begin

text \<open>
  \<^verbatim>\<open>src/main.cpp\<close> and the constructor of \<^verbatim>\<open>http_server\<close> (\<^verbatim>\<open>src/server/http_server.cpp\<close>): from the command line
  to a server that listens. The parts of the program are put together here: the configuration, the I/O
  manager, the resolver, the pool of connections, the cache of the users, and the TCP server.
\<close>

section \<open>The HTTP server object\<close>

record http_server =
  hs_tcp :: tcp_server
  hs_root :: "string option"
  hs_user :: string
  hs_password :: string
  hs_database :: string
  hs_keepalive :: bool

definition root_suffix :: string where
  "root_suffix = ''/../src/root''"

text \<open>
  The constructor; \<open>cwd\<close> is the working directory. \<^verbatim>\<open>getcwd\<close> with 200 bytes fails when it does not fit with its
  NUL, and then \<^verbatim>\<open>server_path\<close> is read uninitialised. \<open>junk\<close> is what \<^verbatim>\<open>malloc\<close> finds in the memory it returns.
  The array \<^verbatim>\<open>users\<close> it allocates has a record of \<open>Http_Parser\<close> for each descriptor; \<open>handleClient\<close> works on one.
\<close>

definition http_server_ctor :: "bool \<Rightarrow> nat option \<Rightarrow> nat option \<Rightarrow> nat option \<Rightarrow> string option \<Rightarrow> (nat \<Rightarrow> char) \<Rightarrow>
    http_server result" where
  "http_server_ctor keepalive work io_worker accept_worker cwd junk =
     (case cwd of
        None \<Rightarrow> Inl Undefined_Behaviour
      | Some server_path \<Rightarrow>
          if 200 \<le> length server_path then Inl Undefined_Behaviour
          else
            let block = map junk [0 ..< length server_path + length root_suffix + 1] in
            result_bind (strcpy block 0 server_path) (\<lambda>b1.
            result_bind (strcat b1 0 root_suffix) (\<lambda>b2.
              Inr \<lparr>hs_tcp = tcp_server_ctor work io_worker accept_worker, hs_root = Some b2, hs_user = [],
                hs_password = [], hs_database = [], hs_keepalive = keepalive\<rparr>)))"

text \<open>The destructor uses \<^verbatim>\<open>delete\<close> on memory from \<^verbatim>\<open>malloc\<close>.\<close>

definition http_server_dtor :: "http_server \<Rightarrow> unit result" where
  "http_server_dtor s = (case hs_root s of None \<Rightarrow> Inr () | Some _ \<Rightarrow> Inl Undefined_Behaviour)"

section \<open>Loading the users\<close>

text \<open>
  \<^verbatim>\<open>connectionRAII\<close> for user \<open>t\<close> of the pool, when nobody else moves: \<open>None\<close> when it waits for the semaphore.
\<close>

definition raii_get :: "nat \<Rightarrow> conn_pool \<Rightarrow> (nat option \<times> conn_pool) result option" where
  "raii_get t p =
     (let p1 = get_check t p in
      case pcs p1 t of
        Holding con \<Rightarrow> Some (Inr (con, p1))
      | _ \<Rightarrow> map_option (\<lambda>p2. result_bind (get_take t p2) (\<lambda>p3.
          case pcs p3 t of Holding con \<Rightarrow> Inr (con, p3) | _ \<Rightarrow> Inr (None, p3))) (get_wait t p1))"

definition raii_release :: "nat \<Rightarrow> nat option \<Rightarrow> conn_pool \<Rightarrow> conn_pool" where
  "raii_release t con p = (let p1 = release_push t con p in if con = None then p1 else release_post t p1)"

text \<open>
  \<^verbatim>\<open>initmysql_result\<close>: \<open>rows con\<close> is what the data base stores for the query on connection \<open>con\<close>, \<open>None\<close> when the
  query fails; the null result is then passed on. Each row comes with the block the pool of the cache may take.
\<close>

definition initmysql_result :: "nat \<Rightarrow> pool_cfg \<Rightarrow> nat \<Rightarrow> (nat \<Rightarrow> (string \<times> string \<times> nat) list option) \<Rightarrow>
    users_cache \<times> conn_pool \<Rightarrow> (users_cache \<times> conn_pool) result option" where
  "initmysql_result t c w rows s =
     (case s of (us, p) \<Rightarrow>
        map_option (\<lambda>r. result_bind r (\<lambda>(con, p1).
            case con of
              None \<Rightarrow> Inl Null_Deref
            | Some m \<Rightarrow>
                (case rows m of
                   None \<Rightarrow> Inl Null_Deref
                 | Some rs \<Rightarrow> result_bind (load_users c w rs us) (\<lambda>us1. Inr (us1, raii_release t con p1)))))
          (raii_get t p))"

section \<open>Binding until it works\<close>

text \<open>
  The loop around \<^verbatim>\<open>bind(m_adress, false)\<close>, which sleeps a second after a failure; it is \<open>None\<close> when the list of
  the kernel's answers ends first. A null address is dereferenced.
\<close>

fun bind_retry :: "address option \<Rightarrow> (kernel \<times> kernel) list \<Rightarrow> tcp_server \<Rightarrow> srv_world \<Rightarrow>
    (tcp_server \<times> srv_world) result option" where
  "bind_retry addr [] s w = None"
| "bind_retry addr ((k, k') # rest) s w =
     (case addr of
        None \<Rightarrow> Some (Inl Null_Deref)
      | Some a \<Rightarrow>
          (case bind_addr k (\<lambda>_. False) (a, k, k') False s w of
             Inl e \<Rightarrow> Some (Inl e)
           | Inr (ok, s1, w1) \<Rightarrow> if ok then Some (Inr (s1, w1)) else bind_retry addr rest s1 w1))"

section \<open>run\<close>

record start_state =
  st_world :: srv_world
  st_pool :: conn_pool
  st_users :: users_cache
  st_proxy :: "proxy_factory option \<times> int option"

text \<open>What the machine answers while the server starts.\<close>

record start_env =
  resolver :: "string \<Rightarrow> string option \<Rightarrow> sockaddr_any list option"
  db_connect :: "nat \<Rightarrow> nat option"
  user_rows :: "nat \<Rightarrow> (string \<times> string \<times> nat) list option"
  cache_layout :: pool_cfg
  cache_word :: nat
  working_dir :: "string option"
  malloc_junk :: "nat \<Rightarrow> char"
  this_worker :: "nat option"
  bind_answers :: "(kernel \<times> kernel) list"

text \<open>The process exits, waits for ever (as far as the answers go), faults, or serves.\<close>

datatype run_outcome = Exits | Waits | Faults fault | Serves http_server start_state

definition server_address :: "(string \<Rightarrow> string option \<Rightarrow> sockaddr_any list option) \<Rightarrow> int \<Rightarrow> address option" where
  "server_address resolve port = LookupAnyIPAddress resolve (''0.0.0.0:'' @ dec_int port)"

definition run_server :: "start_env \<Rightarrow> string \<Rightarrow> string \<Rightarrow> string \<Rightarrow> int \<Rightarrow> int \<Rightarrow> int \<Rightarrow> start_state \<Rightarrow> run_outcome" where
  "run_server e user passwd database_name num port proxy s =
     (let m_adress = server_address (resolver e) port in
      case pool_init (map (db_connect e) [0 ..< nat num]) (st_pool s) of
        None \<Rightarrow> Exits
      | Some p \<Rightarrow>
      (case http_server_ctor True (this_worker e) (this_worker e) (this_worker e) (working_dir e) (malloc_junk e) of
        Inl f \<Rightarrow> Faults f
      | Inr hs0 \<Rightarrow>
        let hs = hs0\<lparr>hs_user := user, hs_password := passwd, hs_database := database_name\<rparr> in
      (case initmysql_result 0 (cache_layout e) (cache_word e) (user_rows e) (st_users s, p) of
        None \<Rightarrow> Waits
      | Some (Inl f) \<Rightarrow> Faults f
      | Some (Inr (us, p1)) \<Rightarrow>
      (case initproxy proxy (st_proxy s) of
        Inl f \<Rightarrow> Faults f
      | Inr g \<Rightarrow>
      (case bind_retry m_adress (bind_answers e) (hs_tcp hs) (st_world s) of
        None \<Rightarrow> Waits
      | Some (Inl f) \<Rightarrow> Faults f
      | Some (Inr (srv, w)) \<Rightarrow>
      (case server_start srv w of
        Inl f \<Rightarrow> Faults f
      | Inr (_, srv1, w1) \<Rightarrow>
          Serves (hs\<lparr>hs_tcp := srv1\<rparr>) \<lparr>st_world = w1, st_pool = p1, st_users = us, st_proxy = g\<rparr>))))))"

section \<open>main\<close>

definition LOGDIR :: string where "LOGDIR = ''../logs/''"

text \<open>GNU \<^verbatim>\<open>basename\<close>: what follows the last slash.\<close>

definition gnu_basename :: "string \<Rightarrow> string" where
  "gnu_basename path = rev (takeWhile (\<lambda>c. c \<noteq> CHR ''/'') (rev path))"

text \<open>\<^verbatim>\<open>name\<close> holds 256 zeros and is never filled.\<close>

definition log_file_name :: string where
  "log_file_name = LOGDIR @ gnu_basename []"

definition address_space_limit :: int where
  "address_space_limit = to_size (2 * (1000 * 1024 * 1024))"


section \<open>The calls return\<close>

definition net_ok :: "'c net \<Rightarrow> bool" where
  "net_ok n \<longleftrightarrow> io_reach (net_io n) \<and> fdm_reach (net_fds n)"

lemma cancelAll_returns:
  assumes "io_reach io" "0 \<le> fd"
  shows "\<exists>b io'. cancelAll fd rt io = Inr (b, io') \<and> io_reach io'"
proof -
  have "\<exists>r. cancelAll fd rt io = Inr r"
  proof (cases "ctx_in_range fd io")
    case True
    have inv: "io_inv io" using io_reach_inv [OF assms(1)] by blast
    obtain p where p: "ctx_at fd io = Inr p" using True assms(2) that [of "m_fdContexts io ! nat fd"]
      by (auto simp: ctx_at_def vec_at_def ctx_in_range_def nat_less_iff)
    then have "ctx_ok (fdctx io p)" using ctx_at_inv [OF inv] io_inv_D(5) [OF inv] by blast
    with True p show ?thesis by (auto simp: cancelAll_def cancelAll_at_result Let_def)
  qed (auto simp: cancelAll_def)
  then obtain b io' where c: "cancelAll fd rt io = Inr (b, io')" by auto
  moreover have "io_reach io'" by (rule io_reach.step [OF assms(1) io_step.cancel_all [OF c]])
  ultimately show ?thesis by blast
qed

lemma hook_close_returns:
  assumes "io_reach io" "fdm_reach m" "0 \<le> fd"
  shows "\<exists>io' m'. hook_close hook iom fd rt (io, m) = Inr (io', m') \<and> io_reach io' \<and> fdm_reach m'"
proof -
  obtain b io' where "cancelAll fd rt io = Inr (b, io')" "io_reach io'" using cancelAll_returns [OF assms(1,3)] by blast
  then show ?thesis using assms fdm_reach.del [OF assms(2)] by (simp add: hook_close_def)
qed

lemma fd_get_returns:
  assumes "fdm_reach m" "0 \<le> fd"
  shows "\<exists>r m'. fd_get fd True st flags m = Inr (r, m') \<and> fdm_reach m'"
proof -
  obtain m1 where "get_create fd st flags m = Inr (next_obj m, m1)"
    using get_create_lookup [OF fdm_reach_inv [OF assms(1)] assms(2)] by metis
  then have "\<exists>r. fd_get fd True st flags m = Inr r" by (auto simp: fd_get_def split: option.splits)
  then show ?thesis using fdm_reach.get [OF assms(1)] by fastforce
qed

lemma newSock_returns:
  assumes "net_ok n" "0 \<le> sys_socket k \<or> sys_socket k = - 1"
  shows "\<exists>s' n'. newSock k s n = Inr (s', n') \<and> net_ok n'"
proof -
  obtain m where "hook_socket (hook_enable k) (sys_socket k) (fst (sys_stat k)) (snd (sys_stat k)) (net_fds n) = Inr m" "fdm_reach m"
  proof (cases "hook_enable k \<and> sys_socket k \<noteq> - 1")
    case True
    with assms have "fdm_reach (net_fds n)" "0 \<le> sys_socket k" by (auto simp: net_ok_def)
    then obtain r m where "fd_get (sys_socket k) True (fst (sys_stat k)) (snd (sys_stat k)) (net_fds n) = Inr (r, m)" "fdm_reach m"
      using fd_get_returns by blast
    with True that show ?thesis by (simp add: hook_socket_def)
  next
    case False
    with assms that [of "net_fds n"] show ?thesis by (auto simp: hook_socket_def net_ok_def)
  qed
  moreover have "net_io (initSock k x y) = net_io y" for x :: "'b socket_scheme" and y :: "'a net"
    by (simp add: initSock_def Let_def)
  ultimately show ?thesis using assms(1) by (auto simp: newSock_def Let_def net_ok_def)
qed

lemma socket_close_returns:
  assumes "net_ok n" "0 \<le> m_sock s \<or> m_sock s = - 1"
  shows "\<exists>b s' n'. socket_close k s n = Inr (b, s', n') \<and> net_ok n'"
proof (cases "m_sock s = - 1")
  case False
  with assms have "io_reach (net_io n)" "fdm_reach (net_fds n)" "0 \<le> m_sock s" by (auto simp: net_ok_def)
  then obtain io m where "hook_close (hook_enable k) (has_iom k) (m_sock s) (sys_epoll k) (net_io n, net_fds n) = Inr (io, m)"
      "io_reach io" "fdm_reach m"
    using hook_close_returns by blast
  with False show ?thesis by (auto simp: socket_close_def Let_def net_ok_def)
qed (use assms in \<open>auto simp: socket_close_def Let_def\<close>)

lemma obj_close_returns:
  assumes "net_ok n" "0 \<le> obj_sock ob \<or> obj_sock ob = - 1"
  shows "\<exists>ob' n'. obj_close k ob n = Inr (ob', n') \<and> net_ok n'"
proof (cases ob)
  case (Plain s)
  with assms socket_close_returns [of n s k] show ?thesis by (auto simp: obj_close_def obj_sock_def)
next
  case (Ssl s)
  with assms socket_close_returns [of n s k] show ?thesis by (auto simp: obj_close_def obj_sock_def)
qed

lemma socket_bind_returns:
  assumes "net_ok n" "0 \<le> sys_socket k \<or> sys_socket k = - 1" "is_ip addr" "\<not> isValid s"
  shows "\<exists>b s' n'. socket_bind k k' addr s n = Inr (b, s', n') \<and> net_ok n'"
proof -
  obtain s1 n1 where "newSock k s n = Inr (s1, n1)" "net_ok n1" using newSock_returns [OF assms(1,2)] by blast
  moreover have "unix_taken k' addr n1 = Inr (False, n1)" using assms(3) by (cases addr) (auto simp: unix_taken_def is_ip_def)
  ultimately show ?thesis using assms(4) by (auto simp: socket_bind_def)
qed

lemma bind_one_returns:
  assumes "net_ok (srv_net w)" "fd_fresh k (open_fds (srv_net w))" "is_ip addr"
  shows "\<exists>ids' fails' w'. bind_one False (addr, k, k') (ids, fails, w) = Inr (ids', fails', w') \<and> net_ok (srv_net w')"
proof -
  have fd: "0 \<le> sys_socket k \<or> sys_socket k = - 1" using assms(2) by (auto simp: fd_fresh_def)
  have "\<not> isValid (CreateTCP addr)" by (simp add: isValid_def CreateTCP_def socket_ctor_def)
  from socket_bind_returns [OF assms(1) fd assms(3) this, of k']
  obtain b s1 n1 where b: "socket_bind k k' addr (CreateTCP addr) (srv_net w) = Inr (b, s1, n1)" "net_ok n1" by blast
  then have bind: "obj_bind k k' addr (obj_CreateTCP False addr) (srv_net w) = Inr (b, Plain s1, n1)"
    by (simp add: obj_bind_def obj_CreateTCP_def)
  have "obj_sock (Plain s1) = sys_socket k" by (rule obj_bind_ip(2) [OF bind assms(3)])
  with obj_close_returns [OF b(2), of "Plain s1" k] fd
  obtain ob n2 where "obj_close k (Plain s1) n1 = Inr (ob, n2)" "net_ok n2" by auto
  with bind b(2) show ?thesis by (simp add: bind_one_def)
qed

text \<open>One round of the loop: it listens, or leaves everything as it was.\<close>

lemma bind_addr_effect:
  assumes "net_ok (srv_net w)" "fd_fresh k (open_fds (srv_net w))" "is_ip addr" "m_socks s = []"
  obtains w' where "bind_addr k (\<lambda>_. False) (addr, k, k') False s w =
      Inr (can_listen (addr, k, k'), s\<lparr>srv_ssl := False, m_socks := (if can_listen (addr, k, k') then [next_sock w] else [])\<rparr>, w')"
    and "net_ok (srv_net w')"
    and "can_listen (addr, k, k') \<Longrightarrow> open_fds (srv_net w') = insert (sys_socket k) (open_fds (srv_net w)) \<and>
      (\<exists>ob. objs w' = (objs w)(next_sock w \<mapsto> ob) \<and> obj_sock ob = sys_socket k)"
    and "\<not> can_listen (addr, k, k') \<Longrightarrow> open_fds (srv_net w') = open_fds (srv_net w) \<and> objs w' = objs w \<and>
      next_sock w' = next_sock w"
proof -
  obtain ids fails w' where one: "bind_one False (addr, k, k') ([], [], w) = Inr (ids, fails, w')" "net_ok (srv_net w')"
    using bind_one_returns [OF assms(1-3)] by blast
  note eff = bind_one_effect [OF one(1) assms(3,2)]
  show thesis
  proof (cases "can_listen (addr, k, k')")
    case True
    with eff one assms(4) that [of w'] show ?thesis by (simp add: bind_addr_def bind_addrs_def Let_def)
  next
    case False
    with eff one assms(4) that [of w'] show ?thesis by (simp add: bind_addr_def bind_addrs_def Let_def)
  qed
qed

text \<open>The first answer that lets the server listen, with the ones before it.\<close>

fun first_listen :: "address \<Rightarrow> (kernel \<times> kernel) list \<Rightarrow> kernel option" where
  "first_listen addr [] = None"
| "first_listen addr ((k, k') # rest) = (if can_listen (addr, k, k') then Some k else first_listen addr rest)"

lemma bind_retry_listens:
  assumes "first_listen addr answers = Some k" "\<forall>x \<in> set answers. fd_fresh (fst x) (open_fds (srv_net w))"
    and "net_ok (srv_net w)" "is_ip addr" "m_socks s = []"
  shows "\<exists>w'. bind_retry (Some addr) answers s w = Some (Inr (s\<lparr>srv_ssl := False, m_socks := [next_sock w]\<rparr>, w')) \<and>
    net_ok (srv_net w') \<and> open_fds (srv_net w') = insert (sys_socket k) (open_fds (srv_net w)) \<and>
    (\<exists>ob. objs w' = (objs w)(next_sock w \<mapsto> ob) \<and> obj_sock ob = sys_socket k)"
  using assms
proof (induction answers arbitrary: s w)
  case (Cons x rest)
  obtain k1 k' where x: "x = (k1, k')" by (cases x)
  have fr: "fd_fresh k1 (open_fds (srv_net w))" using Cons.prems(2) x by simp
  obtain w1 where w1: "bind_addr k1 (\<lambda>_. False) (addr, k1, k') False s w =
      Inr (can_listen (addr, k1, k'), s\<lparr>srv_ssl := False, m_socks := (if can_listen (addr, k1, k') then [next_sock w] else [])\<rparr>, w1)"
    "net_ok (srv_net w1)"
    "can_listen (addr, k1, k') \<Longrightarrow> open_fds (srv_net w1) = insert (sys_socket k1) (open_fds (srv_net w)) \<and>
      (\<exists>ob. objs w1 = (objs w)(next_sock w \<mapsto> ob) \<and> obj_sock ob = sys_socket k1)"
    "\<not> can_listen (addr, k1, k') \<Longrightarrow> open_fds (srv_net w1) = open_fds (srv_net w) \<and> objs w1 = objs w \<and>
      next_sock w1 = next_sock w"
    using bind_addr_effect [OF Cons.prems(3) fr Cons.prems(4,5)] by metis
  show ?case
  proof (cases "can_listen (addr, k1, k')")
    case True
    with Cons.prems(1) x have "k1 = k" by simp
    with w1(3) [OF True] obtain ob where "open_fds (srv_net w1) = insert (sys_socket k) (open_fds (srv_net w))"
      "objs w1 = (objs w)(next_sock w \<mapsto> ob)" "obj_sock ob = sys_socket k" by blast
    with True w1(1,2) x show ?thesis by (intro exI [of _ w1]) (auto simp del: fun_upd_apply)
  next
    case False
    note same = w1(4) [OF False]
    let ?s = "s\<lparr>srv_ssl := False, m_socks := []\<rparr>"
    have "first_listen addr rest = Some k" "\<forall>x \<in> set rest. fd_fresh (fst x) (open_fds (srv_net w1))"
      using Cons.prems(1,2) False x same by simp_all
    from Cons.IH [OF this w1(2) Cons.prems(4), of ?s] False w1(1) x same show ?thesis by simp
  qed
qed simp

lemma bind_retry_waits:
  assumes "first_listen addr answers = None" "\<forall>x \<in> set answers. fd_fresh (fst x) (open_fds (srv_net w))"
    and "net_ok (srv_net w)" "is_ip addr" "m_socks s = []"
  shows "bind_retry (Some addr) answers s w = None"
  using assms
proof (induction answers arbitrary: s w)
  case (Cons x rest)
  obtain k1 k' where x: "x = (k1, k')" by (cases x)
  have fr: "fd_fresh k1 (open_fds (srv_net w))" and no: "\<not> can_listen (addr, k1, k')"
    using Cons.prems(1,2) x by (auto split: if_splits)
  let ?s = "s\<lparr>srv_ssl := False, m_socks := []\<rparr>"
  obtain w1 where w1: "bind_addr k1 (\<lambda>_. False) (addr, k1, k') False s w =
      Inr (can_listen (addr, k1, k'), s\<lparr>srv_ssl := False, m_socks := (if can_listen (addr, k1, k') then [next_sock w] else [])\<rparr>, w1)"
    "net_ok (srv_net w1)"
    "\<not> can_listen (addr, k1, k') \<Longrightarrow> open_fds (srv_net w1) = open_fds (srv_net w) \<and> objs w1 = objs w \<and>
      next_sock w1 = next_sock w"
    using bind_addr_effect [OF Cons.prems(3) fr Cons.prems(4,5)] by metis
  with no have "open_fds (srv_net w1) = open_fds (srv_net w)" by blast
  with Cons.prems(1,2) x no have "first_listen addr rest = None" "\<forall>x \<in> set rest. fd_fresh (fst x) (open_fds (srv_net w1))"
    by simp_all
  from Cons.IH [OF this w1(2) Cons.prems(4), of ?s] w1(1) x no show ?case by simp
qed simp

section \<open>The parts of run\<close>

text \<open>The block each row comes with is one the system may hand out at that moment.\<close>

fun rows_fit :: "pool_cfg \<Rightarrow> nat \<Rightarrow> (string \<times> string \<times> nat) list \<Rightarrow> users_cache \<Rightarrow> bool" where
  "rows_fit c w [] us = True"
| "rows_fit c w ((name, pw, nb) # rows) us =
     (block_fresh c nb (alloc_state us) \<and>
      (case users_push c nb w name pw us of Inl _ \<Rightarrow> True | Inr us1 \<Rightarrow> rows_fit c w rows us1))"

definition row_pairs :: "(string \<times> string \<times> nat) list \<Rightarrow> (string \<times> string) list" where
  "row_pairs rows = map (\<lambda>(name, pw, _). (name, pw)) rows"

lemma map_of_filter_key: "map_of (filter (\<lambda>e. fst e \<noteq> k) xs) = (map_of xs)(k := None)"
  by (induction xs) (auto simp: fun_eq_iff)

lemma spec_push_unbounded:
  "map_of (spec_push (- 1) k v xs) = (map_of xs)(k \<mapsto> v)" "length (spec_push (- 1) k v xs) \<le> Suc (length xs)"
  by (simp_all add: spec_push_def map_of_filter_key)

lemma load_users_all:
  assumes "users_inv c us" "lru_capacity us = - 1" "rows_fit c w rows us" "length (my_list us) + length rows < 2 ^ 63"
  shows "\<exists>us'. load_users c w rows us = Inr us' \<and> users_inv c us' \<and> lru_capacity us' = - 1 \<and>
    map_of (lru_abs us') = map_of (lru_abs us) ++ map_of (rev (row_pairs rows))"
  using assms
proof (induction rows arbitrary: us)
  case (Cons row rows)
  obtain name pw nb where row: "row = (name, pw, nb)" by (cases row)
  have fit: "block_fresh c nb (alloc_state us)" using Cons.prems(3) row by simp
  have cap: "lru_capacity us \<noteq> 0 \<or> my_list us \<noteq> []" using Cons.prems(2) by simp
  obtain us1 where us1: "users_push c nb w name pw us = Inr us1" "lru_inv (pool_live c) us1"
    "lru_abs us1 = spec_push (lru_capacity us) name pw (lru_abs us)" "lru_capacity us1 = lru_capacity us"
    by (rule users_pushE [OF Cons.prems(1) fit cap])
  have "length (lru_abs us1) \<le> Suc (length (lru_abs us))"
    unfolding us1(3) Cons.prems(2) by (rule spec_push_unbounded(2))
  then have len: "length (my_list us1) + length rows < 2 ^ 63" using Cons.prems(4) by simp
  then have "users_inv c us1" using us1(2) by (simp add: users_inv_def)
  moreover have "rows_fit c w rows us1" using Cons.prems(3) row us1(1) by simp
  ultimately obtain us2 where us2: "load_users c w rows us1 = Inr us2" "users_inv c us2" "lru_capacity us2 = - 1"
    "map_of (lru_abs us2) = map_of (lru_abs us1) ++ map_of (rev (row_pairs rows))"
    using Cons.IH [of us1] us1(4) Cons.prems(2) len by auto
  moreover have "map_of (lru_abs us1) = (map_of (lru_abs us))(name \<mapsto> pw)"
    unfolding us1(3) Cons.prems(2) by (rule spec_push_unbounded(1))
  ultimately show ?case using us1(1) row by (simp add: row_pairs_def)
qed (simp add: row_pairs_def)

lemma raii_round:
  assumes "pool_init (map Some (c # cs)) conn_pool_ctor = Some p"
  shows "\<exists>p1. raii_get t p = Some (Inr (Some c, p1)) \<and> conn_list (raii_release t (Some c) p1) = cs @ [c] \<and>
    reserve (raii_release t (Some c) p1) = int (length (c # cs)) \<and> (\<forall>u. pcs (raii_release t (Some c) p1) u = Outside)"
proof -
  have "p = \<lparr>conn_list = c # cs, m_max_conn = int (length (c # cs)), m_cur_conn = 0, m_free_conn = int (length (c # cs)),
      reserve = int (length (c # cs)), pcs = (\<lambda>_. Outside)\<rparr>"
    using assms pool_open_all [of "c # cs" conn_pool_ctor] by (simp add: pool_init_def conn_pool_ctor_def)
  then show ?thesis
    by (simp add: raii_get_def raii_release_def get_check_def get_wait_def get_take_def release_push_def release_post_def Let_def)
qed

lemma http_server_root:
  assumes "length d < 200" "NUL \<notin> set d"
  shows "\<exists>r. http_server_ctor b i j k (Some d) junk = Inr \<lparr>hs_tcp = tcp_server_ctor i j k, hs_root = Some r,
      hs_user = [], hs_password = [], hs_database = [], hs_keepalive = b\<rparr> \<and> c_str r 0 = Inr (d @ root_suffix)"
proof -
  let ?n = "length d"
  define m where "m = map junk [0 ..< ?n + length root_suffix + 1]"
  have m: "m = take (?n + 1) m @ drop (?n + 1) m" "length (take (?n + 1) m) = ?n + 1"
    by (simp_all add: m_def root_suffix_def)
  have 1: "strcpy m 0 d = Inr ((d @ [NUL]) @ drop (?n + 1) m)"
    unfolding strcpy_def using put_str_layout [of "take (?n + 1) m" "d @ [NUL]" 0 "[]" "drop (?n + 1) m"] m by simp
  have d0: "c_str ((d @ [NUL]) @ drop (?n + 1) m) 0 = Inr d"
    using c_str_layout [of d 0 "[]"] assms(2) by simp
  have "put_str (d @ (NUL # drop (?n + 1) m) @ []) (int ?n) (root_suffix @ [NUL]) = Inr (d @ (root_suffix @ [NUL]) @ [])"
    by (rule put_str_layout) (simp_all add: m_def root_suffix_def)
  then have 2: "strcat ((d @ [NUL]) @ drop (?n + 1) m) 0 root_suffix = Inr (d @ root_suffix @ [NUL])"
    by (simp only: strcat_def d0 result_bind_simps strcpy_def) simp
  have "c_str (d @ root_suffix @ [NUL]) 0 = Inr (d @ root_suffix)"
    using c_str_layout [of "d @ root_suffix" 0 "[]" "[]"] assms(2) by (simp add: root_suffix_def)
  with 1 2 assms(1) show ?thesis unfolding http_server_ctor_def m_def Let_def by simp
qed

lemma dec_int_no_colon: "CHR '':'' \<notin> set (dec_int i)"
  using dec_nat_digits [of "nat i"] dec_nat_digits [of "nat (- i)"] by (auto simp: dec_int_def is_digit_def)

lemma server_address_resolved:
  assumes "resolve ''0.0.0.0'' (Some (dec_int port)) = Some (sa # sas)" "address_Create (Some sa) = Some addr" "is_ip addr"
  shows "server_address resolve port = Some addr"
proof -
  have "split_host (''0.0.0.0'' @ '':'' @ dec_int port) = (''0.0.0.0'', Some (dec_int port))"
    using dec_int_no_colon [of port] by (simp add: split_host_def bracket_split_def)
  then show ?thesis using assms by (simp add: server_address_def LookupAnyIPAddress_def Lookup_def)
qed

section \<open>Properties\<close>

text \<open>
  C21. The server comes up. When the resolver knows the address, every connection to the data base opens and the table of
  users can be read, and the kernel lets the server listen at some attempt, however many it refused before, then
  \<^verbatim>\<open>run\<close> ends without a fault: the server has one listening socket, on the descriptor of the first attempt
  that was accepted, and no other descriptor is left open; one \<^verbatim>\<open>startAccept\<close> for it is queued last with the
  worker; its root is the working directory with the suffix, in a block that is large enough; every row of the
  table is in the cache; and the connection used for it is back, so all of them are free.
\<close>

theorem server_comes_up:
  assumes address: "resolver e ''0.0.0.0'' (Some (dec_int port)) = Some (sa # sas)" "address_Create (Some sa) = Some addr" "is_ip addr"
    and db: "map (db_connect e) [0 ..< nat num] = map Some (con # cons)" "st_pool s = conn_pool_ctor"
      "user_rows e con = Some rows"
    and users: "users_inv (cache_layout e) (st_users s)" "lru_capacity (st_users s) = - 1"
      "rows_fit (cache_layout e) (cache_word e) rows (st_users s)" "length (my_list (st_users s)) + length rows < 2 ^ 63"
    and dir: "working_dir e = Some d" "length d < 200" "NUL \<notin> set d" and proxy: "proxy = 0 \<or> proxy = 1"
    and kernel: "first_listen addr (bind_answers e) = Some k" "net_ok (srv_net (st_world s))"
      "\<forall>x \<in> set (bind_answers e). fd_fresh (fst x) (open_fds (srv_net (st_world s)))"
    and worker: "this_worker e = Some i"
  shows "\<exists>hs s'. run_server e user passwd database_name num port proxy s = Serves hs s' \<and>
    m_socks (hs_tcp hs) = [next_sock (st_world s)] \<and> \<not> m_isStop (hs_tcp hs) \<and>
    sock_of (st_world s') (next_sock (st_world s)) = sys_socket k \<and>
    open_fds (srv_net (st_world s')) = insert (sys_socket k) (open_fds (srv_net (st_world s))) \<and>
    (\<exists>q. queue_of i (st_world s') = q @ [server_callback (Start_Accept (next_sock (st_world s)))]) \<and>
    (\<exists>r. hs_root hs = Some r \<and> c_str r 0 = Inr (d @ ''/../src/root'')) \<and>
    map_of (lru_abs (st_users s')) = map_of (lru_abs (st_users s)) ++ map_of (rev (row_pairs rows)) \<and>
    conn_list (st_pool s') = cons @ [con] \<and> reserve (st_pool s') = int (length (con # cons)) \<and>
    (\<forall>u. pcs (st_pool s') u = Outside)"
proof -
  obtain p where p: "pool_init (map Some (con # cons)) conn_pool_ctor = Some p"
    by (simp add: pool_init_def pool_open_all del: list.map)
  obtain p1 where p1: "raii_get 0 p = Some (Inr (Some con, p1))" "conn_list (raii_release 0 (Some con) p1) = cons @ [con]"
    "reserve (raii_release 0 (Some con) p1) = int (length (con # cons))" "\<forall>u. pcs (raii_release 0 (Some con) p1) u = Outside"
    using raii_round [OF p] by blast
  obtain us where us: "load_users (cache_layout e) (cache_word e) rows (st_users s) = Inr us"
    "map_of (lru_abs us) = map_of (lru_abs (st_users s)) ++ map_of (rev (row_pairs rows))"
    using load_users_all [OF users] by blast
  have init: "initmysql_result 0 (cache_layout e) (cache_word e) (user_rows e) (st_users s, p) =
      Some (Inr (us, raii_release 0 (Some con) p1))"
    using p1(1) us(1) db(3) by (simp add: initmysql_result_def)
  let ?tcp = "tcp_server_ctor (Some i) (Some i) (Some i)"
  obtain r where r: "http_server_ctor True (Some i) (Some i) (Some i) (Some d) (malloc_junk e) =
      Inr \<lparr>hs_tcp = ?tcp, hs_root = Some r, hs_user = [], hs_password = [], hs_database = [], hs_keepalive = True\<rparr>"
    "c_str r 0 = Inr (d @ root_suffix)"
    using http_server_root [OF dir(2,3)] by blast
  obtain g where g: "initproxy proxy (st_proxy s) = Inr g" using proxy by (auto simp: initproxy_def)
  have socks: "m_socks ?tcp = []" by (simp add: tcp_server_ctor_def)
  let ?a = "next_sock (st_world s)"
  let ?bound = "?tcp\<lparr>srv_ssl := False, m_socks := [?a]\<rparr>"
  obtain w ob where w: "bind_retry (Some addr) (bind_answers e) ?tcp (st_world s) = Some (Inr (?bound, w))"
    "open_fds (srv_net w) = insert (sys_socket k) (open_fds (srv_net (st_world s)))"
    "objs w = (objs (st_world s))(?a \<mapsto> ob)" "obj_sock ob = sys_socket k"
    using bind_retry_listens [OF kernel(1,3,2) address(3) socks] by blast
  obtain w1 where w1: "schedule_accepts (Some i) [?a] w = Inr w1" "objs w1 = objs w" "open_fds (srv_net w1) = open_fds (srv_net w)"
    "queue_of i w1 = queue_of i w @ map (\<lambda>a. server_callback (Start_Accept a)) [?a]"
    using schedule_accepts_effect by blast
  have start: "server_start ?bound w = Inr (True, ?bound\<lparr>m_isStop := False\<rparr>, w1)"
    using w1(1) by (simp add: server_start_def tcp_server_ctor_def)
  let ?hs = "\<lparr>hs_tcp = ?bound\<lparr>m_isStop := False\<rparr>, hs_root = Some r, hs_user = user, hs_password = passwd,
    hs_database = database_name, hs_keepalive = True\<rparr>"
  let ?s = "\<lparr>st_world = w1, st_pool = raii_release 0 (Some con) p1, st_users = us, st_proxy = g\<rparr>"
  have "server_address (resolver e) port = Some addr" by (rule server_address_resolved) (rule address)+
  then have "run_server e user passwd database_name num port proxy s = Serves ?hs ?s"
    unfolding run_server_def db(1,2) p dir(1) worker
    using r(1) init g w(1) start by simp
  moreover have "sock_of w1 ?a = sys_socket k" using w1(2) w(3,4) by (simp add: sock_of_def)
  moreover have "c_str r 0 = Inr (d @ ''/../src/root'')" using r(2) by (simp add: root_suffix_def)
  ultimately show ?thesis
    using w1(3,4) w(2) p1(2-4) us(2) by (intro exI [of _ ?hs] exI [of _ ?s]) simp
qed

text \<open>The first port attempt is refused, the second one is accepted; one account is loaded.\<close>

definition demo_start_env :: start_env where
  "demo_start_env = \<lparr>resolver = (\<lambda>_ _. Some [Sa_In (ipv4_ctor 0 9006)]), db_connect = (\<lambda>j. Some (j + 7)),
     user_rows = (\<lambda>_. Some [(''ann'', ''pw'', 4096)]), cache_layout = demo_cfg, cache_word = 7,
     working_dir = Some ''/srv/bin'', malloc_junk = (\<lambda>_. CHR ''x''), this_worker = Some 0,
     bind_answers = [(demo_kernel\<lparr>sys_bind := - 1\<rparr>, demo_kernel), (demo_kernel, demo_kernel)]\<rparr>"

definition demo_start_state :: start_state where
  "demo_start_state = \<lparr>st_world = demo_srv_world, st_pool = conn_pool_ctor, st_users = lru_new (- 1) (pool_new (\<lambda>_. 0)),
     st_proxy = (None, None)\<rparr>"

lemma demo_srv_net_ok: "net_ok (srv_net demo_srv_world)"
proof -
  obtain io :: "server_task io_manager" where io: "io_ctor 1 False 0 0 3 0 0 0 [1] = Inr io"
    by (simp add: io_ctor_def scheduler_ctor_def start_def Let_def)
  then have "io_reach io" by (rule io_reach.ctor)
  with io fdm_reach.ctor show ?thesis by (simp add: net_ok_def demo_srv_world_def)
qed

theorem server_comes_up_witness:
  "\<exists>hs s'. run_server demo_start_env ''root'' ''123456'' ''webserver'' 2 9006 0 demo_start_state = Serves hs s' \<and>
     m_socks (hs_tcp hs) = [0] \<and> open_fds (srv_net (st_world s')) = {5, 0, 1, 2} \<and>
     map_of (lru_abs (st_users s')) ''ann'' = Some ''pw'' \<and> conn_list (st_pool s') = [8, 7]"
proof -
  let ?e = demo_start_env and ?s = demo_start_state and ?addr = "IPv4Address (ipv4_ctor 0 9006)"
  let ?us = "lru_new (- 1) (pool_new (\<lambda>_. 0)) :: users_cache" and ?rows = "[(''ann'', ''pw'', 4096)]"
  have env: "resolver ?e ''0.0.0.0'' (Some (dec_int 9006)) = Some (Sa_In (ipv4_ctor 0 9006) # [])"
    "map (db_connect ?e) [0 ..< nat 2] = map Some (7 # [8])" "user_rows ?e 7 = Some ?rows" "cache_layout ?e = demo_cfg"
    "cache_word ?e = 7" "working_dir ?e = Some ''/srv/bin''" "this_worker ?e = Some 0"
    by (simp_all add: demo_start_env_def numeral_2_eq_2)
  have st: "st_pool ?s = conn_pool_ctor" "st_users ?s = ?us" "st_world ?s = demo_srv_world"
    by (simp_all add: demo_start_state_def)
  have world: "next_sock demo_srv_world = 0" "open_fds (srv_net demo_srv_world) = {0, 1, 2}"
    by (simp_all add: demo_srv_world_def)
  have addr: "address_Create (Some (Sa_In (ipv4_ctor 0 9006))) = Some ?addr" "is_ip ?addr"
    by (simp_all add: address_Create_def is_ip_def)
  have inv: "users_inv (cache_layout ?e) (st_users ?s)" "lru_capacity (st_users ?s) = - 1" "my_list ?us = []"
    unfolding env st using users_inv_new [OF demo_cfg_ok, of "- 1" "\<lambda>_. 0"] by (simp_all add: lru_new_def)
  have fit: "rows_fit (cache_layout ?e) (cache_word ?e) ?rows (st_users ?s)"
    unfolding env st using users_fresh_new [of 4096 demo_cfg "- 1" "\<lambda>_. 0"] by (auto split: sum.splits)
  have len: "length (my_list (st_users ?s)) + length ?rows < 2 ^ 63" unfolding st inv(3) by simp
  have first: "first_listen ?addr (bind_answers ?e) = Some demo_kernel"
    by (simp add: demo_start_env_def can_listen_def demo_kernel_def)
  have fresh: "\<forall>x \<in> set (bind_answers ?e). fd_fresh (fst x) (open_fds (srv_net (st_world ?s)))"
    unfolding st world by (simp add: demo_start_env_def fd_fresh_def demo_kernel_def)
  have net: "net_ok (srv_net (st_world ?s))" unfolding st by (rule demo_srv_net_ok)
  have "length ''/srv/bin'' < 200" "NUL \<notin> set ''/srv/bin''" "0 = (0::int) \<or> 0 = (1::int)" by simp_all
  from server_comes_up [OF env(1) addr env(2) st(1) env(3) inv(1,2) fit len env(6) this first net fresh env(7),
      of "''root''" "''123456''" "''webserver''"]
  obtain hs s' where out: "run_server ?e ''root'' ''123456'' ''webserver'' 2 9006 0 ?s = Serves hs s'"
    "m_socks (hs_tcp hs) = [next_sock (st_world ?s)]"
    "open_fds (srv_net (st_world s')) = insert (sys_socket demo_kernel) (open_fds (srv_net (st_world ?s)))"
    "map_of (lru_abs (st_users s')) = map_of (lru_abs (st_users ?s)) ++ map_of (rev (row_pairs ?rows))"
    "conn_list (st_pool s') = [8] @ [7]"
    by blast
  moreover have "sys_socket demo_kernel = 5" by (simp add: demo_kernel_def)
  moreover have "map_of (lru_abs (st_users s')) ''ann'' = Some ''pw''" unfolding out(4) by (simp add: row_pairs_def)
  ultimately show ?thesis unfolding st world by (intro exI [of _ hs] exI [of _ s']) simp
qed





end
