(* ===== verification/Idle_Loop.thy ===== *)
theory Idle_Loop
  imports IO_Manager
begin

text \<open>
  The loop of \<^verbatim>\<open>IOManager::idle\<close> (\<^verbatim>\<open>src/CoroutineLibrary/ioscheduler.cpp\<close>) around the steps of \<open>IO_Manager\<close>, and
  the destructor. What the clock and epoll answer in a round is a record; \<open>others\<close> is what the other threads do to
  the I/O manager before each of the four parts of a round, and \<open>resumed\<close> what happens while the idle fiber is
  suspended.
\<close>

section \<open>One round\<close>





text \<open>
  The destructor on thread \<open>w\<close>: \<^verbatim>\<open>stop\<close>, and when it has come back the descriptors closed and the contexts
  deleted.
\<close>

definition io_dtor_stop :: "tid \<Rightarrow> 'c io_manager \<Rightarrow> (bool \<times> 'c io_manager) result" where
  "io_dtor_stop w s = result_bind (stop w (schedulers s (self s))) (\<lambda>(waits_for_all, k).
     Inr (waits_for_all, s\<lparr>schedulers := (schedulers s)(self s := k)\<rparr>))"

definition io_dtor_close :: "int \<Rightarrow> int \<times> int \<Rightarrow> 'c io_manager \<Rightarrow> int list \<times> nat list" where
  "io_dtor_close epfd tickleFds s = ([epfd, fst tickleFds, snd tickleFds], m_fdContexts s)"

section \<open>What the loop keeps\<close>










lemma epoll_ctl_timers [simp]: "timers (epoll_ctl op fd ev rt s) = timers s"
  by (simp add: epoll_ctl_def)










section \<open>Properties\<close>




end
