(* ===== verification/Spec2Isabelle.thy ===== *)
theory Spec2Isabelle
  imports LRU_Cache IO_Manager Hook Http_Invariant Find_Cache Threads Start_Up Idle_Loop
begin

text \<open>
  A verification library of the coroutine service framework: a web server whose handlers are written
  as blocking code and run on coroutines, over a scheduler, epoll and a set of timers.

  The program and its parts. \<^verbatim>\<open>src/CoroutineLibrary\<close> has the coroutines (\<^verbatim>\<open>fiber.cpp\<close>), the scheduler
  that runs them on threads (\<^verbatim>\<open>scheduler.cpp\<close>), the timers (\<^verbatim>\<open>timer.cpp\<close>), the I/O manager that lets a
  fiber wait for an event of a descriptor (\<^verbatim>\<open>ioscheduler.cpp\<close>, both a scheduler and a timer manager),
  what is known of each descriptor (\<^verbatim>\<open>fd_manager.cpp\<close>), and the system calls that suspend the fiber
  where the original would block (\<^verbatim>\<open>hook.cpp\<close>). \<^verbatim>\<open>src/server\<close> has the HTTP connection
  (\<^verbatim>\<open>http_conn.cpp\<close>), the function that serves a client (\<^verbatim>\<open>http_server.cpp\<close>), and the server that listens
  and accepts (\<^verbatim>\<open>tcp_server.cc\<close>) over the sockets and addresses of \<^verbatim>\<open>src/util\<close>; it keeps the user names
  in the cache of \<^verbatim>\<open>src/my_stl/my_stl.hpp\<close>, whose nodes come from \<^verbatim>\<open>src/memorypool/memorypool.hpp\<close>, and
  shares the connections to the data base of \<^verbatim>\<open>src/cglmysql\<close>. \<^verbatim>\<open>src/main.cpp\<close> reads the command line
  (\<^verbatim>\<open>src/util/config.cpp\<close>) and puts the parts together.

  The theories, from the bottom up.

  \<^item> \<open>Prelude\<close>: integer widths, faults, the result type, vectors with bounds, \<^verbatim>\<open>errno\<close> values.
  \<^item> \<open>Memory_Pool\<close>: \<^verbatim>\<open>MemoryPool\<close> over a store of words. The locale \<open>allocator\<close> is what a container
    relies on; it is interpreted on the pool. Slots never overlap, the destructor frees every block.
  \<^item> \<open>LRU_Cache\<close>: \<^verbatim>\<open>LRUCache\<close>, with its lemmas in the locale \<open>allocator\<close>; it refines a bounded list in
    order of use.
  \<^item> \<open>Timer_Manager\<close>: \<^verbatim>\<open>Timer\<close> and \<^verbatim>\<open>TimerManager\<close>; the timers are ordered by deadline, and
    \<^verbatim>\<open>listExpiredCb\<close> returns the callbacks that are due.
  \<^item> \<open>Fiber\<close>: \<^verbatim>\<open>Fiber\<close>, with the context switches explicit: which stack each thread executes on.
  \<^item> \<open>Scheduler\<close>: \<^verbatim>\<open>Scheduler\<close>; the loop of each worker is cut at its critical sections, and a step
    relation interleaves the workers. No task is lost, none runs twice at a time, and all workers can
    leave once it is stopping.
  \<^item> \<open>IO_Manager\<close>: \<^verbatim>\<open>IOManager\<close>; the table of waiters, what epoll was told, and the pending counter agree
    in every reachable state.
  \<^item> \<open>Fd_Manager\<close>: \<^verbatim>\<open>FdCtx\<close>, \<^verbatim>\<open>FdManager\<close> and \<^verbatim>\<open>Singleton\<close>.
  \<^item> \<open>Hook\<close>: the hooked calls. \<^verbatim>\<open>do_io\<close> is a loop over the answers of the original call and of the
    waits, and lists what it does to the I/O manager; the timeout callback is composed with
    \<^verbatim>\<open>cancelEvent\<close> of \<open>IO_Manager\<close>, \<^verbatim>\<open>close\<close> with \<^verbatim>\<open>cancelAll\<close> and \<^verbatim>\<open>FdManager::del\<close>, the sleeping calls
    with \<^verbatim>\<open>addTimer\<close> of \<open>Timer_Manager\<close>.
  \<^item> \<open>C_String\<close>: C strings in character arrays, the library functions the server uses on them, and
    numbers as text.
  \<^item> \<open>Http_Parser\<close>: the state of a connection, \<^verbatim>\<open>read_once\<close>, and the parser with its main loop.
    What it reads from a well-formed request is what was in it, in one piece or in several.
  \<^item> \<open>Http_Request\<close>: \<^verbatim>\<open>do_request\<close> and \<^verbatim>\<open>process_read\<close>: log-in and registration against the cache
    of \<open>LRU_Cache\<close>, and which file is opened.
  \<^item> \<open>Http_Response\<close>: the answer, \<^verbatim>\<open>write\<close>, \<^verbatim>\<open>process\<close> and \<^verbatim>\<open>handleClient\<close>, up to the bytes a client
    receives for the request it sent.
  \<^item> \<open>Http_Invariant\<close>: what holds of a connection between any two operations.
  \<^item> \<open>Byte_Order\<close> and \<open>Address\<close>: \<^verbatim>\<open>endian.h\<close> and the address classes: their text, order, subnets, and what
    \<^verbatim>\<open>Lookup\<close> asks the resolver. Texts of addresses read back.
  \<^item> \<open>Socket\<close>: \<^verbatim>\<open>Socket\<close> and \<^verbatim>\<open>SSLSocket\<close> over \<open>Hook\<close> and \<open>Address\<close>; no two sockets share a descriptor.
  \<^item> \<open>Tcp_Server\<close>: \<^verbatim>\<open>TcpServer\<close>: binding is all or nothing, an accepted client is handed to the worker.
  \<^item> \<open>Connection_Pool\<close>: \<^verbatim>\<open>Connection_pool\<close> and \<^verbatim>\<open>connectionRAII\<close>, cut at the lock and the semaphore; no
    connection is lent twice.
  \<^item> \<open>Find_Cache\<close>: \<^verbatim>\<open>FindCache\<close>, the linked list the server used before, over the locale \<open>allocator\<close>.
  \<^item> \<open>Threads\<close>: \<^verbatim>\<open>Semaphore\<close>, \<^verbatim>\<open>Thread\<close> and \<^verbatim>\<open>Sem\<close>: no wake-up is lost, the constructor of a thread
    returns.
  \<^item> \<open>Idle_Loop\<close>: the loop of \<^verbatim>\<open>IOManager::idle\<close> over the steps of \<open>IO_Manager\<close>; it is left only when
    nothing is left to do.
  \<^item> \<open>Config\<close>: the command line, with \<^verbatim>\<open>getopt\<close> written out, and the settings.
  \<^item> \<open>Start_Up\<close>: \<^verbatim>\<open>main\<close> and \<^verbatim>\<open>run\<close>, from the command line to a server that listens: \<open>Config\<close>,
    \<open>Address\<close>, \<open>Connection_Pool\<close>, \<open>LRU_Cache\<close>, \<open>Tcp_Server\<close> and \<open>IO_Manager\<close> composed.

  How the code is represented. An object is a record of its members, objects behind shared pointers are
  numbered; a \<^verbatim>\<open>char *\<close> into an array is an index. An operation that can fault (an assertion, an access
  outside of an array, a null pointer, undefined behaviour) returns \<open>Inl\<close> of the fault. Machine
  integers are words where the code lets them wrap, and \<open>int\<close> with the bounds written out elsewhere.
  What the kernel, the clock, the data base and the file system answer are arguments. A loop over such
  answers takes the list of them, and is \<open>None\<close> when the list ends before the loop does; the theorems on
  these loops say which lists are enough. The other loops are total functions, except for the timer loop
  and the loop of the pool's destructor, which may not end: these are partial functions into \<open>option\<close>.

  Locks. A critical section is one step. The scheduler, the I/O manager, the fibers, the sockets, the pool of
  connections, the semaphore and the thread have step relations over these steps, with every interleaving; the
  ones that share a shape use the locale \<open>step_invariant\<close> of \<open>Prelude\<close>, interpreted in their theories. The
  lock-free parts of \<^verbatim>\<open>FdManager::get\<close> and \<^verbatim>\<open>addEvent\<close> are cut into their sections. In \<open>Idle_Loop\<close> what the
  other threads do in between is an arbitrary function that keeps the invariant.

  Bounds. The arrays of a connection have the sizes of the code (2048, 1024, 200, 100 characters). The
  theorems on answers assume files below 2^30 bytes, since the code keeps lengths in \<^verbatim>\<open>int\<close>. A list of answers
  is enough when it holds the answer that ends the loop: the theorems name it (\<open>first_listen\<close> for the loop that
  binds, a round that begins quiet for \<^verbatim>\<open>idle\<close>).

  Not modelled. Log output, and the log library beyond the name of its file. What OpenSSL, MySQL, the resolver,
  the kernel and the clock answer is an argument, never a definition. \<^verbatim>\<open>Cond\<close> of \<^verbatim>\<open>locker.h\<close>, which nothing
  uses. \<^verbatim>\<open>setrlimit\<close> in \<^verbatim>\<open>main\<close> beyond its argument. The headers of \<^verbatim>\<open>src/util\<close> and \<^verbatim>\<open>src/server\<close> are
  mostly declarations and comments; what they define is modelled with the file that implements it. Uninitialised
  memory: a \<^verbatim>\<open>POST\<close> without content reads \<^verbatim>\<open>m_string\<close> as it is.
\<close>

end
